(* ===== verification/Prelude.thy ===== *)
theory Prelude
  imports Main "HOL-Library.Monad_Syntax"
begin

text \<open>
  Shared material of the development: the types of the model (addresses, keys, values), the
  way a failing C++ statement is written, and sorted association lists, which are the abstract
  value of every dictionary modelled here.

  A C++ statement either runs to its end or it does not: dereferencing a null or dangling
  pointer, a failed \<open>assert\<close> and a loop that never ends have no result. All three are the value
  \<open>None\<close>, so \<open>f x = Some y\<close> says that the call returns \<open>y\<close> and touches live memory only.
\<close>

section \<open>Types\<close>

text \<open>
  The benchmark instantiates every dictionary with 64-bit signed keys and pointer-sized values
  whose zero is the reserved \<open>NO_VALUE\<close> (\<open>microbench/globals_t.h\<close>). Keys are only compared, so
  they are integers here; the places that add keys up reduce the sum modulo \<open>2 ^ 64\<close>.
\<close>

type_synonym addr = nat
type_synonym key = int
type_synonym val = nat

definition NULL :: addr where
  "NULL = 0"

abbreviation NO_VALUE :: val where
  "NO_VALUE \<equiv> 0"

definition assert_that :: "bool \<Rightarrow> unit option" where
  "assert_that b = (if b then Some () else None)"

lemma assert_that_simps [simp]:
  "assert_that True = Some ()"
  "assert_that False = None"
  by (simp_all add: assert_that_def)

text \<open>\<open>size_t\<close> arithmetic wraps at 64 bits.\<close>

definition to_size_t :: "int \<Rightarrow> int" where
  "to_size_t x = x mod 2 ^ 64"

text \<open>Conversion to a 32-bit \<open>int\<close>.\<close>

definition to_int32 :: "int \<Rightarrow> int" where
  "to_int32 x = (x + 2 ^ 31) mod 2 ^ 32 - 2 ^ 31"

text \<open>
  What \<open>printf\<close> prints for a 64-bit key under the conversion \<open>%d\<close>. The conversion reads an \<open>int\<close>; in
  the calling convention of x86-64, the platform of the benchmark, this is the low half of the
  register that holds the key. (The language leaves the call undefined.)
\<close>

definition printf_d :: "key \<Rightarrow> int" where
  "printf_d k = to_int32 k"

section \<open>Collections used by the component theories\<close>

named_theorems heap_defs \<open>definitions of the heap accessors\<close>
named_theorems kv_simps \<open>rewriting of sorted association lists\<close>

section \<open>Sorted association lists\<close>

type_synonym kv_list = "(key \<times> val) list"

definition keys_of :: "kv_list \<Rightarrow> key set" where
  "keys_of xs = fst ` set xs"

definition sorted_kvs :: "kv_list \<Rightarrow> bool" where
  "sorted_kvs xs \<longleftrightarrow> sorted_wrt (<) (map fst xs)"

definition all_less :: "kv_list \<Rightarrow> key \<Rightarrow> bool" where
  "all_less xs k \<longleftrightarrow> (\<forall>x \<in> set xs. fst x < k)"

definition all_greater :: "key \<Rightarrow> kv_list \<Rightarrow> bool" where
  "all_greater k xs \<longleftrightarrow> (\<forall>x \<in> set xs. k < fst x)"

definition kv_before :: "kv_list \<Rightarrow> kv_list \<Rightarrow> bool" where
  "kv_before xs ys \<longleftrightarrow> (\<forall>x \<in> set xs. \<forall>y \<in> set ys. fst x < fst y)"

text \<open>
  The abstract dictionary operations: what a lookup returns, the list after inserting a key that
  may be present already (the present pair stays), and the list after removing a key.
\<close>

definition lookup_kv :: "kv_list \<Rightarrow> key \<Rightarrow> val" where
  "lookup_kv xs k = (case map_of xs k of None \<Rightarrow> NO_VALUE | Some v \<Rightarrow> v)"

fun ins_kv :: "key \<Rightarrow> val \<Rightarrow> kv_list \<Rightarrow> kv_list" where
  "ins_kv k v [] = [(k, v)]"
| "ins_kv k v ((a, b) # xs) =
     (if k < a then (k, v) # (a, b) # xs
      else if k = a then (a, b) # xs
      else (a, b) # ins_kv k v xs)"

definition del_kv :: "key \<Rightarrow> kv_list \<Rightarrow> kv_list" where
  "del_kv k xs = filter (\<lambda>(a, b). a \<noteq> k) xs"

lemma all_less_simps [simp]:
  "all_less [] k"
  "all_less ((a, b) # xs) k \<longleftrightarrow> a < k \<and> all_less xs k"
  "all_less (xs @ ys) k \<longleftrightarrow> all_less xs k \<and> all_less ys k"
  by (auto simp: all_less_def)

lemma all_greater_simps [simp]:
  "all_greater k []"
  "all_greater k ((a, b) # xs) \<longleftrightarrow> k < a \<and> all_greater k xs"
  "all_greater k (xs @ ys) \<longleftrightarrow> all_greater k xs \<and> all_greater k ys"
  by (auto simp: all_greater_def)

lemma sorted_kvs_simps [simp]:
  "sorted_kvs []"
  "sorted_kvs ((a, b) # xs) \<longleftrightarrow> all_greater a xs \<and> sorted_kvs xs"
  by (auto simp: sorted_kvs_def all_greater_def)

lemma kv_before_simps [simp]:
  "kv_before [] ys"
  "kv_before xs []"
  "kv_before ((a, b) # xs) ys \<longleftrightarrow> all_greater a ys \<and> kv_before xs ys"
  "kv_before xs ((a, b) # ys) \<longleftrightarrow> all_less xs a \<and> kv_before xs ys"
  "kv_before (xs @ xs') ys \<longleftrightarrow> kv_before xs ys \<and> kv_before xs' ys"
  "kv_before xs (ys @ ys') \<longleftrightarrow> kv_before xs ys \<and> kv_before xs ys'"
  by (auto simp: kv_before_def all_greater_def all_less_def)

lemma sorted_kvs_append [simp]:
  "sorted_kvs (xs @ ys) \<longleftrightarrow> sorted_kvs xs \<and> sorted_kvs ys \<and> kv_before xs ys"
  by (auto simp: sorted_kvs_def sorted_wrt_append kv_before_def)

lemma all_greater_trans: "all_greater k xs \<Longrightarrow> j < k \<Longrightarrow> all_greater j xs"
  by (force simp: all_greater_def)

lemma all_less_trans: "all_less xs k \<Longrightarrow> k < j \<Longrightarrow> all_less xs j"
  by (force simp: all_less_def)

lemma keys_of_simps [simp]:
  "keys_of [] = {}"
  "keys_of ((a, b) # xs) = insert a (keys_of xs)"
  "keys_of (xs @ ys) = keys_of xs \<union> keys_of ys"
  by (auto simp: keys_of_def)

lemma map_of_all_less: "all_less xs k \<Longrightarrow> map_of xs k = None"
  by (force simp: all_less_def map_of_eq_None_iff)

lemma map_of_all_greater: "all_greater k xs \<Longrightarrow> map_of xs k = None"
  by (force simp: all_greater_def map_of_eq_None_iff)

lemma lookup_kv_middle [kv_simps]:
  "all_less xs k \<Longrightarrow> lookup_kv (xs @ (k, v) # ys) k = v"
  by (simp add: lookup_kv_def map_add_def map_of_all_less)

lemma lookup_kv_middle2 [kv_simps]:
  "all_less xs k \<Longrightarrow> all_less ys k \<Longrightarrow> lookup_kv (xs @ ys @ (k, v) # zs) k = v"
  using lookup_kv_middle [of "xs @ ys" k v zs] by simp

lemma lookup_kv_absent [kv_simps]:
  "all_less xs k \<Longrightarrow> all_greater k ys \<Longrightarrow> lookup_kv (xs @ ys) k = NO_VALUE"
  by (simp add: lookup_kv_def map_add_def map_of_all_less map_of_all_greater)

lemma ins_kv_absent [kv_simps]:
  "all_less xs k \<Longrightarrow> all_greater k ys \<Longrightarrow> ins_kv k v (xs @ ys) = xs @ (k, v) # ys"
proof (induction xs)
  case Nil
  then show ?case by (cases ys) auto
qed auto

lemma ins_kv_present [kv_simps]:
  "all_less xs k \<Longrightarrow> ins_kv k v (xs @ (k, w) # ys) = xs @ (k, w) # ys"
  by (induction xs) auto

lemma del_kv_simps [simp]:
  "del_kv k [] = []"
  "del_kv k ((a, b) # xs) = (if a = k then del_kv k xs else (a, b) # del_kv k xs)"
  "del_kv k (xs @ ys) = del_kv k xs @ del_kv k ys"
  by (auto simp: del_kv_def)

lemma del_kv_all_less [kv_simps]: "all_less xs k \<Longrightarrow> del_kv k xs = xs"
  by (force simp: del_kv_def all_less_def filter_id_conv)

lemma del_kv_all_greater [kv_simps]: "all_greater k xs \<Longrightarrow> del_kv k xs = xs"
  by (force simp: del_kv_def all_greater_def filter_id_conv)

lemma del_kv_middle [kv_simps]:
  "all_less xs k \<Longrightarrow> all_greater k ys \<Longrightarrow> del_kv k (xs @ (k, v) # ys) = xs @ ys"
  by (simp add: kv_simps)

text \<open>
  The list operations are the dictionary operations on the finite map a sorted list stands for.
\<close>

lemma set_ins_kv_subset: "set (ins_kv k v xs) \<subseteq> insert (k, v) (set xs)"
  by (induction k v xs rule: ins_kv.induct) auto

lemma all_greater_ins_kv: "all_greater a xs \<Longrightarrow> a < k \<Longrightarrow> all_greater a (ins_kv k v xs)"
  using set_ins_kv_subset by (force simp: all_greater_def)

lemma sorted_ins_kv: "sorted_kvs xs \<Longrightarrow> sorted_kvs (ins_kv k v xs)"
  by (induction k v xs rule: ins_kv.induct) (auto intro: all_greater_ins_kv all_greater_trans)

lemma sorted_del_kv: "sorted_kvs xs \<Longrightarrow> sorted_kvs (del_kv k xs)"
  by (induction xs) (auto simp: all_greater_def del_kv_def)

lemma map_of_ins_kv:
  "sorted_kvs xs \<Longrightarrow>
     map_of (ins_kv k v xs) = (if map_of xs k = None then (map_of xs)(k \<mapsto> v) else map_of xs)"
proof (induction k v xs rule: ins_kv.induct)
  case (2 k v a b xs)
  then show ?case
    by (auto simp: map_of_all_greater all_greater_trans fun_upd_twist)
qed auto

lemma map_of_del_kv: "map_of (del_kv k xs) = (map_of xs)(k := None)"
  by (induction xs) (auto simp: fun_eq_iff)

lemma map_of_eq_None_keys: "map_of xs k = None \<longleftrightarrow> k \<notin> keys_of xs"
  by (simp add: map_of_eq_None_iff keys_of_def)

end
