(* ===== verification/IOSet.thy ===== *)
theory IOSet
  imports Prelude
begin

text \<open>
  The interface \<open>IOrderedSet\<close> of \<open>src/cpp/ds/winblad_catree/interfaces.h\<close>: an abstract class whose
  virtual methods a contention-adapting tree calls on the sets in its base nodes. A class that
  implements it is a record of its methods over a world of objects (the virtual table, with the
  constructor the factory switch of \<open>CATree\<close> calls); the locale states what the methods promise.
\<close>

section \<open>The methods\<close>

record 'w ioset_ops =
  io_new :: "'w \<Rightarrow> addr \<times> 'w"
  io_find :: "'w \<Rightarrow> addr \<Rightarrow> key \<Rightarrow> val option"
  io_insert :: "'w \<Rightarrow> addr \<Rightarrow> key \<Rightarrow> val \<Rightarrow> (val \<times> 'w) option"
  io_erase :: "'w \<Rightarrow> addr \<Rightarrow> key \<Rightarrow> (val \<times> 'w) option"
  io_numKeys :: "'w \<Rightarrow> addr \<Rightarrow> int option"
  io_sumOfKeys :: "'w \<Rightarrow> addr \<Rightarrow> int option"
  io_join :: "'w \<Rightarrow> addr \<Rightarrow> addr \<Rightarrow> (addr \<times> 'w) option"
  io_split :: "'w \<Rightarrow> addr \<Rightarrow> (key \<times> (addr \<times> addr) option \<times> 'w) option"

section \<open>Sequences of calls\<close>

datatype set_op = Find key | Insert key val | Erase key

definition call :: "'w ioset_ops \<Rightarrow> 'w \<Rightarrow> addr \<Rightarrow> set_op \<Rightarrow> (val \<times> 'w) option" where
  "call ops w x c = (case c of
     Find k \<Rightarrow> do { v \<leftarrow> io_find ops w x k; Some (v, w) }
   | Insert k v \<Rightarrow> io_insert ops w x k v
   | Erase k \<Rightarrow> io_erase ops w x k)"

fun calls :: "'w ioset_ops \<Rightarrow> 'w \<Rightarrow> addr \<Rightarrow> set_op list \<Rightarrow> (val list \<times> 'w) option" where
  "calls ops w x [] = Some ([], w)"
| "calls ops w x (c # cs) = do {
     (v, w) \<leftarrow> call ops w x c;
     (vs, w) \<leftarrow> calls ops w x cs;
     Some (v # vs, w)
   }"

text \<open>
  The same calls on a finite map: every call returns what the key was bound to before, and an
  insertion does not overwrite.
\<close>

definition lookup_map :: "(key \<Rightarrow> val option) \<Rightarrow> key \<Rightarrow> val" where
  "lookup_map m k = (case m k of None \<Rightarrow> NO_VALUE | Some v \<Rightarrow> v)"

fun map_call :: "(key \<Rightarrow> val option) \<Rightarrow> set_op \<Rightarrow> val \<times> (key \<Rightarrow> val option)" where
  "map_call m (Find k) = (lookup_map m k, m)"
| "map_call m (Insert k v) = (lookup_map m k, if m k = None then m(k \<mapsto> v) else m)"
| "map_call m (Erase k) = (lookup_map m k, m(k := None))"

fun map_calls :: "(key \<Rightarrow> val option) \<Rightarrow> set_op list \<Rightarrow> val list \<times> (key \<Rightarrow> val option)" where
  "map_calls m [] = ([], m)"
| "map_calls m (c # cs) =
     (let (v, m) = map_call m c; (vs, m) = map_calls m cs in (v # vs, m))"

lemma lookup_kv_map: "lookup_kv xs k = lookup_map (map_of xs) k"
  by (simp add: lookup_kv_def lookup_map_def)

text \<open>
  Worlds with one set object per list, filled by insertions in the order of the list, and the
  sorted lists that the objects then hold.
\<close>

definition fill_set :: "'w ioset_ops \<Rightarrow> 'w \<Rightarrow> addr \<Rightarrow> kv_list \<Rightarrow> 'w" where
  "fill_set ops w x xs = foldl (\<lambda>w (k, v). snd (the (io_insert ops w x k v))) w xs"

definition sets_of :: "'w ioset_ops \<Rightarrow> 'w \<Rightarrow> kv_list list \<Rightarrow> 'w" where
  "sets_of ops w xss = foldl (\<lambda>w xs. let (x, w) = io_new ops w in fill_set ops w x xs) w xss"

definition ins_all :: "kv_list \<Rightarrow> kv_list \<Rightarrow> kv_list" where
  "ins_all xs ys = foldl (\<lambda>ys (k, v). ins_kv k v ys) ys xs"

section \<open>The contract\<close>

text \<open>
  \<open>sets w M\<close>: in the world \<open>w\<close> the set objects \<open>dom M\<close> are alive and hold the sorted lists that
  \<open>M\<close> gives. The contract has three layers, because not every class keeps all of it: the
  dictionary operations, \<open>join\<close>, and the rest. \<open>join\<close> and \<open>split\<close> use up the objects they are
  applied to (\<open>join\<close> may return one of them). The AVL tree marks a missing key by 0, so a joined
  set must not contain it.
\<close>

locale dictionary_set =
  fixes ops :: "'w ioset_ops" and sets :: "'w \<Rightarrow> (addr \<Rightarrow> kv_list option) \<Rightarrow> bool"
  assumes sets_sorted: "sets w M \<Longrightarrow> M x = Some xs \<Longrightarrow> sorted_kvs xs"
    and sets_NULL: "sets w M \<Longrightarrow> M NULL = None"
    and new_set: "sets w M \<Longrightarrow> io_new ops w = (x, w') \<Longrightarrow> M x = None \<and> sets w' (M(x \<mapsto> []))"
    and find_set: "sets w M \<Longrightarrow> M x = Some xs \<Longrightarrow> io_find ops w x k = Some (lookup_kv xs k)"
    and insert_set: "sets w M \<Longrightarrow> M x = Some xs \<Longrightarrow>
      \<exists>w'. io_insert ops w x k v = Some (lookup_kv xs k, w') \<and> sets w' (M(x \<mapsto> ins_kv k v xs))"
    and erase_set: "sets w M \<Longrightarrow> M x = Some xs \<Longrightarrow>
      \<exists>w'. io_erase ops w x k = Some (lookup_kv xs k, w') \<and> sets w' (M(x \<mapsto> del_kv k xs))"
begin

lemma call_set:
  assumes "sets w M" "M x = Some xs"
  shows "\<exists>w' ys. call ops w x c = Some (fst (map_call (map_of xs) c), w') \<and>
    map_of ys = snd (map_call (map_of xs) c) \<and> sets w' (M(x \<mapsto> ys))"
proof (cases c)
  case (Find k)
  with find_set [OF assms, of k] assms show ?thesis
    by (intro exI [of _ w] exI [of _ xs]) (simp add: call_def lookup_kv_map fun_upd_idem)
next
  case (Insert k v)
  with insert_set [OF assms, of k v] map_of_ins_kv [OF sets_sorted [OF assms], of k v] show ?thesis
    by (auto simp: call_def lookup_kv_map)
next
  case (Erase k)
  with erase_set [OF assms, of k] map_of_del_kv [of k xs] show ?thesis
    by (auto simp: call_def lookup_kv_map)
qed

lemma calls_set:
  assumes "sets w M" "M x = Some xs"
  shows "\<exists>w' ys. calls ops w x cs = Some (fst (map_calls (map_of xs) cs), w') \<and>
    map_of ys = snd (map_calls (map_of xs) cs) \<and> sets w' (M(x \<mapsto> ys))"
  using assms
proof (induction cs arbitrary: w M xs)
  case Nil
  then show ?case by (intro exI [of _ w] exI [of _ xs]) (simp add: fun_upd_idem)
next
  case (Cons c cs)
  from call_set [OF Cons.prems, of c] obtain w1 ys where
    1: "call ops w x c = Some (fst (map_call (map_of xs) c), w1)"
      "map_of ys = snd (map_call (map_of xs) c)" "sets w1 (M(x \<mapsto> ys))" by blast
  from Cons.IH [of w1 "M(x \<mapsto> ys)" ys] 1(3) obtain w' zs where
    2: "calls ops w1 x cs = Some (fst (map_calls (map_of ys) cs), w')"
      "map_of zs = snd (map_calls (map_of ys) cs)" "sets w' (M(x \<mapsto> zs))"
    by (metis fun_upd_same fun_upd_upd)
  show ?case using 1 2
    by (intro exI [of _ w'] exI [of _ zs]) (simp add: split_beta Let_def fun_upd_def)
qed

text \<open>A set just made, then any sequence of calls: the answers of a finite map.\<close>

lemma new_calls:
  assumes "sets w M" "io_new ops w = (x, w0)"
  shows "\<exists>w'. calls ops w0 x cs = Some (fst (map_calls Map.empty cs), w')"
  using calls_set [of w0 "M(x \<mapsto> [])" x "[]" cs] new_set [OF assms] by auto

lemma fill_set:
  "sets w M \<Longrightarrow> M x = Some ys \<Longrightarrow> sets (fill_set ops w x xs) (M(x \<mapsto> ins_all xs ys))"
proof (induction xs arbitrary: w M ys)
  case Nil
  then show ?case by (simp add: fill_set_def ins_all_def fun_upd_idem)
next
  case (Cons kv xs)
  obtain k v where kv: "kv = (k, v)" by fastforce
  from insert_set [OF Cons.prems, of k v] obtain w' where
    w': "io_insert ops w x k v = Some (lookup_kv ys k, w')" "sets w' (M(x \<mapsto> ins_kv k v ys))" by blast
  from Cons.IH [OF w'(2), of "ins_kv k v ys"]
  have "sets (fill_set ops w' x xs) (M(x \<mapsto> ins_all xs (ins_kv k v ys)))"
    by (metis fun_upd_same fun_upd_upd)
  then show ?case using w'(1) by (simp add: fill_set_def ins_all_def kv fun_upd_def)
qed

lemma sets_of_snoc:
  assumes "sets (sets_of ops w xss) M"
  shows "sets (sets_of ops w (xss @ [xs])) (M(fst (io_new ops (sets_of ops w xss)) \<mapsto> ins_all xs []))"
proof -
  obtain x w' where n: "io_new ops (sets_of ops w xss) = (x, w')" by fastforce
  from new_set [OF assms n] have "sets w' (M(x \<mapsto> []))" by simp
  from fill_set [OF this, of x "[]" xs] have "sets (fill_set ops w' x xs) (M(x \<mapsto> ins_all xs []))"
    by (metis fun_upd_same fun_upd_upd)
  moreover have "sets_of ops w (xss @ [xs]) = fill_set ops w' x xs" using n by (simp add: sets_of_def)
  ultimately show ?thesis by (simp add: n)
qed

end

locale joinable_set = dictionary_set +
  assumes join_set: "sets w M \<Longrightarrow> M x = Some xs \<Longrightarrow> M y = Some ys \<Longrightarrow> x \<noteq> y \<Longrightarrow>
      sorted_kvs (xs @ ys) \<Longrightarrow> 0 \<notin> keys_of (xs @ ys) \<Longrightarrow>
      \<exists>z w'. io_join ops w x y = Some (z, w') \<and> (M(x := None, y := None)) z = None \<and>
        sets w' (M(x := None, y := None, z \<mapsto> xs @ ys))"

locale ordered_set = joinable_set +
  assumes numKeys_set: "sets w M \<Longrightarrow> M x = Some xs \<Longrightarrow>
      io_numKeys ops w x = Some (to_size_t (int (length xs)))"
    and sumOfKeys_set: "sets w M \<Longrightarrow> M x = Some xs \<Longrightarrow>
      io_sumOfKeys ops w x = Some (to_size_t (sum_list (map fst xs)))"
    and split_set_small: "sets w M \<Longrightarrow> M x = Some xs \<Longrightarrow> length xs < 2 \<Longrightarrow>
      \<exists>k. io_split ops w x = Some (k, None, w)"
    and split_set: "sets w M \<Longrightarrow> M x = Some xs \<Longrightarrow> 2 \<le> length xs \<Longrightarrow>
      \<exists>y z w' ys zs. io_split ops w x = Some (fst (hd zs), Some (y, z), w') \<and>
        xs = ys @ zs \<and> ys \<noteq> [] \<and> zs \<noteq> [] \<and> M y = None \<and> M z = None \<and> y \<noteq> z \<and>
        sets w' (M(x := None, y \<mapsto> ys, z \<mapsto> zs))"
begin

lemma split_then_join:
  assumes w: "sets w M" and x: "M x = Some xs" "2 \<le> length xs" and k: "0 \<notin> keys_of xs"
  shows "\<exists>sk y z w1 u w2. io_split ops w x = Some (sk, Some (y, z), w1) \<and>
    io_join ops w1 y z = Some (u, w2) \<and> sets w2 ((M(x := None))(u \<mapsto> xs))"
proof -
  from split_set [OF w x] obtain y z w1 ys zs where
    1: "io_split ops w x = Some (fst (hd zs), Some (y, z), w1)" "xs = ys @ zs"
      "M y = None" "M z = None" "y \<noteq> z" "sets w1 (M(x := None, y \<mapsto> ys, z \<mapsto> zs))" by blast
  let ?M = "M(x := None, y \<mapsto> ys, z \<mapsto> zs)"
  have so: "sorted_kvs (ys @ zs)" using sets_sorted [OF w x(1)] 1(2) by simp
  have "?M y = Some ys" "?M z = Some zs" "0 \<notin> keys_of (ys @ zs)" using 1(2,5) k by auto
  from join_set [OF 1(6) this(1,2) 1(5) so this(3)] obtain u w2 where
    2: "io_join ops w1 y z = Some (u, w2)" "sets w2 (?M(y := None, z := None, u \<mapsto> ys @ zs))"
    by blast
  have "?M(y := None, z := None, u \<mapsto> ys @ zs) = (M(x := None))(u \<mapsto> xs)"
    using 1(2-5) by (auto simp: fun_eq_iff)
  with 1 2 show ?thesis by auto
qed

end

end
