(* ===== verification/Ptr_Tree.thy ===== *)
theory Ptr_Tree
  imports Prelude
begin

text \<open>
  Binary trees with parent pointers in an explicit store. The AVL tree and the red-black tree of
  \<open>ds/winblad_catree\<close> and the splay tree of \<open>gsat/ds/splay_tree\<close> are all built from nodes that
  hold a key, a value, the pointers left, right and parent, and at most one more field. This
  theory holds that store, the accessors through which the models read and write fields (each
  fails on a null or freed address), and the assertions by which the proofs describe a store:
  a functional tree annotated with addresses, a context (the path from a subtree up to the
  root), and the predicate \<open>zipper\<close> that says a tree object holds exactly a context around a
  subtree while the rest of the store is unchanged.
\<close>

section \<open>The store\<close>

text \<open>
  A node; \<open>ntag\<close> is the extra field of the particular tree (balance, colour or nothing). The
  memory has the nodes, the \<open>root\<close> field of every tree object, and the next fresh address: an
  allocation returns an address that was never in use before.
\<close>

record 'b pnode =
  nkey :: key
  nval :: val
  nleft :: addr
  nright :: addr
  nparent :: addr
  ntag :: 'b

record 'b mem =
  hp :: "addr \<Rightarrow> 'b pnode option"
  roots :: "addr \<Rightarrow> addr option"
  brk :: addr

definition empty_mem :: "'b mem" where
  "empty_mem = \<lparr>hp = \<lambda>_. None, roots = \<lambda>_. None, brk = 1\<rparr>"

definition deref :: "('b, 'z) mem_scheme \<Rightarrow> addr \<Rightarrow> 'b pnode option" where
  [heap_defs]: "deref s p = (if p = NULL then None else hp s p)"

definition modify :: "('b, 'z) mem_scheme \<Rightarrow> addr \<Rightarrow> ('b pnode \<Rightarrow> 'b pnode)
    \<Rightarrow> ('b, 'z) mem_scheme option" where
  [heap_defs]: "modify s p f = map_option (\<lambda>n. s\<lparr>hp := (hp s)(p \<mapsto> f n)\<rparr>) (deref s p)"

definition get_key :: "('b, 'z) mem_scheme \<Rightarrow> addr \<Rightarrow> key option" where
  [heap_defs]: "get_key s p = map_option nkey (deref s p)"

definition get_val :: "('b, 'z) mem_scheme \<Rightarrow> addr \<Rightarrow> val option" where
  [heap_defs]: "get_val s p = map_option nval (deref s p)"

definition get_left :: "('b, 'z) mem_scheme \<Rightarrow> addr \<Rightarrow> addr option" where
  [heap_defs]: "get_left s p = map_option nleft (deref s p)"

definition get_right :: "('b, 'z) mem_scheme \<Rightarrow> addr \<Rightarrow> addr option" where
  [heap_defs]: "get_right s p = map_option nright (deref s p)"

definition get_parent :: "('b, 'z) mem_scheme \<Rightarrow> addr \<Rightarrow> addr option" where
  [heap_defs]: "get_parent s p = map_option nparent (deref s p)"

definition get_tag :: "('b, 'z) mem_scheme \<Rightarrow> addr \<Rightarrow> 'b option" where
  [heap_defs]: "get_tag s p = map_option ntag (deref s p)"

definition set_key :: "('b, 'z) mem_scheme \<Rightarrow> addr \<Rightarrow> key \<Rightarrow> ('b, 'z) mem_scheme option" where
  [heap_defs]: "set_key s p x = modify s p (\<lambda>n. n\<lparr>nkey := x\<rparr>)"

definition set_val :: "('b, 'z) mem_scheme \<Rightarrow> addr \<Rightarrow> val \<Rightarrow> ('b, 'z) mem_scheme option" where
  [heap_defs]: "set_val s p x = modify s p (\<lambda>n. n\<lparr>nval := x\<rparr>)"

definition set_left :: "('b, 'z) mem_scheme \<Rightarrow> addr \<Rightarrow> addr \<Rightarrow> ('b, 'z) mem_scheme option" where
  [heap_defs]: "set_left s p x = modify s p (\<lambda>n. n\<lparr>nleft := x\<rparr>)"

definition set_right :: "('b, 'z) mem_scheme \<Rightarrow> addr \<Rightarrow> addr \<Rightarrow> ('b, 'z) mem_scheme option" where
  [heap_defs]: "set_right s p x = modify s p (\<lambda>n. n\<lparr>nright := x\<rparr>)"

definition set_parent :: "('b, 'z) mem_scheme \<Rightarrow> addr \<Rightarrow> addr \<Rightarrow> ('b, 'z) mem_scheme option" where
  [heap_defs]: "set_parent s p x = modify s p (\<lambda>n. n\<lparr>nparent := x\<rparr>)"

definition set_tag :: "('b, 'z) mem_scheme \<Rightarrow> addr \<Rightarrow> 'b \<Rightarrow> ('b, 'z) mem_scheme option" where
  [heap_defs]: "set_tag s p x = modify s p (\<lambda>n. n\<lparr>ntag := x\<rparr>)"

definition get_root :: "('b, 'z) mem_scheme \<Rightarrow> addr \<Rightarrow> addr option" where
  [heap_defs]: "get_root s this = roots s this"

definition set_root :: "('b, 'z) mem_scheme \<Rightarrow> addr \<Rightarrow> addr \<Rightarrow> ('b, 'z) mem_scheme option" where
  [heap_defs]: "set_root s this x =
     map_option (\<lambda>_. s\<lparr>roots := (roots s)(this \<mapsto> x)\<rparr>) (roots s this)"

text \<open>\<open>new Node(...)\<close>, \<open>delete node\<close> and \<open>new Tree()\<close> (an object whose root is null).\<close>

definition new_node :: "('b, 'z) mem_scheme \<Rightarrow> 'b pnode \<Rightarrow> addr \<times> ('b, 'z) mem_scheme" where
  [heap_defs]: "new_node s n = (brk s, s\<lparr>hp := (hp s)(brk s \<mapsto> n), brk := brk s + 1\<rparr>)"

definition delete_node :: "('b, 'z) mem_scheme \<Rightarrow> addr \<Rightarrow> ('b, 'z) mem_scheme option" where
  [heap_defs]: "delete_node s p = map_option (\<lambda>_. s\<lparr>hp := (hp s)(p := None)\<rparr>) (deref s p)"

definition new_tree :: "('b, 'z) mem_scheme \<Rightarrow> addr \<times> ('b, 'z) mem_scheme" where
  [heap_defs]: "new_tree s = (brk s, s\<lparr>roots := (roots s)(brk s \<mapsto> NULL), brk := brk s + 1\<rparr>)"

section \<open>Trees annotated with addresses\<close>

datatype 'b ptree = Lf | Nd "'b ptree" addr key val 'b "'b ptree"

fun ptr :: "'b ptree \<Rightarrow> addr" where
  "ptr Lf = NULL"
| "ptr (Nd l a k v b r) = a"

fun addrs :: "'b ptree \<Rightarrow> addr list" where
  "addrs Lf = []"
| "addrs (Nd l a k v b r) = addrs l @ a # addrs r"

fun kvs :: "'b ptree \<Rightarrow> kv_list" where
  "kvs Lf = []"
| "kvs (Nd l a k v b r) = kvs l @ (k, v) # kvs r"

fun height :: "'b ptree \<Rightarrow> nat" where
  "height Lf = 0"
| "height (Nd l a k v b r) = Suc (max (height l) (height r))"

text \<open>\<open>tree h p t\<close>: the store \<open>h\<close> has the nodes of \<open>t\<close>, whose topmost parent pointer is \<open>p\<close>.\<close>

fun tree :: "(addr \<Rightarrow> 'b pnode option) \<Rightarrow> addr \<Rightarrow> 'b ptree \<Rightarrow> bool" where
  "tree h p Lf = True"
| "tree h p (Nd l a k v b r) = (a \<noteq> NULL \<and>
     h a = Some \<lparr>nkey = k, nval = v, nleft = ptr l, nright = ptr r, nparent = p, ntag = b\<rparr> \<and>
     tree h a l \<and> tree h a r)"

section \<open>Contexts\<close>

text \<open>
  A frame is a node whose left (\<open>FL\<close>) or right (\<open>FR\<close>) subtree is the hole; a context is the
  list of frames from the hole up to the root.
\<close>

datatype 'b frame = FL addr key val 'b "'b ptree" | FR "'b ptree" addr key val 'b

type_synonym 'b ctx = "'b frame list"

fun frame_addr :: "'b frame \<Rightarrow> addr" where
  "frame_addr (FL a k v b r) = a"
| "frame_addr (FR l a k v b) = a"

fun fill :: "'b frame \<Rightarrow> 'b ptree \<Rightarrow> 'b ptree" where
  "fill (FL a k v b r) t = Nd t a k v b r"
| "fill (FR l a k v b) t = Nd l a k v b t"

fun plug :: "'b ctx \<Rightarrow> 'b ptree \<Rightarrow> 'b ptree" where
  "plug [] t = t"
| "plug (f # c) t = plug c (fill f t)"

fun cpar :: "'b ctx \<Rightarrow> addr" where
  "cpar [] = NULL"
| "cpar (f # c) = frame_addr f"

fun croot :: "addr \<Rightarrow> 'b ctx \<Rightarrow> addr" where
  "croot p [] = p"
| "croot p (f # c) = croot (frame_addr f) c"

fun caddrs :: "'b ctx \<Rightarrow> addr list" where
  "caddrs [] = []"
| "caddrs (FL a k v b r # c) = a # addrs r @ caddrs c"
| "caddrs (FR l a k v b # c) = a # addrs l @ caddrs c"

fun cleft :: "'b ctx \<Rightarrow> kv_list" where
  "cleft [] = []"
| "cleft (FL a k v b r # c) = cleft c"
| "cleft (FR l a k v b # c) = cleft c @ kvs l @ [(k, v)]"

fun cright :: "'b ctx \<Rightarrow> kv_list" where
  "cright [] = []"
| "cright (FL a k v b r # c) = (k, v) # kvs r @ cright c"
| "cright (FR l a k v b # c) = cright c"

fun ctree :: "(addr \<Rightarrow> 'b pnode option) \<Rightarrow> addr \<Rightarrow> 'b ctx \<Rightarrow> bool" where
  "ctree h p [] = True"
| "ctree h p (FL a k v b r # c) = (a \<noteq> NULL \<and>
     h a = Some \<lparr>nkey = k, nval = v, nleft = p, nright = ptr r, nparent = cpar c, ntag = b\<rparr> \<and>
     tree h a r \<and> ctree h a c)"
| "ctree h p (FR l a k v b # c) = (a \<noteq> NULL \<and>
     h a = Some \<lparr>nkey = k, nval = v, nleft = ptr l, nright = p, nparent = cpar c, ntag = b\<rparr> \<and>
     tree h a l \<and> ctree h a c)"

lemmas ctx_cases = caddrs.cases

lemma length_addrs: "length (addrs t) = length (kvs t)"
  by (induction t) auto

lemma tree_upd [simp]: "a \<notin> set (addrs t) \<Longrightarrow> tree (h(a := x)) p t = tree h p t"
  by (induction t arbitrary: p) auto

lemma ctree_upd [simp]: "a \<notin> set (caddrs c) \<Longrightarrow> ctree (h(a := x)) p c = ctree h p c"
  by (induction h p c rule: ctree.induct) auto

lemma tree_cong: "(\<And>a. a \<in> set (addrs t) \<Longrightarrow> h a = h' a) \<Longrightarrow> tree h p t = tree h' p t"
  by (induction t arbitrary: p) auto

lemma ptr_neq [simp]:
  "a \<noteq> NULL \<Longrightarrow> a \<notin> set (addrs t) \<Longrightarrow> ptr t \<noteq> a"
  "a \<noteq> NULL \<Longrightarrow> a \<notin> set (addrs t) \<Longrightarrow> a \<noteq> ptr t"
  by (cases t; auto)+

lemma cpar_neq [simp]: "a \<noteq> NULL \<Longrightarrow> a \<notin> set (caddrs c) \<Longrightarrow> cpar c \<noteq> a"
  by (cases c rule: ctx_cases) auto

lemma ptr_NULL_iff: "tree h p t \<Longrightarrow> ptr t = NULL \<longleftrightarrow> t = Lf"
  by (cases t) auto

lemma tree_in_dom: "tree h p t \<Longrightarrow> a \<in> set (addrs t) \<Longrightarrow> h a \<noteq> None"
  by (induction t arbitrary: p) auto

lemma kvs_plug [simp]: "kvs (plug c t) = cleft c @ kvs t @ cright c"
proof (induction c arbitrary: t)
  case (Cons f c)
  then show ?case by (cases f) auto
qed simp

lemma kvs_Nil_iff [simp]: "kvs t = [] \<longleftrightarrow> t = Lf"
  by (cases t) auto

lemma set_addrs_plug: "set (addrs (plug c t)) = set (addrs t) \<union> set (caddrs c)"
  by (induction c arbitrary: t rule: caddrs.induct) auto

lemma plug_append: "plug (c @ d) t = plug d (plug c t)"
  by (induction c arbitrary: t) auto

section \<open>Ownership\<close>

text \<open>
  \<open>owns h n F A\<close>: in the store \<open>h\<close> the addresses \<open>A\<close> are apart from \<open>F\<close>, and the store is \<open>F\<close>
  everywhere else; every live address is below the next fresh address \<open>n\<close>. The second
  predicate says the same of the addresses of the tree objects.
\<close>

definition owns :: "(addr \<Rightarrow> 'b pnode option) \<Rightarrow> addr \<Rightarrow> (addr \<Rightarrow> 'b pnode option)
    \<Rightarrow> addr set \<Rightarrow> bool" where
  "owns h n F A \<longleftrightarrow>
     (\<forall>a. a \<notin> A \<longrightarrow> h a = F a) \<and>
     (\<forall>a \<in> A. F a = None \<and> a \<noteq> NULL \<and> a < n) \<and>
     (\<forall>a. F a \<noteq> None \<longrightarrow> a \<noteq> NULL \<and> a < n)"

definition objs_below :: "(addr \<Rightarrow> addr option) \<Rightarrow> addr \<Rightarrow> addr \<Rightarrow> bool" where
  "objs_below R this n \<longleftrightarrow>
     NULL < n \<and> this \<noteq> NULL \<and> this < n \<and> (\<forall>a. R a \<noteq> None \<longrightarrow> a \<noteq> NULL \<and> a < n)"

lemma ownsD:
  assumes "owns h n F A"
  shows "a \<notin> A \<Longrightarrow> h a = F a" "a \<in> A \<Longrightarrow> F a = None \<and> a \<noteq> NULL \<and> a < n"
    "F a \<noteq> None \<Longrightarrow> a \<noteq> NULL \<and> a < n"
  using assms unfolding owns_def by blast+

lemma owns_mono: "owns h n F A \<Longrightarrow> n \<le> n' \<Longrightarrow> owns h n' F A"
  unfolding owns_def by (auto intro: order_less_le_trans)

lemma owns_upd [simp]: "a \<in> A \<Longrightarrow> owns (h(a := x)) n F A = owns h n F A"
  by (auto simp: owns_def)

lemma owns_delete [simp]: "a \<notin> A \<Longrightarrow> owns h n F (insert a A) \<Longrightarrow> owns (h(a := None)) n F A"
  by (auto simp: owns_def)

text \<open>
  \<open>zipper s this F R c t\<close>: the tree object \<open>this\<close> holds the tree \<open>plug c t\<close>, its nodes are at
  pairwise different addresses, the rest of the store is \<open>F\<close>, and the other tree objects have
  the roots \<open>R\<close>. The case of the empty context, \<open>holds\<close>, describes a whole tree.
\<close>

definition zipper :: "('b, 'z) mem_scheme \<Rightarrow> addr \<Rightarrow> (addr \<Rightarrow> 'b pnode option)
    \<Rightarrow> (addr \<Rightarrow> addr option) \<Rightarrow> 'b ctx \<Rightarrow> 'b ptree \<Rightarrow> bool" where
  "zipper s this F R c t \<longleftrightarrow>
     roots s = R(this \<mapsto> croot (ptr t) c) \<and>
     tree (hp s) (cpar c) t \<and> ctree (hp s) (ptr t) c \<and>
     distinct (addrs t @ caddrs c) \<and>
     owns (hp s) (brk s) F (set (addrs t @ caddrs c)) \<and> objs_below R this (brk s)"

abbreviation holds :: "('b, 'z) mem_scheme \<Rightarrow> addr \<Rightarrow> (addr \<Rightarrow> 'b pnode option)
    \<Rightarrow> (addr \<Rightarrow> addr option) \<Rightarrow> 'b ptree \<Rightarrow> bool" where
  "holds s this F R t \<equiv> zipper s this F R [] t"

lemmas zipper_defs = zipper_def owns_def objs_below_def

lemma zipper_FL: "zipper s this F R (FL a k v b r # c) t = zipper s this F R c (Nd t a k v b r)"
  unfolding zipper_def by (auto simp: Un_ac insert_commute)

lemma zipper_FR: "zipper s this F R (FR l a k v b # c) t = zipper s this F R c (Nd l a k v b t)"
  unfolding zipper_def by (auto simp: Un_ac insert_commute)

lemma zipper_fill: "zipper s this F R (f # c) t = zipper s this F R c (fill f t)"
  by (cases f) (simp_all add: zipper_FL zipper_FR)

lemma zipper_append: "zipper s this F R (d @ c) t = zipper s this F R c (plug d t)"
  by (induction d arbitrary: t) (simp_all add: zipper_fill)

lemma zipper_plug: "zipper s this F R c t = holds s this F R (plug c t)"
  using zipper_append [of s this F R c "[]" t] by simp

lemma zipper_root: "zipper s this F R c t \<Longrightarrow> roots s this = Some (croot (ptr t) c)"
  by (simp add: zipper_def)

lemma zipper_deref:
  assumes "zipper s this F R c (Nd l a k v b r)"
  shows "a \<noteq> NULL"
    and "hp s a = Some \<lparr>nkey = k, nval = v, nleft = ptr l, nright = ptr r, nparent = cpar c, ntag = b\<rparr>"
  using assms by (simp_all add: zipper_def)

lemma zipper_ptr_NULL: "zipper s this F R c t \<Longrightarrow> ptr t = NULL \<longleftrightarrow> t = Lf"
  by (auto simp: zipper_def ptr_NULL_iff)

lemma zipper_cpar_NULL: "zipper s this F R c t \<Longrightarrow> cpar c = NULL \<longleftrightarrow> c = []"
  by (cases c rule: ctx_cases) (auto simp: zipper_def)

lemma zipper_get:
  assumes "zipper s this F R c (Nd l a k v b r)"
  shows "get_key s a = Some k" "get_val s a = Some v" "get_left s a = Some (ptr l)"
    "get_right s a = Some (ptr r)" "get_parent s a = Some (cpar c)" "get_tag s a = Some b"
    "a \<noteq> NULL"
  using zipper_deref [OF assms] by (simp_all add: heap_defs)

lemma zipper_get_root: "zipper s this F R c t \<Longrightarrow> get_root s this = Some (croot (ptr t) c)"
  by (simp add: zipper_def heap_defs)

lemma zipper_brk:
  assumes "zipper s this F R c t"
  shows "brk s \<noteq> NULL" "hp s (brk s) = None" "roots s (brk s) = None"
  using assms unfolding zipper_defs
  by (metis less_irrefl, metis less_irrefl, metis fun_upd_other less_irrefl)

section \<open>Searching\<close>

text \<open>
  \<open>locate k c t\<close>: where the usual search for \<open>k\<close> ends that starts at \<open>t\<close> in context \<open>c\<close>. \<open>dir_ok\<close>
  relates a flag that remembers the last direction taken (initially true) to the innermost frame.
\<close>

fun locate :: "key \<Rightarrow> 'b ctx \<Rightarrow> 'b ptree \<Rightarrow> 'b ctx \<times> 'b ptree" where
  "locate k c Lf = (c, Lf)"
| "locate k c (Nd l a k' v b r) =
     (if k < k' then locate k (FL a k' v b r # c) l
      else if k > k' then locate k (FR l a k' v b # c) r
      else (c, Nd l a k' v b r))"

fun dir_ok :: "bool \<Rightarrow> 'b ctx \<Rightarrow> bool" where
  "dir_ok d [] = d"
| "dir_ok d (FL a k v b r # c) = d"
| "dir_ok d (FR l a k v b # c) = (\<not> d)"

lemma locate_plug: "locate k c t = (c', t') \<Longrightarrow> plug c' t' = plug c t"
  by (induction k c t rule: locate.induct) (auto split: if_splits)

lemma locate_zipper:
  "locate k c t = (c', t') \<Longrightarrow> zipper s this F R c t \<Longrightarrow> zipper s this F R c' t'"
  using locate_plug [of k c t c' t'] by (metis zipper_plug)

lemma locate_end: "locate k c t = (c', t') \<Longrightarrow> t' = Lf \<or> (\<exists>l a v b r. t' = Nd l a k v b r)"
  by (induction k c t rule: locate.induct) (auto split: if_splits)

lemma locate_bounds:
  assumes "locate k c t = (c', t')" "sorted_kvs (kvs t)" "all_less (cleft c) k" "all_greater k (cright c)"
  shows "all_less (cleft c') k \<and> all_greater k (cright c')"
  using assms
proof (induction k c t rule: locate.induct)
  case (2 k c l a k' v b r)
  then show ?case
    by (auto simp: kv_simps all_less_trans all_greater_trans split: if_splits)
qed auto

lemma locate_lookup:
  assumes "locate k [] t = (c, u)" "sorted_kvs (kvs t)"
  shows "lookup_kv (kvs t) k = (case u of Lf \<Rightarrow> NO_VALUE | Nd l a k' v b r \<Rightarrow> v)"
proof -
  have t: "kvs t = cleft c @ kvs u @ cright c"
    using locate_plug [OF assms(1)] by (simp flip: kvs_plug)
  have b: "all_less (cleft c) k" "all_greater k (cright c)"
    using locate_bounds [OF assms] by simp_all
  from locate_end [OF assms(1)] assms(2) t b show ?thesis
    by (auto simp: kv_simps)
qed

end
