(* ===== verification/AVL_Tree.thy ===== *)
theory AVL_Tree
  imports Ptr_Tree
begin

text \<open>
  The sequential AVL tree of \<open>src/cpp/ds/winblad_catree/avl_tree.h\<close> (class \<open>AVLTree\<close>), operation
  by operation. The argument \<open>this\<close> is the address of the tree object, whose only mutable field
  is \<open>root\<close>; the fields of a node are those of the shared store, with \<open>balance\<close> as the tag.
  A while loop is a \<^theory_text>\<open>partial_function\<close> whose arguments are the local
  variables the loop changes. The \<open>tid\<close> parameters are unused in the source and left out.
\<close>

section \<open>Fields\<close>

type_synonym avl_mem = "int mem"
type_synonym avl_ptree = "int ptree"

abbreviation get_balance :: "avl_mem \<Rightarrow> addr \<Rightarrow> int option" where
  "get_balance \<equiv> get_tag"

abbreviation set_balance :: "avl_mem \<Rightarrow> addr \<Rightarrow> int \<Rightarrow> avl_mem option" where
  "set_balance \<equiv> set_tag"

definition INVALID_KEY :: key where
  "INVALID_KEY = 0"

text \<open>The constructor \<open>Node(key, val, parent, left, right)\<close>: the balance starts at 0.\<close>

definition avl_Node :: "key \<Rightarrow> val \<Rightarrow> addr \<Rightarrow> addr \<Rightarrow> addr \<Rightarrow> int pnode" where
  "avl_Node k v p l r = \<lparr>nkey = k, nval = v, nleft = l, nright = r, nparent = p, ntag = 0\<rparr>"

definition AVLTree :: "avl_mem \<Rightarrow> addr \<times> avl_mem" where
  "AVLTree s = new_tree s"

section \<open>Traversals\<close>

partial_function (option) computeHeight_loop :: "avl_mem \<Rightarrow> addr \<Rightarrow> int \<Rightarrow> int option" where
  "computeHeight_loop s currentNode heightSoFar = do {
     l \<leftarrow> get_left s currentNode;
     r \<leftarrow> get_right s currentNode;
     if l \<noteq> NULL \<or> r \<noteq> NULL then do {
       b \<leftarrow> get_balance s currentNode;
       if b = -1 then computeHeight_loop s l (heightSoFar + 1)
       else computeHeight_loop s r (heightSoFar + 1)
     } else Some heightSoFar
   }"

definition computeHeight :: "avl_mem \<Rightarrow> addr \<Rightarrow> int option" where
  "computeHeight s this = do {
     root \<leftarrow> get_root s this;
     if root = NULL then Some 0 else computeHeight_loop s root 1
   }"

partial_function (option) leftmost :: "('b, 'z) mem_scheme \<Rightarrow> addr \<Rightarrow> addr option" where
  "leftmost s currentNode = do {
     l \<leftarrow> get_left s currentNode;
     if l \<noteq> NULL then leftmost s l else Some currentNode
   }"

partial_function (option) rightmost :: "('b, 'z) mem_scheme \<Rightarrow> addr \<Rightarrow> addr option" where
  "rightmost s currentNode = do {
     r \<leftarrow> get_right s currentNode;
     if r \<noteq> NULL then rightmost s r else Some currentNode
   }"

definition minKey :: "avl_mem \<Rightarrow> addr \<Rightarrow> (key \<times> val) option" where
  "minKey s this = do {
     root \<leftarrow> get_root s this;
     currentNode \<leftarrow> leftmost s root;
     if currentNode = NULL then Some (INVALID_KEY, NO_VALUE)
     else do {
       k \<leftarrow> get_key s currentNode;
       v \<leftarrow> get_val s currentNode;
       Some (k, v)
     }
   }"

definition maxKey :: "avl_mem \<Rightarrow> addr \<Rightarrow> (key \<times> val) option" where
  "maxKey s this = do {
     root \<leftarrow> get_root s this;
     currentNode \<leftarrow> rightmost s root;
     if currentNode = NULL then Some (INVALID_KEY, NO_VALUE)
     else do {
       k \<leftarrow> get_key s currentNode;
       v \<leftarrow> get_val s currentNode;
       Some (k, v)
     }
   }"

partial_function (option) getAVLNode_loop :: "('b, 'z) mem_scheme \<Rightarrow> key \<Rightarrow> addr \<Rightarrow> addr option" where
  "getAVLNode_loop s key currentNode =
     (if currentNode = NULL then Some NULL
      else do {
        nodeKey \<leftarrow> get_key s currentNode;
        if key < nodeKey then do {
          l \<leftarrow> get_left s currentNode;
          getAVLNode_loop s key l
        }
        else if key > nodeKey then do {
          r \<leftarrow> get_right s currentNode;
          getAVLNode_loop s key r
        }
        else Some currentNode
      })"

definition getAVLNode :: "avl_mem \<Rightarrow> addr \<Rightarrow> key \<Rightarrow> addr option" where
  "getAVLNode s this key = do {
     root \<leftarrow> get_root s this;
     getAVLNode_loop s key root
   }"

definition avl_find :: "avl_mem \<Rightarrow> addr \<Rightarrow> key \<Rightarrow> val option" where
  "avl_find s this key = do {
     node \<leftarrow> getAVLNode s this key;
     if node = NULL then Some NO_VALUE else get_val s node
   }"

section \<open>Rotations\<close>

text \<open>
  The six rebalancing routines share one step: the link from the parent (or from the tree
  object) to \<open>old\<close> is redirected to \<open>new\<close>.
\<close>

definition relink :: "('b, 'z) mem_scheme \<Rightarrow> addr \<Rightarrow> addr \<Rightarrow> addr \<Rightarrow> addr
    \<Rightarrow> ('b, 'z) mem_scheme option" where
  "relink s this parentNode old new =
     (if parentNode = NULL then set_root s this new
      else do {
        l \<leftarrow> get_left s parentNode;
        if l = old then set_left s parentNode new
        else set_right s parentNode new
      })"

text \<open>\<open>if (child != NULL) child->parent = p\<close>\<close>

definition adopt :: "('b, 'z) mem_scheme \<Rightarrow> addr \<Rightarrow> addr \<Rightarrow> ('b, 'z) mem_scheme option" where
  "adopt s child p = (if child \<noteq> NULL then set_parent s child p else Some s)"

definition rotateLeft :: "avl_mem \<Rightarrow> addr \<Rightarrow> addr \<Rightarrow> avl_mem option" where
  "rotateLeft s this prevNode = do {
     leftChild \<leftarrow> get_left s prevNode;
     prevNodeParent \<leftarrow> get_parent s prevNode;
     lr \<leftarrow> get_right s leftChild;
     s \<leftarrow> set_left s prevNode lr;
     s \<leftarrow> adopt s lr prevNode;
     s \<leftarrow> set_right s leftChild prevNode;
     s \<leftarrow> set_parent s prevNode leftChild;
     s \<leftarrow> set_balance s prevNode 0;
     s \<leftarrow> relink s this prevNodeParent prevNode leftChild;
     s \<leftarrow> set_parent s leftChild prevNodeParent;
     set_balance s leftChild 0
   }"

definition rotateRight :: "avl_mem \<Rightarrow> addr \<Rightarrow> addr \<Rightarrow> avl_mem option" where
  "rotateRight s this prevNode = do {
     rightChild \<leftarrow> get_right s prevNode;
     prevNodeParent \<leftarrow> get_parent s prevNode;
     rl \<leftarrow> get_left s rightChild;
     s \<leftarrow> set_right s prevNode rl;
     s \<leftarrow> adopt s rl prevNode;
     s \<leftarrow> set_left s rightChild prevNode;
     s \<leftarrow> set_parent s prevNode rightChild;
     s \<leftarrow> set_balance s prevNode 0;
     s \<leftarrow> relink s this prevNodeParent prevNode rightChild;
     s \<leftarrow> set_parent s rightChild prevNodeParent;
     set_balance s rightChild 0
   }"

definition rotateDoubleRight :: "avl_mem \<Rightarrow> addr \<Rightarrow> addr \<Rightarrow> avl_mem option" where
  "rotateDoubleRight s this prevNode = do {
     prevNodeParent \<leftarrow> get_parent s prevNode;
     leftChild \<leftarrow> get_left s prevNode;
     leftChildRightChild \<leftarrow> get_right s leftChild;
     l \<leftarrow> get_left s leftChildRightChild;
     s \<leftarrow> set_right s leftChild l;
     s \<leftarrow> adopt s l leftChild;
     s \<leftarrow> set_left s leftChildRightChild leftChild;
     s \<leftarrow> set_parent s leftChild leftChildRightChild;
     r \<leftarrow> get_right s leftChildRightChild;
     s \<leftarrow> set_left s prevNode r;
     s \<leftarrow> adopt s r prevNode;
     s \<leftarrow> set_right s leftChildRightChild prevNode;
     s \<leftarrow> set_parent s prevNode leftChildRightChild;
     b \<leftarrow> get_balance s leftChildRightChild;
     s \<leftarrow> set_balance s prevNode (if b = -1 then 1 else 0);
     s \<leftarrow> set_balance s leftChild (if b = 1 then -1 else 0);
     s \<leftarrow> relink s this prevNodeParent prevNode leftChildRightChild;
     s \<leftarrow> set_parent s leftChildRightChild prevNodeParent;
     set_balance s leftChildRightChild 0
   }"

definition rotateDoubleLeft :: "avl_mem \<Rightarrow> addr \<Rightarrow> addr \<Rightarrow> avl_mem option" where
  "rotateDoubleLeft s this prevNode = do {
     prevNodeParent \<leftarrow> get_parent s prevNode;
     rightChild \<leftarrow> get_right s prevNode;
     rightChildLeftChild \<leftarrow> get_left s rightChild;
     r \<leftarrow> get_right s rightChildLeftChild;
     s \<leftarrow> set_left s rightChild r;
     s \<leftarrow> adopt s r rightChild;
     s \<leftarrow> set_right s rightChildLeftChild rightChild;
     s \<leftarrow> set_parent s rightChild rightChildLeftChild;
     l \<leftarrow> get_left s rightChildLeftChild;
     s \<leftarrow> set_right s prevNode l;
     s \<leftarrow> adopt s l prevNode;
     s \<leftarrow> set_left s rightChildLeftChild prevNode;
     s \<leftarrow> set_parent s prevNode rightChildLeftChild;
     b \<leftarrow> get_balance s rightChildLeftChild;
     s \<leftarrow> set_balance s prevNode (if b = 1 then -1 else 0);
     s \<leftarrow> set_balance s rightChild (if b = -1 then 1 else 0);
     s \<leftarrow> relink s this prevNodeParent prevNode rightChildLeftChild;
     s \<leftarrow> set_parent s rightChildLeftChild prevNodeParent;
     set_balance s rightChildLeftChild 0
   }"

section \<open>Rebalancing after a removal\<close>

text \<open>The result tells whether the height of the subtree went down.\<close>

definition deleteBalanceLeft :: "avl_mem \<Rightarrow> addr \<Rightarrow> addr \<Rightarrow> (bool \<times> avl_mem) option" where
  "deleteBalanceLeft s this currentNode = do {
     balance \<leftarrow> get_balance s currentNode;
     if balance = -1 then do {
       s \<leftarrow> set_balance s currentNode 0;
       Some (True, s)
     }
     else if balance = 0 then do {
       s \<leftarrow> set_balance s currentNode 1;
       Some (False, s)
     }
     else do {
       currentNodeParent \<leftarrow> get_parent s currentNode;
       rightChild \<leftarrow> get_right s currentNode;
       rightChildBalance \<leftarrow> get_balance s rightChild;
       if rightChildBalance \<ge> 0 then do {
         s \<leftarrow> rotateRight s this currentNode;
         if rightChildBalance = 0 then do {
           s \<leftarrow> set_balance s currentNode 1;
           s \<leftarrow> set_balance s rightChild (-1);
           Some (False, s)
         }
         else Some (True, s)
       }
       else do {
         rightChildLeftChild \<leftarrow> get_left s rightChild;
         rightChildLeftChildBalance \<leftarrow> get_balance s rightChildLeftChild;
         r \<leftarrow> get_right s rightChildLeftChild;
         s \<leftarrow> set_left s rightChild r;
         s \<leftarrow> adopt s r rightChild;
         s \<leftarrow> set_right s rightChildLeftChild rightChild;
         s \<leftarrow> set_parent s rightChild rightChildLeftChild;
         l \<leftarrow> get_left s rightChildLeftChild;
         s \<leftarrow> set_right s currentNode l;
         s \<leftarrow> adopt s l currentNode;
         s \<leftarrow> set_left s rightChildLeftChild currentNode;
         s \<leftarrow> set_parent s currentNode rightChildLeftChild;
         s \<leftarrow> set_balance s currentNode (if rightChildLeftChildBalance = 1 then -1 else 0);
         s \<leftarrow> set_balance s rightChild (if rightChildLeftChildBalance = -1 then 1 else 0);
         s \<leftarrow> set_balance s rightChildLeftChild 0;
         s \<leftarrow> relink s this currentNodeParent currentNode rightChildLeftChild;
         s \<leftarrow> set_parent s rightChildLeftChild currentNodeParent;
         Some (True, s)
       }
     }
   }"

definition deleteBalanceRight :: "avl_mem \<Rightarrow> addr \<Rightarrow> addr \<Rightarrow> (bool \<times> avl_mem) option" where
  "deleteBalanceRight s this currentNode = do {
     balance \<leftarrow> get_balance s currentNode;
     if balance = 1 then do {
       s \<leftarrow> set_balance s currentNode 0;
       Some (True, s)
     }
     else if balance = 0 then do {
       s \<leftarrow> set_balance s currentNode (-1);
       Some (False, s)
     }
     else do {
       currentNodeParent \<leftarrow> get_parent s currentNode;
       leftChild \<leftarrow> get_left s currentNode;
       leftChildBalance \<leftarrow> get_balance s leftChild;
       if leftChildBalance \<le> 0 then do {
         s \<leftarrow> rotateLeft s this currentNode;
         if leftChildBalance = 0 then do {
           s \<leftarrow> set_balance s currentNode (-1);
           s \<leftarrow> set_balance s leftChild 1;
           Some (False, s)
         }
         else Some (True, s)
       }
       else do {
         leftChildRightChild \<leftarrow> get_right s leftChild;
         leftChildRightChildBalance \<leftarrow> get_balance s leftChildRightChild;
         l \<leftarrow> get_left s leftChildRightChild;
         s \<leftarrow> set_right s leftChild l;
         s \<leftarrow> adopt s l leftChild;
         s \<leftarrow> set_left s leftChildRightChild leftChild;
         s \<leftarrow> set_parent s leftChild leftChildRightChild;
         r \<leftarrow> get_right s leftChildRightChild;
         s \<leftarrow> set_left s currentNode r;
         s \<leftarrow> adopt s r currentNode;
         s \<leftarrow> set_right s leftChildRightChild currentNode;
         s \<leftarrow> set_parent s currentNode leftChildRightChild;
         s \<leftarrow> set_balance s currentNode (if leftChildRightChildBalance = -1 then 1 else 0);
         s \<leftarrow> set_balance s leftChild (if leftChildRightChildBalance = 1 then -1 else 0);
         s \<leftarrow> set_balance s leftChildRightChild 0;
         s \<leftarrow> relink s this currentNodeParent currentNode leftChildRightChild;
         s \<leftarrow> set_parent s leftChildRightChild currentNodeParent;
         Some (True, s)
       }
     }
   }"

text \<open>
  \<open>replaceWithRightmost\<close>: the first loop finds the rightmost node of the left subtree and
  counts the steps, the second one rebalances as many nodes on the way back.
\<close>

partial_function (option) replace_descend :: "avl_mem \<Rightarrow> addr \<Rightarrow> int \<Rightarrow> (addr \<times> int) option" where
  "replace_descend s currentNode replacePos = do {
     r \<leftarrow> get_right s currentNode;
     if r \<noteq> NULL then replace_descend s r (replacePos + 1)
     else Some (currentNode, replacePos)
   }"

partial_function (option) replace_rebalance ::
    "avl_mem \<Rightarrow> addr \<Rightarrow> addr \<Rightarrow> int \<Rightarrow> bool \<Rightarrow> (bool \<times> avl_mem) option" where
  "replace_rebalance s this currentNode replacePos continueBalance =
     (if replacePos > 0 \<and> continueBalance then do {
        parentNode \<leftarrow> get_parent s currentNode;
        (continueBalance, s) \<leftarrow> deleteBalanceRight s this currentNode;
        replace_rebalance s this parentNode (replacePos - 1) continueBalance
      }
      else Some (continueBalance, s))"

definition replaceWithRightmost :: "avl_mem \<Rightarrow> addr \<Rightarrow> addr \<Rightarrow> (bool \<times> avl_mem) option" where
  "replaceWithRightmost s this toReplaceInNode = do {
     currentNode \<leftarrow> get_left s toReplaceInNode;
     (currentNode, replacePos) \<leftarrow> replace_descend s currentNode 0;
     k \<leftarrow> get_key s currentNode;
     s \<leftarrow> set_key s toReplaceInNode k;
     v \<leftarrow> get_val s currentNode;
     s \<leftarrow> set_val s toReplaceInNode v;
     p \<leftarrow> get_parent s currentNode;
     pr \<leftarrow> get_right s p;
     l \<leftarrow> get_left s currentNode;
     s \<leftarrow> (if pr = currentNode then set_right s p l else set_left s p l);
     s \<leftarrow> adopt s l p;
     s \<leftarrow> delete_node s currentNode;
     replace_rebalance s this p replacePos True
   }"

section \<open>Insertion\<close>

text \<open>The result of the search: the last node passed, the node found (or null), the direction.\<close>

partial_function (option) insert_search ::
    "avl_mem \<Rightarrow> key \<Rightarrow> addr \<Rightarrow> addr \<Rightarrow> bool \<Rightarrow> (addr \<times> addr \<times> bool) option" where
  "insert_search s key prevNode currentNode dirLeft =
     (if currentNode = NULL then Some (prevNode, currentNode, dirLeft)
      else do {
        nodeKey \<leftarrow> get_key s currentNode;
        if key < nodeKey then do {
          l \<leftarrow> get_left s currentNode;
          insert_search s key currentNode l True
        }
        else if key > nodeKey then do {
          r \<leftarrow> get_right s currentNode;
          insert_search s key currentNode r False
        }
        else Some (prevNode, currentNode, dirLeft)
      })"

partial_function (option) insert_rebalance :: "avl_mem \<Rightarrow> addr \<Rightarrow> addr \<Rightarrow> addr \<Rightarrow> avl_mem option" where
  "insert_rebalance s this prevNode currentNode =
     (if prevNode = NULL then Some s
      else do {
        l \<leftarrow> get_left s prevNode;
        balance \<leftarrow> get_balance s prevNode;
        if l = currentNode then
          (if balance = -1 then do {
             leftChild \<leftarrow> get_left s prevNode;
             b \<leftarrow> get_balance s leftChild;
             if b = -1 then rotateLeft s this prevNode
             else rotateDoubleRight s this prevNode
           }
           else if balance = 0 then do {
             s \<leftarrow> set_balance s prevNode (-1);
             p \<leftarrow> get_parent s prevNode;
             insert_rebalance s this p prevNode
           }
           else set_balance s prevNode 0)
        else
          (if balance = 1 then do {
             rightChild \<leftarrow> get_right s prevNode;
             b \<leftarrow> get_balance s rightChild;
             if b = 1 then rotateRight s this prevNode
             else rotateDoubleLeft s this prevNode
           }
           else if balance = 0 then do {
             s \<leftarrow> set_balance s prevNode 1;
             p \<leftarrow> get_parent s prevNode;
             insert_rebalance s this p prevNode
           }
           else set_balance s prevNode 0)
      })"

definition avl_insert :: "avl_mem \<Rightarrow> addr \<Rightarrow> key \<Rightarrow> val \<Rightarrow> (val \<times> avl_mem) option" where
  "avl_insert s this key val = do {
     root \<leftarrow> get_root s this;
     (prevNode, currentNode, dirLeft) \<leftarrow> insert_search s key NULL root True;
     if currentNode \<noteq> NULL then do {
       v \<leftarrow> get_val s currentNode;
       Some (v, s)
     }
     else do {
       let (currentNode, s) = new_node s (avl_Node key val prevNode NULL NULL);
       s \<leftarrow> (if prevNode = NULL then set_root s this currentNode
            else if dirLeft then set_left s prevNode currentNode
            else set_right s prevNode currentNode);
       s \<leftarrow> insert_rebalance s this prevNode currentNode;
       Some (NO_VALUE, s)
     }
   }"

section \<open>Removal\<close>

text \<open>The search stops at the key or at null and remembers the direction of the last step.\<close>

partial_function (option) erase_search :: "avl_mem \<Rightarrow> key \<Rightarrow> addr \<Rightarrow> bool \<Rightarrow> (addr \<times> bool) option" where
  "erase_search s key currentNode dirLeft =
     (if currentNode = NULL then Some (currentNode, dirLeft)
      else do {
        nodeKey \<leftarrow> get_key s currentNode;
        if key < nodeKey then do {
          l \<leftarrow> get_left s currentNode;
          erase_search s key l True
        }
        else if key > nodeKey then do {
          r \<leftarrow> get_right s currentNode;
          erase_search s key r False
        }
        else Some (currentNode, dirLeft)
      })"

text \<open>The link to a removed node with at most one child is redirected to that child.\<close>

definition erase_splice :: "avl_mem \<Rightarrow> addr \<Rightarrow> addr \<Rightarrow> bool \<Rightarrow> addr \<Rightarrow> addr \<Rightarrow> avl_mem option" where
  "erase_splice s this prevNode dirLeft currentNode child = do {
     s \<leftarrow> (if prevNode = NULL then set_root s this child
          else if dirLeft then set_left s prevNode child
          else set_right s prevNode child);
     s \<leftarrow> adopt s child prevNode;
     delete_node s currentNode
   }"

text \<open>One call of \<open>deleteBalanceLeft\<close> or \<open>deleteBalanceRight\<close>, on the side that lost a node.\<close>

definition erase_balance :: "avl_mem \<Rightarrow> addr \<Rightarrow> addr \<Rightarrow> addr \<Rightarrow> bool \<Rightarrow> (bool \<times> avl_mem) option" where
  "erase_balance s this prevNode currentNode dirLeft =
     (if currentNode = NULL then
        (if dirLeft then deleteBalanceLeft s this prevNode
         else deleteBalanceRight s this prevNode)
      else do {
        l \<leftarrow> get_left s prevNode;
        if l = currentNode then deleteBalanceLeft s this prevNode
        else deleteBalanceRight s this prevNode
      })"

partial_function (option) erase_rebalance ::
    "avl_mem \<Rightarrow> addr \<Rightarrow> addr \<Rightarrow> addr \<Rightarrow> bool \<Rightarrow> bool \<Rightarrow> avl_mem option" where
  "erase_rebalance s this prevNode currentNode dirLeft continueFix =
     (if continueFix \<and> prevNode \<noteq> NULL then do {
        nextPrevNode \<leftarrow> get_parent s prevNode;
        if nextPrevNode \<noteq> NULL then do {
          npl \<leftarrow> get_left s nextPrevNode;
          let findCurrentLeftDir = (npl = prevNode);
          (continueFix, s) \<leftarrow> erase_balance s this prevNode currentNode dirLeft;
          currentNode \<leftarrow> (if findCurrentLeftDir then get_left s nextPrevNode
                         else get_right s nextPrevNode);
          erase_rebalance s this nextPrevNode currentNode dirLeft continueFix
        }
        else do {
          (continueFix, s) \<leftarrow> erase_balance s this prevNode currentNode dirLeft;
          erase_rebalance s this NULL currentNode dirLeft continueFix
        }
      }
      else Some s)"

text \<open>
  Unlinking the node that holds the key: the new values of \<open>continueFix\<close>, \<open>prevNode\<close>,
  \<open>currentNode\<close> and \<open>dirLeft\<close>.
\<close>

definition erase_unlink :: "avl_mem \<Rightarrow> addr \<Rightarrow> addr \<Rightarrow> addr \<Rightarrow> bool
    \<Rightarrow> (bool \<times> addr \<times> addr \<times> bool \<times> avl_mem) option" where
  "erase_unlink s this prevNode currentNode dirLeft = do {
     l \<leftarrow> get_left s currentNode;
     r \<leftarrow> get_right s currentNode;
     if l = NULL then do {
       s \<leftarrow> erase_splice s this prevNode dirLeft currentNode r;
       Some (True, prevNode, r, dirLeft, s)
     }
     else if r = NULL then do {
       s \<leftarrow> erase_splice s this prevNode dirLeft currentNode l;
       Some (True, prevNode, l, dirLeft, s)
     }
     else if prevNode = NULL then do {
       (continueFix, s) \<leftarrow> replaceWithRightmost s this currentNode;
       root \<leftarrow> get_root s this;
       currentNode \<leftarrow> get_left s root;
       Some (continueFix, root, currentNode, dirLeft, s)
     }
     else do {
       pl \<leftarrow> get_left s prevNode;
       if pl = currentNode then do {
         (continueFix, s) \<leftarrow> replaceWithRightmost s this currentNode;
         prevNode \<leftarrow> get_left s prevNode;
         currentNode \<leftarrow> get_left s prevNode;
         Some (continueFix, prevNode, currentNode, True, s)
       }
       else do {
         (continueFix, s) \<leftarrow> replaceWithRightmost s this currentNode;
         prevNode \<leftarrow> get_right s prevNode;
         currentNode \<leftarrow> get_left s prevNode;
         Some (continueFix, prevNode, currentNode, True, s)
       }
     }
   }"

definition avl_erase :: "avl_mem \<Rightarrow> addr \<Rightarrow> key \<Rightarrow> (val \<times> avl_mem) option" where
  "avl_erase s this key = do {
     root \<leftarrow> get_root s this;
     (currentNode, dirLeft) \<leftarrow> erase_search s key root True;
     if currentNode = NULL then Some (NO_VALUE, s)
     else do {
       retval \<leftarrow> get_val s currentNode;
       prevNode \<leftarrow> get_parent s currentNode;
       (continueFix, prevNode, currentNode, dirLeft, s) \<leftarrow>
         erase_unlink s this prevNode currentNode dirLeft;
       s \<leftarrow> erase_rebalance s this prevNode currentNode dirLeft continueFix;
       Some (retval, s)
     }
   }"

section \<open>Join and split\<close>

text \<open>
  \<open>join\<close> of two trees such that every key on the left is smaller than every key on the right.
  The taller tree is searched along its inner spine for a subtree about as high as the other
  tree; the removed extreme key of the lower tree becomes the node that links the two.
\<close>

partial_function (option) join_descend_right ::
    "avl_mem \<Rightarrow> int \<Rightarrow> addr \<Rightarrow> addr \<Rightarrow> int \<Rightarrow> (addr \<times> addr \<times> int) option" where
  "join_descend_right s newRightHeight prevNode currentNode currHeight =
     (if currHeight > newRightHeight + 1 then do {
        b \<leftarrow> get_balance s currentNode;
        r \<leftarrow> get_right s currentNode;
        join_descend_right s newRightHeight currentNode r
          (if b = -1 then currHeight - 2 else currHeight - 1)
      }
      else Some (prevNode, currentNode, currHeight))"

partial_function (option) join_descend_left ::
    "avl_mem \<Rightarrow> int \<Rightarrow> addr \<Rightarrow> addr \<Rightarrow> int \<Rightarrow> (addr \<times> addr \<times> int) option" where
  "join_descend_left s newLeftHeight prevNode currentNode currHeight =
     (if currHeight > newLeftHeight + 1 then do {
        b \<leftarrow> get_balance s currentNode;
        l \<leftarrow> get_left s currentNode;
        join_descend_left s newLeftHeight currentNode l
          (if b = 1 then currHeight - 2 else currHeight - 1)
      }
      else Some (prevNode, currentNode, currHeight))"

text \<open>
  Linking the new node below \<open>prevNode\<close> in place of \<open>currentNode\<close>, or as the root of the new
  tree; \<open>tallTree\<close> is the tree object that was searched.
\<close>

definition join_link :: "avl_mem \<Rightarrow> addr \<Rightarrow> addr \<Rightarrow> addr \<Rightarrow> addr \<Rightarrow> addr \<Rightarrow> avl_mem option" where
  "join_link s newTree tallTree prevNode currentNode newRoot =
     (if prevNode = NULL then set_root s newTree newRoot
      else do {
        pl \<leftarrow> get_left s prevNode;
        s \<leftarrow> (if pl = currentNode then set_left s prevNode newRoot
             else set_right s prevNode newRoot);
        s \<leftarrow> set_parent s newRoot prevNode;
        root \<leftarrow> get_root s tallTree;
        set_root s newTree root
      })"

definition join_left_taller :: "avl_mem \<Rightarrow> addr \<Rightarrow> addr \<Rightarrow> addr \<Rightarrow> int \<Rightarrow> (addr \<times> addr \<times> avl_mem) option" where
  "join_left_taller s leftTree rightTree newTree leftHeight = do {
     (mk, mv) \<leftarrow> minKey s rightTree;
     _ \<leftarrow> assert_that (mk \<noteq> INVALID_KEY);
     (_, s) \<leftarrow> avl_erase s rightTree mk;
     let (newRoot, s) = new_node s (avl_Node mk mv NULL NULL NULL);
     newRightHeight \<leftarrow> computeHeight s rightTree;
     root \<leftarrow> get_root s leftTree;
     (prevNode, currentNode, currHeight) \<leftarrow> join_descend_right s newRightHeight NULL root leftHeight;
     s \<leftarrow> set_left s newRoot currentNode;
     s \<leftarrow> adopt s currentNode newRoot;
     rroot \<leftarrow> get_root s rightTree;
     s \<leftarrow> set_right s newRoot rroot;
     s \<leftarrow> adopt s rroot newRoot;
     s \<leftarrow> set_balance s newRoot (newRightHeight - currHeight);
     s \<leftarrow> join_link s newTree leftTree prevNode currentNode newRoot;
     Some (prevNode, newRoot, s)
   }"

definition join_right_taller :: "avl_mem \<Rightarrow> addr \<Rightarrow> addr \<Rightarrow> addr \<Rightarrow> int \<Rightarrow> (addr \<times> addr \<times> avl_mem) option" where
  "join_right_taller s leftTree rightTree newTree rightHeight = do {
     (mk, mv) \<leftarrow> maxKey s leftTree;
     _ \<leftarrow> assert_that (mk \<noteq> INVALID_KEY);
     (_, s) \<leftarrow> avl_erase s leftTree mk;
     let (newRoot, s) = new_node s (avl_Node mk mv NULL NULL NULL);
     newLeftHeight \<leftarrow> computeHeight s leftTree;
     root \<leftarrow> get_root s rightTree;
     (prevNode, currentNode, currHeight) \<leftarrow> join_descend_left s newLeftHeight NULL root rightHeight;
     s \<leftarrow> set_right s newRoot currentNode;
     s \<leftarrow> adopt s currentNode newRoot;
     lroot \<leftarrow> get_root s leftTree;
     s \<leftarrow> set_left s newRoot lroot;
     s \<leftarrow> adopt s lroot newRoot;
     s \<leftarrow> set_balance s newRoot (currHeight - newLeftHeight);
     s \<leftarrow> join_link s newTree rightTree prevNode currentNode newRoot;
     Some (prevNode, newRoot, s)
   }"

text \<open>
  \<open>this\<close> is the left tree. The closing loop of \<open>join\<close> is, statement by statement, the loop of
  \<open>insert\<close> run on the new tree object.
\<close>

definition avl_join :: "avl_mem \<Rightarrow> addr \<Rightarrow> addr \<Rightarrow> (addr \<times> avl_mem) option" where
  "avl_join s leftTree rightTree = do {
     let (newTree, s) = AVLTree s;
     lroot \<leftarrow> get_root s leftTree;
     rroot \<leftarrow> get_root s rightTree;
     if lroot = NULL then do {
       s \<leftarrow> set_root s newTree rroot;
       s \<leftarrow> set_root s rightTree NULL;
       Some (newTree, s)
     }
     else if rroot = NULL then do {
       s \<leftarrow> set_root s newTree lroot;
       s \<leftarrow> set_root s leftTree NULL;
       Some (newTree, s)
     }
     else do {
       leftHeight \<leftarrow> computeHeight s leftTree;
       rightHeight \<leftarrow> computeHeight s rightTree;
       (prevNode, currentNode, s) \<leftarrow>
         (if leftHeight \<ge> rightHeight
          then join_left_taller s leftTree rightTree newTree leftHeight
          else join_right_taller s leftTree rightTree newTree rightHeight);
       s \<leftarrow> set_root s leftTree NULL;
       s \<leftarrow> set_root s rightTree NULL;
       s \<leftarrow> insert_rebalance s newTree prevNode currentNode;
       Some (newTree, s)
     }
   }"

text \<open>
  Taking the root apart when there are at least two nodes: the split key, the two new roots.
\<close>

definition split_root :: "avl_mem \<Rightarrow> addr \<Rightarrow> addr \<Rightarrow> addr \<Rightarrow> addr \<Rightarrow> (key \<times> addr \<times> addr \<times> avl_mem) option" where
  "split_root s this root l r =
     (if l = NULL then do {
        splitKey \<leftarrow> get_key s r;
        s \<leftarrow> set_parent s r NULL;
        s \<leftarrow> set_balance s r 0;
        s \<leftarrow> set_right s root NULL;
        s \<leftarrow> set_balance s root 0;
        Some (splitKey, root, r, s)
      }
      else do {
        splitKey \<leftarrow> get_key s root;
        splitVal \<leftarrow> get_val s root;
        s \<leftarrow> set_parent s l NULL;
        s \<leftarrow> set_left s root NULL;
        if r = NULL then do {
          s \<leftarrow> set_balance s root 0;
          Some (splitKey, l, root, s)
        }
        else do {
          s \<leftarrow> set_root s this r;
          s \<leftarrow> set_parent s r NULL;
          s \<leftarrow> delete_node s root;
          (_, s) \<leftarrow> avl_insert s this splitKey splitVal;
          rightRoot \<leftarrow> get_root s this;
          Some (splitKey, l, rightRoot, s)
        }
      })"

text \<open>\<open>None\<close> in the second and third component stands for \<open>nullptr\<close>: the tree is too small.\<close>

definition avl_split :: "avl_mem \<Rightarrow> addr \<Rightarrow> (key \<times> (addr \<times> addr) option \<times> avl_mem) option" where
  "avl_split s this = do {
     root \<leftarrow> get_root s this;
     if root = NULL then Some (INVALID_KEY, None, s)
     else do {
       l \<leftarrow> get_left s root;
       r \<leftarrow> get_right s root;
       if l = NULL \<and> r = NULL then Some (INVALID_KEY, None, s)
       else do {
         (splitKey, leftRoot, rightRoot, s) \<leftarrow> split_root s this root l r;
         let (leftTree, s) = AVLTree s;
         s \<leftarrow> set_root s leftTree leftRoot;
         let (rightTree, s) = AVLTree s;
         s \<leftarrow> set_root s rightTree rightRoot;
         s \<leftarrow> set_root s this NULL;
         Some (splitKey, Some (leftTree, rightTree), s)
       }
     }
   }"

section \<open>Remaining members\<close>

definition avl_isEmpty :: "avl_mem \<Rightarrow> addr \<Rightarrow> bool option" where
  "avl_isEmpty s this = do {
     root \<leftarrow> get_root s this;
     Some (root = NULL)
   }"

partial_function (option) freeTraversal :: "('b, 'z) mem_scheme \<Rightarrow> addr \<Rightarrow> ('b, 'z) mem_scheme option" where
  "freeTraversal s node = do {
     _ \<leftarrow> assert_that (node \<noteq> NULL);
     l \<leftarrow> get_left s node;
     s \<leftarrow> (if l \<noteq> NULL then freeTraversal s l else Some s);
     r \<leftarrow> get_right s node;
     s \<leftarrow> (if r \<noteq> NULL then freeTraversal s r else Some s);
     delete_node s node
   }"

text \<open>The destructor; afterwards the tree object itself is gone.\<close>

definition destroy_AVLTree :: "avl_mem \<Rightarrow> addr \<Rightarrow> avl_mem option" where
  "destroy_AVLTree s this = do {
     root \<leftarrow> get_root s this;
     s \<leftarrow> (if root \<noteq> NULL then freeTraversal s root else Some s);
     Some (s\<lparr>roots := (roots s)(this := None)\<rparr>)
   }"

partial_function (option) sumOfKeysHelper :: "('b, 'z) mem_scheme \<Rightarrow> addr \<Rightarrow> int option" where
  "sumOfKeysHelper s node =
     (if node = NULL then Some 0
      else do {
        k \<leftarrow> get_key s node;
        l \<leftarrow> get_left s node;
        sl \<leftarrow> sumOfKeysHelper s l;
        r \<leftarrow> get_right s node;
        sr \<leftarrow> sumOfKeysHelper s r;
        Some (to_size_t (k + sl + sr))
      })"

definition avl_sumOfKeys :: "avl_mem \<Rightarrow> addr \<Rightarrow> int option" where
  "avl_sumOfKeys s this = do {
     root \<leftarrow> get_root s this;
     sumOfKeysHelper s root
   }"

partial_function (option) numKeysHelper :: "('b, 'z) mem_scheme \<Rightarrow> addr \<Rightarrow> int option" where
  "numKeysHelper s node =
     (if node = NULL then Some 0
      else do {
        l \<leftarrow> get_left s node;
        nl \<leftarrow> numKeysHelper s l;
        r \<leftarrow> get_right s node;
        nr \<leftarrow> numKeysHelper s r;
        Some (to_size_t (1 + nl + nr))
      })"

definition avl_numKeys :: "avl_mem \<Rightarrow> addr \<Rightarrow> int option" where
  "avl_numKeys s this = do {
     root \<leftarrow> get_root s this;
     numKeysHelper s root
   }"

text \<open>The numbers printed, in order.\<close>

partial_function (option) printInOrder_node :: "avl_mem \<Rightarrow> addr \<Rightarrow> int list option" where
  "printInOrder_node s node = do {
     l \<leftarrow> get_left s node;
     xs \<leftarrow> (if l \<noteq> NULL then printInOrder_node s l else Some []);
     k \<leftarrow> get_key s node;
     r \<leftarrow> get_right s node;
     ys \<leftarrow> (if r \<noteq> NULL then printInOrder_node s r else Some []);
     Some (xs @ printf_d k # ys)
   }"

definition printInOrderTraversal :: "avl_mem \<Rightarrow> addr \<Rightarrow> int list option" where
  "printInOrderTraversal s this = do {
     root \<leftarrow> get_root s this;
     printInOrder_node s root
   }"

partial_function (option) doesAVLHold :: "avl_mem \<Rightarrow> addr \<Rightarrow> bool option" where
  "doesAVLHold s node =
     (if node \<noteq> NULL then do {
        l \<leftarrow> get_left s node;
        hl \<leftarrow> (if l \<noteq> NULL then doesAVLHold s l else Some True);
        r \<leftarrow> get_right s node;
        hr \<leftarrow> (if r \<noteq> NULL then doesAVLHold s r else Some True);
        b \<leftarrow> get_balance s node;
        Some (hl \<and> hr \<and> \<bar>b\<bar> \<le> 1)
      }
      else Some True)"

definition checkAVL :: "avl_mem \<Rightarrow> addr \<Rightarrow> bool option" where
  "checkAVL s this = do {
     root \<leftarrow> get_root s this;
     doesAVLHold s root
   }"

text \<open>
  \<open>printBFSOrder\<close>: for every node in the order of the queue its key and the key of its parent,
  or 0 for the root.
\<close>

definition push_child :: "addr list \<Rightarrow> addr \<Rightarrow> addr list" where
  "push_child q p = (if p \<noteq> NULL then q @ [p] else q)"

partial_function (option) printBFS_loop :: "avl_mem \<Rightarrow> addr list \<Rightarrow> (int \<times> int) list option" where
  "printBFS_loop s q = (case q of
     [] \<Rightarrow> Some []
   | currNode # q \<Rightarrow> do {
       p \<leftarrow> get_parent s currNode;
       parentKey \<leftarrow> (if p = NULL then Some 0 else get_key s p);
       k \<leftarrow> get_key s currNode;
       l \<leftarrow> get_left s currNode;
       r \<leftarrow> get_right s currNode;
       out \<leftarrow> printBFS_loop s (push_child (push_child q l) r);
       Some ((printf_d k, printf_d parentKey) # out)
     })"

definition printBFSOrder :: "avl_mem \<Rightarrow> addr \<Rightarrow> (int \<times> int) list option" where
  "printBFSOrder s this = do {
     root \<leftarrow> get_root s this;
     if root \<noteq> NULL then printBFS_loop s [root] else Some []
   }"

section \<open>Code equations of the loops\<close>

declare computeHeight_loop.simps [code] leftmost.simps [code] rightmost.simps [code]
  getAVLNode_loop.simps [code] replace_descend.simps [code] replace_rebalance.simps [code]
  insert_search.simps [code] insert_rebalance.simps [code] erase_search.simps [code]
  erase_rebalance.simps [code] join_descend_right.simps [code] join_descend_left.simps [code]
  freeTraversal.simps [code] sumOfKeysHelper.simps [code] numKeysHelper.simps [code]
  printInOrder_node.simps [code] doesAVLHold.simps [code] printBFS_loop.simps [code]

end
