(* ===== verification/AVL_Balance.thy ===== *)
theory AVL_Balance
  imports AVL_Tree
begin

text \<open>
  Balance of the AVL tree: the invariant relating the stored balance fields to the heights of
  the subtrees, what each rotation does to the tree in the store, and that one rebalancing step
  after a removal restores the invariant.
\<close>

section \<open>The invariant\<close>

text \<open>
  \<open>avl t\<close>: every balance field is the difference of the heights of the two subtrees and lies in
  \<open>{-1, 0, 1}\<close>. \<open>cavl c h\<close>: the same for a context whose hole has height \<open>h\<close>.
\<close>

fun avl :: "avl_ptree \<Rightarrow> bool" where
  "avl Lf = True"
| "avl (Nd l a k v b r) =
     (b = int (height r) - int (height l) \<and> \<bar>b\<bar> \<le> 1 \<and> avl l \<and> avl r)"

fun cavl :: "int ctx \<Rightarrow> nat \<Rightarrow> bool" where
  "cavl [] h = True"
| "cavl (FL a k v b r # c) h =
     (b = int (height r) - int h \<and> \<bar>b\<bar> \<le> 1 \<and> avl r \<and> cavl c (Suc (max h (height r))))"
| "cavl (FR l a k v b # c) h =
     (b = int h - int (height l) \<and> \<bar>b\<bar> \<le> 1 \<and> avl l \<and> cavl c (Suc (max (height l) h)))"

lemma avl_plug: "avl (plug c t) \<longleftrightarrow> avl t \<and> cavl c (height t)"
  by (induction c "height t" arbitrary: t rule: cavl.induct) auto

lemma height_0_iff [simp]: "height t = 0 \<longleftrightarrow> t = Lf" "0 = height t \<longleftrightarrow> t = Lf"
  by (cases t; simp)+

lemma height_pos_Nd: "0 < height t \<Longrightarrow> \<exists>l a k v b r. t = Nd l a k v b r"
  by (cases t) auto

section \<open>Rotations\<close>

lemmas rotation_defs = relink_def adopt_def heap_defs

lemma rotateLeft_ok:
  assumes "zipper s this F R c (Nd (Nd t1 x kx vx bx t2) p kp vp bp t3)"
  shows "\<exists>s'. rotateLeft s this p = Some s' \<and>
     zipper s' this F R c (Nd t1 x kx vx 0 (Nd t2 p kp vp 0 t3))"
  using assms
  by (cases t2; cases c rule: ctx_cases;
      clarsimp simp: zipper_def; simp add: rotateLeft_def rotation_defs)

lemma rotateRight_ok:
  assumes "zipper s this F R c (Nd t1 p kp vp bp (Nd t2 x kx vx bx t3))"
  shows "\<exists>s'. rotateRight s this p = Some s' \<and>
     zipper s' this F R c (Nd (Nd t1 p kp vp 0 t2) x kx vx 0 t3)"
  using assms
  by (cases t2; cases c rule: ctx_cases;
      clarsimp simp: zipper_def; simp add: rotateRight_def rotation_defs)

lemma rotateDoubleRight_ok:
  assumes "zipper s this F R c (Nd (Nd t1 x kx vx bx (Nd t2 y ky vy by t3)) p kp vp bp t4)"
  shows "\<exists>s'. rotateDoubleRight s this p = Some s' \<and>
     zipper s' this F R c (Nd (Nd t1 x kx vx (if by = 1 then -1 else 0) t2) y ky vy 0
       (Nd t3 p kp vp (if by = -1 then 1 else 0) t4))"
  using assms
  by (cases t2; cases t3; cases c rule: ctx_cases;
      clarsimp simp: zipper_def; simp add: rotateDoubleRight_def rotation_defs)

lemma rotateDoubleLeft_ok:
  assumes "zipper s this F R c (Nd t1 p kp vp bp (Nd (Nd t2 y ky vy by t3) x kx vx bx t4))"
  shows "\<exists>s'. rotateDoubleLeft s this p = Some s' \<and>
     zipper s' this F R c (Nd (Nd t1 p kp vp (if by = 1 then -1 else 0) t2) y ky vy 0
       (Nd t3 x kx vx (if by = -1 then 1 else 0) t4))"
  using assms
  by (cases t2; cases t3; cases c rule: ctx_cases;
      clarsimp simp: zipper_def; simp add: rotateDoubleLeft_def rotation_defs)

lemma zipper_set_tag:
  assumes "zipper s this F R c (Nd l a k v b r)"
  shows "\<exists>s'. set_tag s a b' = Some s' \<and> zipper s' this F R c (Nd l a k v b' r)"
  using assms by (cases c rule: ctx_cases; clarsimp simp: zipper_def; simp add: heap_defs)

lemma zipper_set_tag_left:
  assumes "zipper s this F R c (Nd (Nd t1 x kx vx bx t2) a k v b r)"
  shows "\<exists>s'. set_tag s x b' = Some s' \<and> zipper s' this F R c (Nd (Nd t1 x kx vx b' t2) a k v b r)"
  using zipper_set_tag [of s this F R "FL a k v b r # c" t1 x kx vx bx t2 b'] assms
  by (simp add: zipper_FL)

lemma zipper_set_tag_right:
  assumes "zipper s this F R c (Nd l a k v b (Nd t1 x kx vx bx t2))"
  shows "\<exists>s'. set_tag s x b' = Some s' \<and> zipper s' this F R c (Nd l a k v b (Nd t1 x kx vx b' t2))"
  using zipper_set_tag [of s this F R "FR l a k v b # c" t1 x kx vx bx t2 b'] assms
  by (simp add: zipper_FR)

section \<open>Rebalancing after a removal\<close>

lemma deleteBalanceLeft_double:
  assumes "zipper s this F R c (Nd t1 p kp vp 1 (Nd (Nd t2 y ky vy by t3) x kx vx (-1) t4))"
  shows "\<exists>s'. deleteBalanceLeft s this p = Some (True, s') \<and>
     zipper s' this F R c (Nd (Nd t1 p kp vp (if by = 1 then -1 else 0) t2) y ky vy 0
       (Nd t3 x kx vx (if by = -1 then 1 else 0) t4))"
  using assms
  by (cases t2; cases t3; cases c rule: ctx_cases;
      clarsimp simp: zipper_def; simp add: deleteBalanceLeft_def rotation_defs)

lemma deleteBalanceRight_double:
  assumes "zipper s this F R c (Nd (Nd t1 x kx vx 1 (Nd t2 y ky vy by t3)) p kp vp (-1) t4)"
  shows "\<exists>s'. deleteBalanceRight s this p = Some (True, s') \<and>
     zipper s' this F R c (Nd (Nd t1 x kx vx (if by = 1 then -1 else 0) t2) y ky vy 0
       (Nd t3 p kp vp (if by = -1 then 1 else 0) t4))"
  using assms
  by (cases t2; cases t3; cases c rule: ctx_cases;
      clarsimp simp: zipper_def; simp add: deleteBalanceRight_def rotation_defs)

text \<open>
  The contract shared by the two routines: the subtree at \<open>p\<close> had height \<open>h\<close> before one of its
  subtrees lost a level; afterwards it is balanced, holds the same pairs, and its height is
  \<open>h\<close>, or \<open>h - 1\<close> exactly if the routine asks the caller to go on.
\<close>

definition rebalanced :: "(bool \<times> avl_mem) option \<Rightarrow> addr \<Rightarrow> (addr \<Rightarrow> int pnode option)
    \<Rightarrow> (addr \<Rightarrow> addr option) \<Rightarrow> int ctx \<Rightarrow> kv_list \<Rightarrow> nat \<Rightarrow> bool" where
  "rebalanced res this F R c xs h \<longleftrightarrow>
     (\<exists>cont s' t'. res = Some (cont, s') \<and> zipper s' this F R c t' \<and> avl t' \<and> t' \<noteq> Lf \<and>
        kvs t' = xs \<and> height t' + (if cont then 1 else 0) = h)"

lemma rebalancedI:
  "res = Some (cont, s') \<Longrightarrow> zipper s' this F R c t' \<Longrightarrow> avl t' \<Longrightarrow> t' \<noteq> Lf \<Longrightarrow> kvs t' = xs \<Longrightarrow>
     height t' + (if cont then 1 else 0) = h \<Longrightarrow> rebalanced res this F R c xs h"
  unfolding rebalanced_def by blast

lemma deleteBalanceLeft_heavy:
  assumes z: "zipper s this F R c (Nd l p k v 1 (Nd rl x kx vx bx rr))"
    and h: "height (Nd rl x kx vx bx rr) = height l + 2" and avl: "avl l" "avl (Nd rl x kx vx bx rr)"
  shows "rebalanced (deleteBalanceLeft s this p) this F R c
           (kvs (Nd l p k v 1 (Nd rl x kx vx bx rr))) (height l + 3)"
proof -
  have zr: "zipper s this F R (FR l p k v 1 # c) (Nd rl x kx vx bx rr)"
    using z by (simp add: zipper_FR)
  note get = zipper_get [OF z] zipper_get [OF zr]
  from avl(2) consider "bx = 0" | "bx = 1" | "bx = -1" by fastforce
  then show ?thesis
  proof cases
    case 1
    from rotateRight_ok [OF z] obtain s1 where s1: "rotateRight s this p = Some s1"
      "zipper s1 this F R c (Nd (Nd l p k v 0 rl) x kx vx 0 rr)" by blast
    from zipper_set_tag_left [OF s1(2), of 1] obtain s2 where s2: "set_balance s1 p 1 = Some s2"
      "zipper s2 this F R c (Nd (Nd l p k v 1 rl) x kx vx 0 rr)" by blast
    from zipper_set_tag [OF s2(2), of "-1"] obtain s3 where s3: "set_balance s2 x (-1) = Some s3"
      "zipper s3 this F R c (Nd (Nd l p k v 1 rl) x kx vx (-1) rr)" by blast
    have "deleteBalanceLeft s this p = Some (False, s3)"
      using get 1 s1 s2 s3 by (simp add: deleteBalanceLeft_def)
    then show ?thesis
      by (rule rebalancedI [OF _ s3(2)]) (use h avl 1 in auto)
  next
    case 2
    from rotateRight_ok [OF z] obtain s1 where s1: "rotateRight s this p = Some s1"
      "zipper s1 this F R c (Nd (Nd l p k v 0 rl) x kx vx 0 rr)" by blast
    have "deleteBalanceLeft s this p = Some (True, s1)"
      using get 2 s1 by (simp add: deleteBalanceLeft_def)
    then show ?thesis
      by (rule rebalancedI [OF _ s1(2)]) (use h avl 2 in auto)
  next
    case 3
    with avl(2) obtain t2 y ky vy "by" t3 where rl: "rl = Nd t2 y ky vy by t3"
      using height_pos_Nd [of rl] by auto
    from deleteBalanceLeft_double [OF z [unfolded rl 3]] obtain s' where
      "deleteBalanceLeft s this p = Some (True, s')"
      "zipper s' this F R c (Nd (Nd l p k v (if by = 1 then -1 else 0) t2) y ky vy 0
         (Nd t3 x kx vx (if by = -1 then 1 else 0) rr))" by blast
    then show ?thesis
      by (rule rebalancedI) (use h avl rl 3 in \<open>auto simp: max_def split: if_splits\<close>)
  qed
qed

lemma deleteBalanceLeft_ok:
  assumes z: "zipper s this F R c (Nd l p k v b r)"
    and b: "b = int (height r) - int (height l) - 1" "\<bar>b\<bar> \<le> 1" and avl: "avl l" "avl r"
  shows "rebalanced (deleteBalanceLeft s this p) this F R c
           (kvs (Nd l p k v b r)) (Suc (max (Suc (height l)) (height r)))"
proof -
  note get = zipper_get [OF z]
  consider "b = -1" | "b = 0" | "b = 1" using b(2) by linarith
  then show ?thesis
  proof cases
    case 1
    from zipper_set_tag [OF z, of 0] obtain s' where s':
      "set_balance s p 0 = Some s'" "zipper s' this F R c (Nd l p k v 0 r)" by blast
    with 1 get show ?thesis
      by (intro rebalancedI [OF _ s'(2)]) (use b avl in \<open>auto simp: deleteBalanceLeft_def\<close>)
  next
    case 2
    from zipper_set_tag [OF z, of 1] obtain s' where s':
      "set_balance s p 1 = Some s'" "zipper s' this F R c (Nd l p k v 1 r)" by blast
    with 2 get show ?thesis
      by (intro rebalancedI [OF _ s'(2)]) (use b avl in \<open>auto simp: deleteBalanceLeft_def\<close>)
  next
    case 3
    with b(1) have h: "height r = height l + 2" by simp
    then obtain rl x kx vx bx rr where r: "r = Nd rl x kx vx bx rr"
      using height_pos_Nd [of r] by auto
    have "rebalanced (deleteBalanceLeft s this p) this F R c (kvs (Nd l p k v b r)) (height l + 3)"
      using deleteBalanceLeft_heavy [OF z [unfolded 3 r] h [unfolded r] avl(1) avl(2) [unfolded r]]
      by (simp only: 3 r)
    moreover from h have "Suc (max (Suc (height l)) (height r)) = height l + 3" by simp
    ultimately show ?thesis by (simp only:)
  qed
qed

lemma deleteBalanceRight_heavy:
  assumes z: "zipper s this F R c (Nd (Nd ll x kx vx bx lr) p k v (-1) r)"
    and h: "height (Nd ll x kx vx bx lr) = height r + 2" and avl: "avl (Nd ll x kx vx bx lr)" "avl r"
  shows "rebalanced (deleteBalanceRight s this p) this F R c
           (kvs (Nd (Nd ll x kx vx bx lr) p k v (-1) r)) (height r + 3)"
proof -
  have zl: "zipper s this F R (FL p k v (-1) r # c) (Nd ll x kx vx bx lr)"
    using z by (simp add: zipper_FL)
  note get = zipper_get [OF z] zipper_get [OF zl]
  from avl(1) consider "bx = 0" | "bx = -1" | "bx = 1" by fastforce
  then show ?thesis
  proof cases
    case 1
    from rotateLeft_ok [OF z] obtain s1 where s1: "rotateLeft s this p = Some s1"
      "zipper s1 this F R c (Nd ll x kx vx 0 (Nd lr p k v 0 r))" by blast
    from zipper_set_tag_right [OF s1(2), of "-1"] obtain s2 where s2: "set_balance s1 p (-1) = Some s2"
      "zipper s2 this F R c (Nd ll x kx vx 0 (Nd lr p k v (-1) r))" by blast
    from zipper_set_tag [OF s2(2), of 1] obtain s3 where s3: "set_balance s2 x 1 = Some s3"
      "zipper s3 this F R c (Nd ll x kx vx 1 (Nd lr p k v (-1) r))" by blast
    have "deleteBalanceRight s this p = Some (False, s3)"
      using get 1 s1 s2 s3 by (simp add: deleteBalanceRight_def)
    then show ?thesis
      by (rule rebalancedI [OF _ s3(2)]) (use h avl 1 in auto)
  next
    case 2
    from rotateLeft_ok [OF z] obtain s1 where s1: "rotateLeft s this p = Some s1"
      "zipper s1 this F R c (Nd ll x kx vx 0 (Nd lr p k v 0 r))" by blast
    have "deleteBalanceRight s this p = Some (True, s1)"
      using get 2 s1 by (simp add: deleteBalanceRight_def)
    then show ?thesis
      by (rule rebalancedI [OF _ s1(2)]) (use h avl 2 in auto)
  next
    case 3
    with avl(1) obtain t2 y ky vy "by" t3 where lr: "lr = Nd t2 y ky vy by t3"
      using height_pos_Nd [of lr] by auto
    from deleteBalanceRight_double [OF z [unfolded lr 3]] obtain s' where
      "deleteBalanceRight s this p = Some (True, s')"
      "zipper s' this F R c (Nd (Nd ll x kx vx (if by = 1 then -1 else 0) t2) y ky vy 0
         (Nd t3 p k v (if by = -1 then 1 else 0) r))" by blast
    then show ?thesis
      by (rule rebalancedI) (use h avl lr 3 in \<open>auto simp: max_def split: if_splits\<close>)
  qed
qed

lemma deleteBalanceRight_ok:
  assumes z: "zipper s this F R c (Nd l p k v b r)"
    and b: "b = int (height r) + 1 - int (height l)" "\<bar>b\<bar> \<le> 1" and avl: "avl l" "avl r"
  shows "rebalanced (deleteBalanceRight s this p) this F R c
           (kvs (Nd l p k v b r)) (Suc (max (height l) (Suc (height r))))"
proof -
  note get = zipper_get [OF z]
  consider "b = 1" | "b = 0" | "b = -1" using b(2) by linarith
  then show ?thesis
  proof cases
    case 1
    from zipper_set_tag [OF z, of 0] obtain s' where s':
      "set_balance s p 0 = Some s'" "zipper s' this F R c (Nd l p k v 0 r)" by blast
    with 1 get show ?thesis
      by (intro rebalancedI [OF _ s'(2)]) (use b avl in \<open>auto simp: deleteBalanceRight_def\<close>)
  next
    case 2
    from zipper_set_tag [OF z, of "-1"] obtain s' where s':
      "set_balance s p (-1) = Some s'" "zipper s' this F R c (Nd l p k v (-1) r)" by blast
    with 2 get show ?thesis
      by (intro rebalancedI [OF _ s'(2)]) (use b avl in \<open>auto simp: deleteBalanceRight_def\<close>)
  next
    case 3
    with b(1) have h: "height l = height r + 2" by simp
    then obtain ll x kx vx bx lr where l: "l = Nd ll x kx vx bx lr"
      using height_pos_Nd [of l] by auto
    have "rebalanced (deleteBalanceRight s this p) this F R c (kvs (Nd l p k v b r)) (height r + 3)"
      using deleteBalanceRight_heavy [OF z [unfolded 3 l] h [unfolded l] avl(1) [unfolded l] avl(2)]
      by (simp only: 3 l)
    moreover from h have "Suc (max (height l) (Suc (height r))) = height r + 3" by simp
    ultimately show ?thesis by (simp only:)
  qed
qed

end
