(* ===== verification/AVL_Insert.thy ===== *)
theory AVL_Insert
  imports AVL_Balance
begin

text \<open>Lookup and insertion of the AVL tree.\<close>

section \<open>Searching\<close>

lemma getAVLNode_loop_locate:
  assumes "zipper s this F R c t" "locate k c t = (c', t')"
  shows "getAVLNode_loop s k (ptr t) = Some (ptr t')"
  using assms
proof (induction k c t rule: locate.induct)
  case (1 k c)
  then show ?case by (simp add: getAVLNode_loop.simps)
next
  case (2 k c l a k' v b r)
  note get = zipper_get [OF 2(3)]
  with 2 show ?case
    by (subst getAVLNode_loop.simps) (auto simp: zipper_FL zipper_FR split: if_splits)
qed

lemma insert_search_locate:
  assumes "zipper s this F R c t" "locate k c t = (c', t')" "dir_ok d c"
  shows "\<exists>d'. insert_search s k (cpar c) (ptr t) d = Some (cpar c', ptr t', d') \<and> dir_ok d' c'"
  using assms
proof (induction k c t arbitrary: d rule: locate.induct)
  case (1 k c)
  then show ?case by (simp add: insert_search.simps)
next
  case (2 k c l a k' v b r)
  note get = zipper_get [OF 2(3)]
  with 2 show ?case
    by (subst insert_search.simps) (auto simp: zipper_FL zipper_FR split: if_splits)
qed

section \<open>Rebalancing after an insertion\<close>

text \<open>
  The side condition of the loop: a subtree that grew by one level leans to one side, unless it
  is a single node or its parent is not going to be rotated.
\<close>

fun leaning :: "avl_ptree \<Rightarrow> int ctx \<Rightarrow> bool" where
  "leaning (Nd l a k v b r) (FL a' k' v' b' r' # c) = (b \<noteq> 0 \<or> l = Lf \<and> r = Lf \<or> b' \<noteq> -1)"
| "leaning (Nd l a k v b r) (FR l' a' k' v' b' # c) = (b \<noteq> 0 \<or> l = Lf \<and> r = Lf \<or> b' \<noteq> 1)"
| "leaning t c = True"

definition grown_ok :: "avl_mem option \<Rightarrow> addr \<Rightarrow> (addr \<Rightarrow> int pnode option)
    \<Rightarrow> (addr \<Rightarrow> addr option) \<Rightarrow> kv_list \<Rightarrow> bool" where
  "grown_ok res this F R xs \<longleftrightarrow>
     (\<exists>s' t'. res = Some s' \<and> holds s' this F R t' \<and> avl t' \<and> kvs t' = xs)"

lemma grown_okI:
  assumes "res = Some s'" "zipper s' this F R c t" "cavl c h" "height t = h" "avl t"
    "cleft c @ kvs t @ cright c = xs"
  shows "grown_ok res this F R xs"
  unfolding grown_ok_def using assms
  by (intro exI [of _ s'] exI [of _ "plug c t"]) (simp add: avl_plug flip: zipper_plug)

lemma insert_rebalance_FL:
  assumes z: "zipper s this F R (FL a k v b r # c) t" and t: "t \<noteq> Lf" "avl t"
    and ctx: "cavl (FL a k v b r # c) (height t - 1)" and lean: "leaning t (FL a k v b r # c)"
    and IH: "\<And>s t. zipper s this F R c t \<Longrightarrow> t \<noteq> Lf \<Longrightarrow> avl t \<Longrightarrow> cavl c (height t - 1) \<Longrightarrow>
      leaning t c \<Longrightarrow> grown_ok (insert_rebalance s this (cpar c) (ptr t)) this F R
        (cleft c @ kvs t @ cright c)"
  shows "grown_ok (insert_rebalance s this a (ptr t)) this F R
     (cleft c @ kvs t @ (k, v) # kvs r @ cright c)"
proof -
  have z': "zipper s this F R c (Nd t a k v b r)" using z by (simp add: zipper_FL)
  note get = zipper_get [OF z']
  obtain tl x kx vx bx tr where t': "t = Nd tl x kx vx bx tr" using t by (cases t) auto
  note getx = zipper_get [OF z [unfolded t']]
  from ctx have ca: "cavl c (Suc (max (height t - 1) (height r)))" by simp
  from ctx consider "b = 0" | "b = 1" | "b = -1" by fastforce
  then show ?thesis
  proof cases
    case 1
    from zipper_set_tag [OF z', of "-1"] obtain s' where s': "set_balance s a (-1) = Some s'"
      "zipper s' this F R c (Nd t a k v (-1) r)" by blast
    have "insert_rebalance s this a (ptr t) = insert_rebalance s' this (cpar c) a"
      using get 1 s' zipper_get [OF s'(2)] by (subst insert_rebalance.simps) simp
    moreover have "leaning (Nd t a k v (-1) r) c" by (cases c rule: ctx_cases) auto
    ultimately show ?thesis
      using IH [OF s'(2)] t ctx 1 t' by (auto simp: max_def split: if_splits)
  next
    case 2
    from zipper_set_tag [OF z', of 0] obtain s' where s': "set_balance s a 0 = Some s'"
      "zipper s' this F R c (Nd t a k v 0 r)" by blast
    have "insert_rebalance s this a (ptr t) = Some s'"
      using get 2 s' by (subst insert_rebalance.simps) simp
    then show ?thesis
      by (rule grown_okI [OF _ s'(2) ca]) (use t ctx 2 t' in \<open>auto simp: max_def split: if_splits\<close>)
  next
    case 3
    with ctx t' t lean have "bx = -1 \<or> bx = 1" by auto
    then show ?thesis
    proof
      assume bx: "bx = -1"
      from rotateLeft_ok [OF z' [unfolded t']] obtain s' where s': "rotateLeft s this a = Some s'"
        "zipper s' this F R c (Nd tl x kx vx 0 (Nd tr a k v 0 r))" by blast
      have "insert_rebalance s this a (ptr t) = Some s'"
        using get getx 3 bx s' t' by (subst insert_rebalance.simps) simp
      then show ?thesis
        by (rule grown_okI [OF _ s'(2) ca]) (use t ctx 3 bx t' in \<open>auto simp: max_def split: if_splits\<close>)
    next
      assume bx: "bx = 1"
      with t t' obtain t2 y ky vy "by" t3 where tr: "tr = Nd t2 y ky vy by t3"
        using height_pos_Nd [of tr] by auto
      from rotateDoubleRight_ok [OF z' [unfolded t' tr]] obtain s' where
        s': "rotateDoubleRight s this a = Some s'"
        "zipper s' this F R c (Nd (Nd tl x kx vx (if by = 1 then -1 else 0) t2) y ky vy 0
           (Nd t3 a k v (if by = -1 then 1 else 0) r))" by blast
      have "insert_rebalance s this a (ptr t) = Some s'"
        using get getx 3 bx s' t' by (subst insert_rebalance.simps) simp
      then show ?thesis
        by (rule grown_okI [OF _ s'(2) ca])
           (use t ctx 3 bx t' tr in \<open>auto simp: max_def split: if_splits\<close>)
    qed
  qed
qed

lemma insert_rebalance_FR:
  assumes z: "zipper s this F R (FR l a k v b # c) t" and t: "t \<noteq> Lf" "avl t"
    and ctx: "cavl (FR l a k v b # c) (height t - 1)" and lean: "leaning t (FR l a k v b # c)"
    and IH: "\<And>s t. zipper s this F R c t \<Longrightarrow> t \<noteq> Lf \<Longrightarrow> avl t \<Longrightarrow> cavl c (height t - 1) \<Longrightarrow>
      leaning t c \<Longrightarrow> grown_ok (insert_rebalance s this (cpar c) (ptr t)) this F R
        (cleft c @ kvs t @ cright c)"
  shows "grown_ok (insert_rebalance s this a (ptr t)) this F R
     (cleft c @ kvs l @ (k, v) # kvs t @ cright c)"
proof -
  have z': "zipper s this F R c (Nd l a k v b t)" using z by (simp add: zipper_FR)
  note get = zipper_get [OF z']
  obtain tl x kx vx bx tr where t': "t = Nd tl x kx vx bx tr" using t by (cases t) auto
  note getx = zipper_get [OF z [unfolded t']]
  have neq: "ptr l \<noteq> x" using z' t' by (auto simp: zipper_def)
  from ctx have ca: "cavl c (Suc (max (height l) (height t - 1)))" by simp
  from ctx consider "b = 0" | "b = -1" | "b = 1" by fastforce
  then show ?thesis
  proof cases
    case 1
    from zipper_set_tag [OF z', of 1] obtain s' where s': "set_balance s a 1 = Some s'"
      "zipper s' this F R c (Nd l a k v 1 t)" by blast
    have "insert_rebalance s this a (ptr t) = insert_rebalance s' this (cpar c) a"
      using get 1 s' zipper_get [OF s'(2)] neq t' by (subst insert_rebalance.simps) simp
    moreover have "leaning (Nd l a k v 1 t) c" by (cases c rule: ctx_cases) auto
    ultimately show ?thesis
      using IH [OF s'(2)] t ctx 1 t' by (auto simp: max_def split: if_splits)
  next
    case 2
    from zipper_set_tag [OF z', of 0] obtain s' where s': "set_balance s a 0 = Some s'"
      "zipper s' this F R c (Nd l a k v 0 t)" by blast
    have "insert_rebalance s this a (ptr t) = Some s'"
      using get 2 s' neq t' by (subst insert_rebalance.simps) simp
    then show ?thesis
      by (rule grown_okI [OF _ s'(2) ca]) (use t ctx 2 t' in \<open>auto simp: max_def split: if_splits\<close>)
  next
    case 3
    with ctx t' t lean have "bx = -1 \<or> bx = 1" by auto
    then show ?thesis
    proof
      assume bx: "bx = 1"
      from rotateRight_ok [OF z' [unfolded t']] obtain s' where s': "rotateRight s this a = Some s'"
        "zipper s' this F R c (Nd (Nd l a k v 0 tl) x kx vx 0 tr)" by blast
      have "insert_rebalance s this a (ptr t) = Some s'"
        using get getx 3 bx s' t' neq by (subst insert_rebalance.simps) simp
      then show ?thesis
        by (rule grown_okI [OF _ s'(2) ca]) (use t ctx 3 bx t' in \<open>auto simp: max_def split: if_splits\<close>)
    next
      assume bx: "bx = -1"
      with t t' obtain t2 y ky vy "by" t3 where tl: "tl = Nd t2 y ky vy by t3"
        using height_pos_Nd [of tl] by auto
      from rotateDoubleLeft_ok [OF z' [unfolded t' tl]] obtain s' where
        s': "rotateDoubleLeft s this a = Some s'"
        "zipper s' this F R c (Nd (Nd l a k v (if by = 1 then -1 else 0) t2) y ky vy 0
           (Nd t3 x kx vx (if by = -1 then 1 else 0) tr))" by blast
      have "insert_rebalance s this a (ptr t) = Some s'"
        using get getx 3 bx s' t' neq by (subst insert_rebalance.simps) simp
      then show ?thesis
        by (rule grown_okI [OF _ s'(2) ca])
           (use t ctx 3 bx t' tl in \<open>auto simp: max_def split: if_splits\<close>)
    qed
  qed
qed

lemma insert_rebalance_ok:
  assumes "zipper s this F R c t" "t \<noteq> Lf" "avl t" "cavl c (height t - 1)" "leaning t c"
  shows "grown_ok (insert_rebalance s this (cpar c) (ptr t)) this F R (cleft c @ kvs t @ cright c)"
  using assms
proof (induction c arbitrary: s t)
  case Nil
  then have "insert_rebalance s this (cpar []) (ptr t) = Some s"
    by (subst insert_rebalance.simps) simp
  then show ?case by (rule grown_okI) (use Nil in auto)
next
  case (Cons f c)
  show ?case
  proof (cases f)
    case (FL a k v b r)
    then show ?thesis using insert_rebalance_FL [OF Cons.prems [unfolded FL] Cons.IH] by simp
  next
    case (FR l a k v b)
    then show ?thesis using insert_rebalance_FR [OF Cons.prems [unfolded FR] Cons.IH] by simp
  qed
qed

section \<open>Insertion\<close>

lemma zipper_new_leaf:
  assumes z: "zipper s this F R c Lf" and d: "dir_ok d c"
    and n: "new_node s \<lparr>nkey = k, nval = v, nleft = NULL, nright = NULL, nparent = cpar c, ntag = b\<rparr> = (a, s1)"
  shows "\<exists>s2. (if cpar c = NULL then set_root s1 this a
               else if d then set_left s1 (cpar c) a else set_right s1 (cpar c) a) = Some s2 \<and>
           zipper s2 this F R c (Nd Lf a k v b Lf)"
proof -
  have fresh: "a \<notin> set (caddrs c)" "a \<noteq> NULL" "F a = None" "a = brk s"
    using z n by (auto simp: zipper_defs heap_defs)
  have own: "owns ((hp s)(a := x)) (Suc a) F (insert a (set (caddrs c)))" for x
    using z fresh by (auto simp: zipper_defs)
  have obj: "objs_below R this (Suc a)"
    using z fresh by (auto simp: zipper_defs)
  have s1: "s1 = s\<lparr>hp := (hp s)(a \<mapsto> \<lparr>nkey = k, nval = v, nleft = NULL, nright = NULL,
      nparent = cpar c, ntag = b\<rparr>), brk := Suc a\<rparr>"
    using n by (auto simp: heap_defs)
  show ?thesis
    using z d fresh(1,2) own obj unfolding s1
    by (cases c rule: ctx_cases; clarsimp simp: zipper_def; simp add: heap_defs)
qed

text \<open>
  The representation of a whole AVL tree object: a balanced search tree whose in-order list of
  pairs is \<open>xs\<close>.
\<close>

definition avl_rep :: "avl_mem \<Rightarrow> addr \<Rightarrow> (addr \<Rightarrow> int pnode option) \<Rightarrow> (addr \<Rightarrow> addr option)
    \<Rightarrow> kv_list \<Rightarrow> bool" where
  "avl_rep s this F R xs \<longleftrightarrow> (\<exists>t. holds s this F R t \<and> avl t \<and> kvs t = xs \<and> sorted_kvs xs)"

lemma avl_repE:
  assumes "avl_rep s this F R xs"
  obtains t where "holds s this F R t" "avl t" "kvs t = xs" "sorted_kvs xs"
  using assms by (auto simp: avl_rep_def)

lemma avl_find_rep:
  assumes "avl_rep s this F R xs"
  shows "avl_find s this k = Some (lookup_kv xs k)"
proof -
  from assms obtain t where t: "holds s this F R t" "kvs t = xs" "sorted_kvs xs"
    by (rule avl_repE)
  obtain c u where l: "locate k [] t = (c, u)" by (cases "locate k [] t")
  have z: "zipper s this F R c u" by (rule locate_zipper [OF l t(1)])
  have "getAVLNode s this k = Some (ptr u)"
    using getAVLNode_loop_locate [OF t(1) l] zipper_get_root [OF t(1)]
    by (simp add: getAVLNode_def)
  with z locate_lookup [OF l] t show ?thesis
    by (cases u) (auto simp: avl_find_def zipper_get)
qed

lemma avl_insert_rep:
  assumes "avl_rep s this F R xs"
  shows "\<exists>s'. avl_insert s this k v = Some (lookup_kv xs k, s') \<and>
     avl_rep s' this F R (ins_kv k v xs)"
proof -
  from assms obtain t where t: "holds s this F R t" "avl t" "kvs t = xs" "sorted_kvs xs"
    by (rule avl_repE)
  obtain c u where l: "locate k [] t = (c, u)" by (cases "locate k [] t")
  have p: "plug c u = t" using locate_plug [OF l] by simp
  have z: "zipper s this F R c u" by (rule locate_zipper [OF l t(1)])
  have xs: "xs = cleft c @ kvs u @ cright c" using t(3) p by auto
  have bd: "all_less (cleft c) k" "all_greater k (cright c)" using locate_bounds [OF l] t by auto
  from insert_search_locate [OF t(1) l, of True] obtain d where
    d: "insert_search s k NULL (ptr t) True = Some (cpar c, ptr u, d)" "dir_ok d c" by auto
  show ?thesis
  proof (cases u)
    case Lf
    obtain a s1 where n: "new_node s (avl_Node k v (cpar c) NULL NULL) = (a, s1)"
      by (cases "new_node s (avl_Node k v (cpar c) NULL NULL)")
    from zipper_new_leaf [OF z [unfolded Lf] d(2) n [unfolded avl_Node_def]] obtain s2 where
      s2: "(if cpar c = NULL then set_root s1 this a
            else if d then set_left s1 (cpar c) a else set_right s1 (cpar c) a) = Some s2"
      "zipper s2 this F R c (Nd Lf a k v 0 Lf)" by blast
    have "leaning (Nd Lf a k v 0 Lf) c" by (cases c rule: ctx_cases) auto
    with insert_rebalance_ok [OF s2(2)] t(2) p Lf obtain s3 t3 where
      s3: "insert_rebalance s2 this (cpar c) a = Some s3" "holds s3 this F R t3" "avl t3"
      "kvs t3 = cleft c @ (k, v) # cright c"
      by (auto simp: grown_ok_def avl_plug simp flip: p)
    have "avl_insert s this k v = Some (NO_VALUE, s3)"
      using zipper_get_root [OF t(1)] d n s2 s3 Lf by (simp add: avl_insert_def)
    moreover have "lookup_kv xs k = NO_VALUE" "ins_kv k v xs = kvs t3"
      using xs bd Lf s3(4) by (simp_all add: kv_simps)
    moreover have "sorted_kvs (ins_kv k v xs)" using t(4) by (rule sorted_ins_kv)
    ultimately show ?thesis using s3 by (auto simp: avl_rep_def)
  next
    case (Nd l1 a k1 v1 b r1)
    with locate_end [OF l] have k1: "k1 = k" by simp
    note get = zipper_get [OF z [unfolded Nd]]
    have "avl_insert s this k v = Some (v1, s)"
      using zipper_get_root [OF t(1)] d get Nd by (simp add: avl_insert_def)
    moreover have "lookup_kv xs k = v1" "ins_kv k v xs = xs"
      using xs bd t(4) Nd k1 ins_kv_present [of "cleft c @ kvs l1" k v v1 "kvs r1 @ cright c"]
      by (simp_all add: kv_simps)
    ultimately show ?thesis using assms by auto
  qed
qed

end
