(* ===== verification/AVL_Erase.thy ===== *)
theory AVL_Erase
  imports AVL_Insert
begin

text \<open>Removal from the AVL tree.\<close>

section \<open>Searching and unlinking\<close>

lemma erase_search_locate:
  assumes "zipper s this F R c t" "locate k c t = (c', t')" "dir_ok d c"
  shows "\<exists>d'. erase_search s k (ptr t) d = Some (ptr t', d') \<and> dir_ok d' c'"
  using assms
proof (induction k c t arbitrary: d rule: locate.induct)
  case (1 k c)
  then show ?case by (simp add: erase_search.simps)
next
  case (2 k c l a k' v b r)
  note get = zipper_get [OF 2(3)]
  with 2 show ?case
    by (subst erase_search.simps) (auto simp: zipper_FL zipper_FR split: if_splits)
qed

lemma erase_splice_right:
  assumes "zipper s this F R c (Nd Lf a k v b r)" "dir_ok d c"
  shows "\<exists>s'. erase_splice s this (cpar c) d a (ptr r) = Some s' \<and> zipper s' this F R c r"
  using assms
  by (cases r; cases c rule: ctx_cases; clarsimp simp: zipper_def;
      simp add: erase_splice_def adopt_def heap_defs insert_commute)

lemma erase_splice_left:
  assumes "zipper s this F R c (Nd l a k v b Lf)" "dir_ok d c"
  shows "\<exists>s'. erase_splice s this (cpar c) d a (ptr l) = Some s' \<and> zipper s' this F R c l"
  using assms
  by (cases l; cases c rule: ctx_cases; clarsimp simp: zipper_def;
      simp add: erase_splice_def adopt_def heap_defs insert_commute)

lemma zipper_set_key:
  assumes "zipper s this F R c (Nd l a k v b r)"
  shows "\<exists>s'. set_key s a k' = Some s' \<and> zipper s' this F R c (Nd l a k' v b r)"
  using assms by (cases c rule: ctx_cases; clarsimp simp: zipper_def; simp add: heap_defs)

lemma zipper_set_val:
  assumes "zipper s this F R c (Nd l a k v b r)"
  shows "\<exists>s'. set_val s a v' = Some s' \<and> zipper s' this F R c (Nd l a k v' b r)"
  using assms by (cases c rule: ctx_cases; clarsimp simp: zipper_def; simp add: heap_defs)

lemma unlink_rightmost:
  assumes "zipper s this F R (f # c) (Nd l m k v b Lf)"
  shows "\<exists>s'. do {
      pr \<leftarrow> get_right s (frame_addr f);
      l' \<leftarrow> get_left s m;
      s \<leftarrow> (if pr = m then set_right s (frame_addr f) l' else set_left s (frame_addr f) l');
      s \<leftarrow> adopt s l' (frame_addr f);
      delete_node s m
    } = Some s' \<and> zipper s' this F R (f # c) l"
  using assms
  by (cases l; cases f; clarsimp simp: zipper_def; simp add: adopt_def heap_defs insert_commute)


section \<open>Replacing a node by its in-order predecessor\<close>

text \<open>The height of a tree whose hole at context \<open>c\<close> is filled by a tree of height \<open>h\<close>.\<close>

fun cheight :: "'b ctx \<Rightarrow> nat \<Rightarrow> nat" where
  "cheight [] h = h"
| "cheight (FL a k v b r # c) h = cheight c (Suc (max h (height r)))"
| "cheight (FR l a k v b # c) h = cheight c (Suc (max (height l) h))"

lemma height_plug: "height (plug c t) = cheight c (height t)"
  by (induction c "height t" arbitrary: t rule: cheight.induct) auto

fun right_spine :: "'b ctx \<Rightarrow> bool" where
  "right_spine [] = True"
| "right_spine (FL a k v b r # c) = False"
| "right_spine (FR l a k v b # c) = right_spine c"

lemma right_spine_append [simp]: "right_spine (c @ d) \<longleftrightarrow> right_spine c \<and> right_spine d"
  by (induction c rule: right_spine.induct) auto

lemma cright_right_spine [simp]: "right_spine c \<Longrightarrow> cright c = []"
  by (induction c rule: right_spine.induct) auto

lemma replace_descend_ok:
  assumes "zipper s this F R c t" "t \<noteq> Lf"
  shows "\<exists>d l m k v b. t = plug d (Nd l m k v b Lf) \<and> right_spine d \<and>
           replace_descend s (ptr t) n = Some (m, n + int (length d))"
  using assms
proof (induction t arbitrary: c n)
  case (Nd l a k v b r)
  note get = zipper_get [OF Nd(3)]
  show ?case
  proof (cases "r = Lf")
    case True
    with get have "replace_descend s a n = Some (a, n + int (length []))"
      by (subst replace_descend.simps) simp
    with True show ?thesis
      by (intro exI [of _ "[]"]) auto
  next
    case False
    from Nd(3) have z: "zipper s this F R (FR l a k v b # c) r" by (simp add: zipper_FR)
    from Nd(2) [OF z False, of "n + 1"] obtain d l' m k' v' b' where
      d: "r = plug d (Nd l' m k' v' b' Lf)" "right_spine d"
        "replace_descend s (ptr r) (n + 1) = Some (m, n + 1 + int (length d))" by blast
    have "ptr r \<noteq> NULL" using zipper_ptr_NULL [OF z] False by simp
    with d get have "replace_descend s a n = Some (m, n + int (length (d @ [FR l a k v b])))"
      by (subst replace_descend.simps) simp
    moreover have "Nd l a k v b r = plug (d @ [FR l a k v b]) (Nd l' m k' v' b' Lf)"
      using d(1) by (simp add: plug_append)
    ultimately show ?thesis using d(2)
      by (metis ptr.simps(2) right_spine.simps(1,3) right_spine_append)
  qed
qed simp

lemma replace_rebalance_stop [simp]:
  "replace_rebalance s this p n False = Some (False, s)"
  by (simp add: replace_rebalance.simps)

lemma replace_rebalance_ok:
  assumes "zipper s this F R (d @ c) t" "right_spine d" "avl t" "cavl d (Suc (height t))"
  shows "\<exists>cont s' t'. replace_rebalance s this (cpar (d @ c)) (int (length d)) True = Some (cont, s') \<and>
           zipper s' this F R c t' \<and> avl t' \<and> kvs t' = kvs (plug d t) \<and>
           height t' + (if cont then 1 else 0) = cheight d (Suc (height t))"
  using assms
proof (induction d arbitrary: s t rule: right_spine.induct)
  case 1
  then show ?case by (auto simp: replace_rebalance.simps)
next
  case (2 a k v b r d)
  then show ?case by simp
next
  case (3 l a k v b d)
  let ?h = "Suc (max (height l) (Suc (height t)))"
  from 3(2) have z: "zipper s this F R (d @ c) (Nd l a k v b t)" by (simp add: zipper_FR)
  from 3(5) have b: "b = int (height t) + 1 - int (height l)" "\<bar>b\<bar> \<le> 1" "avl l" and cd: "cavl d ?h"
    by auto
  note get = zipper_get [OF z]
  have "rebalanced (deleteBalanceRight s this a) this F R (d @ c) (kvs (Nd l a k v b t)) ?h"
    using deleteBalanceRight_ok [OF z] b 3(4) by simp
  then obtain cont s1 t1 where s1: "deleteBalanceRight s this a = Some (cont, s1)"
    "zipper s1 this F R (d @ c) t1" "avl t1" "kvs t1 = kvs (Nd l a k v b t)"
    "height t1 + (if cont then 1 else 0) = ?h" by (auto simp: rebalanced_def)
  have step: "replace_rebalance s this a (int (length (FR l a k v b # d))) True =
      replace_rebalance s1 this (cpar (d @ c)) (int (length d)) cont"
    by (subst replace_rebalance.simps) (simp add: get s1(1))
  show ?case
  proof (cases cont)
    case True
    with s1 cd have "cavl d (Suc (height t1))" and h: "Suc (height t1) = ?h" by simp_all
    from 3(1) [OF s1(2) _ s1(3) this(1)] 3(3) obtain cont' s' t' where
      "replace_rebalance s1 this (cpar (d @ c)) (int (length d)) True = Some (cont', s')"
      "zipper s' this F R c t'" "avl t'" "kvs t' = kvs (plug d t1)"
      "height t' + (if cont' then 1 else 0) = cheight d (Suc (height t1))" by auto
    with step True h s1(4) show ?thesis
      by (intro exI [of _ cont'] exI [of _ s'] exI [of _ t']) simp
  next
    case False
    with s1(5) have h: "height t1 = ?h" by simp
    from s1(2) have "zipper s1 this F R c (plug d t1)" by (metis zipper_append)
    moreover from s1(3) cd h have "avl (plug d t1)" by (simp add: avl_plug)
    ultimately show ?thesis using step False h s1(4)
      by (intro exI [of _ False] exI [of _ s1] exI [of _ "plug d t1"]) (simp add: height_plug)
  qed
qed

lemma zipper_set_entry:
  assumes "zipper s this F R c (Nd l a k v b r)"
  shows "\<exists>s1 s2. set_key s a k' = Some s1 \<and> set_val s1 a v' = Some s2 \<and>
           zipper s1 this F R c (Nd l a k' v b r) \<and> zipper s2 this F R c (Nd l a k' v' b r)"
  using zipper_set_key [OF assms, of k'] by (metis zipper_set_val)

lemma replaceWithRightmost_ok:
  assumes z: "zipper s this F R c (Nd l p k v b r)" and l: "l \<noteq> Lf" "avl l"
  shows "\<exists>cont s' l' kx vx. replaceWithRightmost s this p = Some (cont, s') \<and>
           zipper s' this F R c (Nd l' p kx vx b r) \<and> avl l' \<and> kvs l = kvs l' @ [(kx, vx)] \<and>
           height l' + (if cont then 1 else 0) = height l"
proof -
  have zl: "zipper s this F R (FL p k v b r # c) l" using z by (simp add: zipper_FL)
  from replace_descend_ok [OF zl l(1), of 0] obtain d ml m mk mv mb where
    d: "l = plug d (Nd ml m mk mv mb Lf)" "right_spine d"
      "replace_descend s (ptr l) 0 = Some (m, int (length d))" by auto
  from zipper_set_entry [OF z, of mk mv] obtain s1 s2 where
    s12: "set_key s p mk = Some s1" "set_val s1 p mv = Some s2"
      "zipper s1 this F R c (Nd l p mk v b r)" "zipper s2 this F R c (Nd l p mk mv b r)" by blast
  have zm: "zipper s this F R (d @ FL p k v b r # c) (Nd ml m mk mv mb Lf)"
    using zl d(1) by (simp add: zipper_append)
  have zm1: "zipper s1 this F R (d @ FL p mk v b r # c) (Nd ml m mk mv mb Lf)"
    using s12(3) d(1) by (simp add: zipper_append zipper_FL)
  have zm2: "zipper s2 this F R (d @ FL p mk mv b r # c) (Nd ml m mk mv mb Lf)"
    using s12(4) d(1) by (simp add: zipper_append zipper_FL)
  obtain f c' where fc: "d @ FL p mk mv b r # c = f # c'" by (cases d) auto
  from unlink_rightmost [OF zm2 [unfolded fc]] obtain s3 where
    s3: "do {
      pr \<leftarrow> get_right s2 (frame_addr f);
      l' \<leftarrow> get_left s2 m;
      s \<leftarrow> (if pr = m then set_right s2 (frame_addr f) l' else set_left s2 (frame_addr f) l');
      s \<leftarrow> adopt s l' (frame_addr f);
      delete_node s m
    } = Some s3" and z3: "zipper s3 this F R (d @ FL p mk mv b r # c) ml" unfolding fc by blast
  have cp: "cpar (d @ FL p mk mv b r # c) = frame_addr f" unfolding fc by simp
  from l(2) d(1) have ml: "avl ml" and cd: "cavl d (Suc (height ml))"
    by (auto simp: avl_plug)
  from replace_rebalance_ok [OF z3 d(2) ml cd] obtain cont s' l' where
    s': "replace_rebalance s3 this (frame_addr f) (int (length d)) True = Some (cont, s')"
      "zipper s' this F R (FL p mk mv b r # c) l'" "avl l'" "kvs l' = kvs (plug d ml)"
      "height l' + (if cont then 1 else 0) = cheight d (Suc (height ml))" unfolding cp by blast
  have "replaceWithRightmost s this p = Some (cont, s')"
    using s3 s'(1)
    by (auto simp: replaceWithRightmost_def zipper_get [OF z] d(3) zipper_get [OF zm] s12
        zipper_get [OF zm1] zipper_get [OF zm2, unfolded cp] bind_eq_Some_conv)
  moreover have "height l = cheight d (Suc (height ml))" using d(1) by (simp add: height_plug)
  moreover have "kvs l = kvs l' @ [(mk, mv)]" using d s'(4) by simp
  ultimately show ?thesis using s' by (auto simp: zipper_FL)
qed

section \<open>Rebalancing up to the root\<close>

lemma erase_balance_ok:
  assumes z: "zipper s this F R (f # c) t" and a: "avl t" "cavl (f # c) (Suc (height t))"
    and d: "t = Lf \<longrightarrow> dir_ok d (f # c)"
  shows "\<exists>cont s' t'. erase_balance s this (frame_addr f) (ptr t) d = Some (cont, s') \<and>
           zipper s' this F R c t' \<and> avl t' \<and> t' \<noteq> Lf \<and> kvs t' = kvs (fill f t) \<and>
           cavl c (height t' + (if cont then 1 else 0)) \<and>
           height t' + (if cont then 1 else 0) = cheight [f] (Suc (height t))"
proof (cases f)
  case (FL p k v b r)
  from z FL have zp: "zipper s this F R c (Nd t p k v b r)" by (simp add: zipper_FL)
  note get = zipper_get [OF zp]
  have "rebalanced (deleteBalanceLeft s this p) this F R c (kvs (Nd t p k v b r))
          (Suc (max (Suc (height t)) (height r)))"
    using a FL by (intro deleteBalanceLeft_ok [OF zp]) auto
  moreover have "erase_balance s this p (ptr t) d = deleteBalanceLeft s this p"
    using get d FL zipper_ptr_NULL [OF z] by (auto simp: erase_balance_def)
  ultimately show ?thesis using a FL by (fastforce simp: rebalanced_def)
next
  case (FR l p k v b)
  from z FR have zp: "zipper s this F R c (Nd l p k v b t)" by (simp add: zipper_FR)
  note get = zipper_get [OF zp]
  have "rebalanced (deleteBalanceRight s this p) this F R c (kvs (Nd l p k v b t))
          (Suc (max (height l) (Suc (height t))))"
    using a FR by (intro deleteBalanceRight_ok [OF zp]) auto
  moreover have "t \<noteq> Lf \<Longrightarrow> ptr l \<noteq> ptr t"
    using zp by (cases l; cases t) (auto simp: zipper_def)
  then have "erase_balance s this p (ptr t) d = deleteBalanceRight s this p"
    using get d FR zipper_ptr_NULL [OF z] by (auto simp: erase_balance_def)
  ultimately show ?thesis using a FR by (fastforce simp: rebalanced_def)
qed

lemma erase_rebalance_False [simp]: "erase_rebalance s this p q d False = Some s"
  by (simp add: erase_rebalance.simps)

lemma erase_rebalance_NULL [simp]: "erase_rebalance s this NULL q d cont = Some s"
  by (simp add: erase_rebalance.simps)

lemma erase_rebalance_step:
  assumes z: "zipper s this F R (f # c) t"
    and e: "erase_balance s this (frame_addr f) (ptr t) d = Some (cont, s')"
    and z': "zipper s' this F R c t'" and t': "t' \<noteq> Lf" and c: "c \<noteq> []"
  shows "erase_rebalance s this (frame_addr f) (ptr t) d True =
           erase_rebalance s' this (cpar c) (ptr t') d cont"
proof -
  obtain g c' where g: "c = g # c'" using c by (cases c) auto
  have zf: "zipper s this F R c (fill f t)" using z by (simp add: zipper_fill)
  have f: "frame_addr f \<noteq> NULL" "get_parent s (frame_addr f) = Some (cpar c)"
    "ptr (fill f t) = frame_addr f"
    using zf by (cases f; simp add: zipper_get)+
  have zg: "zipper s this F R c' (fill g (fill f t))" "zipper s' this F R c' (fill g t')"
    using zf z' g by (simp_all add: zipper_fill)
  show ?thesis
  proof (cases g)
    case (FL p k v b r)
    with g zg zipper_get [OF zg(1) [unfolded FL, simplified]]
      zipper_get [OF zg(2) [unfolded FL, simplified]]
    show ?thesis by (subst erase_rebalance.simps) (simp add: f e)
  next
    case (FR l p k v b)
    have "ptr l \<noteq> frame_addr f"
      using zf g FR by (cases l; cases f) (auto simp: zipper_def)
    with g zg zipper_get [OF zg(1) [unfolded FR, simplified]]
      zipper_get [OF zg(2) [unfolded FR, simplified]] FR
    show ?thesis by (subst erase_rebalance.simps) (simp add: f e)
  qed
qed

lemma erase_rebalance_top:
  assumes z: "zipper s this F R [f] t"
    and e: "erase_balance s this (frame_addr f) (ptr t) d = Some (cont, s')"
  shows "erase_rebalance s this (frame_addr f) (ptr t) d True = Some s'"
proof -
  have "holds s this F R (fill f t)" using z by (simp add: zipper_fill)
  then have "frame_addr f \<noteq> NULL" "get_parent s (frame_addr f) = Some NULL"
    by (cases f; simp add: zipper_get)+
  with e show ?thesis by (subst erase_rebalance.simps) simp
qed

lemma erase_rebalance_ok:
  assumes "zipper s this F R c t" "avl t" "cavl c (height t + (if cont then 1 else 0))"
    "t = Lf \<longrightarrow> dir_ok d c"
  shows "\<exists>s' t'. erase_rebalance s this (cpar c) (ptr t) d cont = Some s' \<and>
           holds s' this F R t' \<and> avl t' \<and> kvs t' = kvs (plug c t) \<and>
           height t' \<le> cheight c (height t + (if cont then 1 else 0))"
  using assms
proof (induction c arbitrary: s t cont)
  case Nil
  then show ?case by auto
next
  case (Cons f c)
  show ?case
  proof (cases cont)
    case False
    with Cons.prems have "avl (plug (f # c) t)" "holds s this F R (plug (f # c) t)"
      by (simp_all only: avl_plug flip: zipper_plug) simp
    with False height_plug [of "f # c" t] show ?thesis by auto
  next
    case True
    with Cons.prems(3) have "cavl (f # c) (Suc (height t))" by simp
    from erase_balance_ok [OF Cons.prems(1,2) this Cons.prems(4)] obtain cont' s1 t1 where
      s1: "erase_balance s this (frame_addr f) (ptr t) d = Some (cont', s1)"
        "zipper s1 this F R c t1" "avl t1" "t1 \<noteq> Lf" "kvs t1 = kvs (fill f t)"
        "cavl c (height t1 + (if cont' then 1 else 0))"
        "height t1 + (if cont' then 1 else 0) = cheight [f] (Suc (height t))" by blast
    have ch: "cheight (f # c) (Suc (height t)) = cheight c (height t1 + (if cont' then 1 else 0))"
      unfolding s1(7) by (cases f) auto
    show ?thesis
    proof (cases "c = []")
      case True
      with erase_rebalance_top [OF Cons.prems(1) [unfolded True] s1(1)] \<open>cont\<close> s1(2,3,5) ch
      show ?thesis by auto
    next
      case False
      from Cons.IH [OF s1(2,3,6)] s1(4) obtain s' t' where
        "erase_rebalance s1 this (cpar c) (ptr t1) d cont' = Some s'"
        "holds s' this F R t'" "avl t'" "kvs t' = kvs (plug c t1)"
        "height t' \<le> cheight c (height t1 + (if cont' then 1 else 0))" by blast
      with erase_rebalance_step [OF Cons.prems(1) s1(1,2,4) False] \<open>cont\<close> s1(5) ch show ?thesis
        by auto
    qed
  qed
qed

section \<open>erase\<close>

text \<open>What unlinking promises to the rebalancing loop.\<close>

definition unlinked :: "(bool \<times> addr \<times> addr \<times> bool \<times> avl_mem) option \<Rightarrow> addr
    \<Rightarrow> (addr \<Rightarrow> int pnode option) \<Rightarrow> (addr \<Rightarrow> addr option) \<Rightarrow> kv_list \<Rightarrow> nat \<Rightarrow> bool" where
  "unlinked res this F R xs h \<longleftrightarrow> (\<exists>cont d s' c' t'.
     res = Some (cont, cpar c', ptr t', d, s') \<and> zipper s' this F R c' t' \<and> avl t' \<and>
     cavl c' (height t' + (if cont then 1 else 0)) \<and> (t' = Lf \<longrightarrow> dir_ok d c') \<and>
     kvs (plug c' t') = xs \<and> cheight c' (height t' + (if cont then 1 else 0)) = h)"

lemma unlinkedI:
  "res = Some (cont, cpar c', ptr t', d, s') \<Longrightarrow> zipper s' this F R c' t' \<Longrightarrow> avl t' \<Longrightarrow>
     cavl c' (height t' + (if cont then 1 else 0)) \<Longrightarrow> (t' = Lf \<Longrightarrow> dir_ok d c') \<Longrightarrow>
     kvs (plug c' t') = xs \<Longrightarrow> cheight c' (height t' + (if cont then 1 else 0)) = h \<Longrightarrow>
     unlinked res this F R xs h"
  unfolding unlinked_def by blast

lemma erase_unlink_inner:
  assumes z: "zipper s this F R c (Nd l p k v b r)" and n: "l \<noteq> Lf" "r \<noteq> Lf"
    and a: "avl (Nd l p k v b r)" "cavl c (height (Nd l p k v b r))" and d: "dir_ok d c"
  shows "unlinked (erase_unlink s this (cpar c) p d) this F R (cleft c @ kvs l @ kvs r @ cright c)
    (cheight c (height (Nd l p k v b r)))"
proof -
  from a(1) have al: "avl l" by simp
  from replaceWithRightmost_ok [OF z n(1) al] obtain cont s' l' kx vx where
    s': "replaceWithRightmost s this p = Some (cont, s')"
      "zipper s' this F R c (Nd l' p kx vx b r)" "avl l'" "kvs l = kvs l' @ [(kx, vx)]"
      "height l' + (if cont then 1 else 0) = height l" by blast
  have lr: "ptr l \<noteq> NULL" "ptr r \<noteq> NULL"
    using z n by (auto simp: zipper_def ptr_NULL_iff)
  note get = zipper_get [OF z] zipper_get [OF s'(2)]
  have res: "erase_unlink s this (cpar c) p d = Some (cont, p, ptr l', True, s')"
  proof (cases c rule: ctx_cases)
    case 1
    with z get s' lr d zipper_get_root [OF s'(2)] show ?thesis by (auto simp: erase_unlink_def)
  next
    case (2 q kq vq bq rq cq)
    from z s'(2) have zq: "zipper s this F R cq (Nd (Nd l p k v b r) q kq vq bq rq)"
      "zipper s' this F R cq (Nd (Nd l' p kx vx b r) q kq vq bq rq)"
      unfolding 2 by (simp_all add: zipper_FL)
    from get s' lr zipper_get [OF zq(1)] zipper_get [OF zq(2)] show ?thesis
      unfolding 2 by (simp add: erase_unlink_def)
  next
    case (3 lq q kq vq bq cq)
    from z s'(2) have zq: "zipper s this F R cq (Nd lq q kq vq bq (Nd l p k v b r))"
      "zipper s' this F R cq (Nd lq q kq vq bq (Nd l' p kx vx b r))"
      unfolding 3 by (simp_all add: zipper_FR)
    moreover from zq(1) have "ptr lq \<noteq> p" by (cases lq) (auto simp: zipper_def)
    ultimately show ?thesis using get s' lr zipper_get [OF zq(1)] zipper_get [OF zq(2)]
      unfolding 3 by (simp add: erase_unlink_def)
  qed
  show ?thesis
    by (rule unlinkedI [where c' = "FL p kx vx b r # c" and t' = l' and d = True]) (use a s' res in \<open>auto simp: zipper_FL split: if_splits\<close>)
qed

lemma erase_unlink_ok:
  assumes z: "zipper s this F R c (Nd l p k v b r)"
    and a: "avl (Nd l p k v b r)" "cavl c (height (Nd l p k v b r))" and d: "dir_ok d c"
  shows "unlinked (erase_unlink s this (cpar c) p d) this F R (cleft c @ kvs l @ kvs r @ cright c)
    (cheight c (height (Nd l p k v b r)))"
proof -
  note get = zipper_get [OF z]
  consider "l = Lf" | "l \<noteq> Lf" "r = Lf" | "l \<noteq> Lf" "r \<noteq> Lf" by blast
  then show ?thesis
  proof cases
    case 1
    from erase_splice_right [OF z [unfolded 1] d] obtain s' where
      "erase_splice s this (cpar c) d p (ptr r) = Some s'" and z': "zipper s' this F R c r" by blast
    with get 1 have "erase_unlink s this (cpar c) p d = Some (True, cpar c, ptr r, d, s')"
      by (simp add: erase_unlink_def)
    then show ?thesis by (rule unlinkedI [OF _ z']) (use a 1 d in auto)
  next
    case 2
    from erase_splice_left [OF z [unfolded 2] d] obtain s' where
      "erase_splice s this (cpar c) d p (ptr l) = Some s'" and z': "zipper s' this F R c l" by blast
    moreover have "ptr l \<noteq> NULL" using z 2 by (auto simp: zipper_def ptr_NULL_iff)
    ultimately have "erase_unlink s this (cpar c) p d = Some (True, cpar c, ptr l, d, s')"
      using get 2 by (simp add: erase_unlink_def)
    then show ?thesis by (rule unlinkedI [OF _ z']) (use a 2 d in auto)
  next
    case 3
    then show ?thesis using erase_unlink_inner [OF z _ _ a d] by blast
  qed
qed

lemma avl_erase_tree:
  assumes t: "holds s this F R t" "avl t" "sorted_kvs (kvs t)"
  shows "\<exists>s' t'. avl_erase s this k = Some (lookup_kv (kvs t) k, s') \<and> holds s' this F R t' \<and>
     avl t' \<and> kvs t' = del_kv k (kvs t) \<and> height t' \<le> height t"
proof -
  obtain c' t' where l: "locate k [] t = (c', t')" by force
  from locate_plug [OF l] have p: "plug c' t' = t" by simp
  have z: "zipper s this F R c' t'" using t(1) p by (metis zipper_plug)
  from erase_search_locate [OF t(1) l, of True] obtain d where
    d: "erase_search s k (ptr t) True = Some (ptr t', d)" "dir_ok d c'" by auto
  note root = zipper_get_root [OF t(1)]
  note lk = locate_lookup [OF l] locate_bounds [OF l]
  show ?thesis
  proof (cases t')
    case Lf
    have "lookup_kv (kvs t) k = NO_VALUE" "del_kv k (kvs t) = kvs t"
      using lk Lf t locate_plug [OF l] kvs_plug [of c' t'] by (simp_all add: kv_simps)
    with t root d Lf show ?thesis by (auto simp: avl_erase_def)
  next
    case (Nd l a k' v b r)
    note z = z [unfolded Nd]
    note get = zipper_get [OF z]
    from t(2) p have a: "avl (Nd l a k' v b r)" "cavl c' (height (Nd l a k' v b r))"
      using Nd by (auto simp: avl_plug)
    have xs: "kvs t = cleft c' @ kvs l @ (k', v) # kvs r @ cright c'"
      using p Nd by auto
    have k: "k' = k" using locate_end [OF l] Nd by simp
    from erase_unlink_ok [OF z a d(2)] obtain cont d' s1 c1 t1 where
      s1: "erase_unlink s this (cpar c') a d = Some (cont, cpar c1, ptr t1, d', s1)"
        "zipper s1 this F R c1 t1" "avl t1" "cavl c1 (height t1 + (if cont then 1 else 0))"
        "t1 = Lf \<longrightarrow> dir_ok d' c1" "kvs (plug c1 t1) = cleft c' @ kvs l @ kvs r @ cright c'"
        "cheight c1 (height t1 + (if cont then 1 else 0)) = cheight c' (height (Nd l a k' v b r))"
      unfolding unlinked_def by blast
    from erase_rebalance_ok [OF s1(2-5)] obtain s' t2 where
      s': "erase_rebalance s1 this (cpar c1) (ptr t1) d' cont = Some s'"
        "holds s' this F R t2" "avl t2" "kvs t2 = kvs (plug c1 t1)"
        "height t2 \<le> cheight c1 (height t1 + (if cont then 1 else 0))" by blast
    have "del_kv k (kvs t) = cleft c' @ kvs l @ kvs r @ cright c'" "lookup_kv (kvs t) k = v"
      using t(3) unfolding xs k by (auto simp: kv_simps)
    moreover have "avl_erase s this k = Some (v, s')"
      using root d Nd get s1 s' by (simp add: avl_erase_def)
    moreover have "height t2 \<le> height t"
      using s'(5) s1(7) height_plug [of c' t'] p Nd by simp
    ultimately show ?thesis using s' s1(6) by auto
  qed
qed

lemma avl_erase_rep:
  assumes "avl_rep s this F R xs"
  shows "\<exists>s'. avl_erase s this k = Some (lookup_kv xs k, s') \<and> avl_rep s' this F R (del_kv k xs)"
proof -
  from assms obtain t where "holds s this F R t" "avl t" "kvs t = xs" "sorted_kvs xs"
    by (rule avl_repE)
  with avl_erase_tree [of s this F R t k] sorted_del_kv [of xs k] show ?thesis
    unfolding avl_rep_def by blast
qed

end
