(* ===== verification/Tree_Objects.thy ===== *)
theory Tree_Objects
  imports Ptr_Tree
begin

text \<open>
  Several tree objects in one memory. The addresses of the trees of the objects \<open>X\<close> are \<open>owned T X\<close>. \<open>objects s G T\<close>: the tree objects of \<open>s\<close> are the domain
  of \<open>T\<close>, each of them holds the tree that \<open>T\<close> gives, no two share a node, and the store is \<open>G\<close>
  at the addresses that belong to no tree (\<open>G\<close> is empty when no node is leaked).
\<close>

definition owned :: "(addr \<Rightarrow> 'b ptree option) \<Rightarrow> addr set \<Rightarrow> addr set" where
  "owned T X = {a. \<exists>x t. x \<in> X \<and> T x = Some t \<and> a \<in> set (addrs t)}"

definition objects :: "('b, 'z) mem_scheme \<Rightarrow> (addr \<Rightarrow> 'b pnode option)
    \<Rightarrow> (addr \<Rightarrow> 'b ptree option) \<Rightarrow> bool" where
  "objects s G T \<longleftrightarrow>
     roots s = (\<lambda>x. map_option ptr (T x)) \<and> NULL < brk s \<and>
     (\<forall>x t. T x = Some t \<longrightarrow> x \<noteq> NULL \<and> x < brk s \<and> tree (hp s) NULL t \<and> distinct (addrs t)) \<and>
     (\<forall>x y t u. T x = Some t \<longrightarrow> T y = Some u \<longrightarrow> x \<noteq> y \<longrightarrow> set (addrs t) \<inter> set (addrs u) = {}) \<and>
     owns (hp s) (brk s) G (owned T UNIV)"

lemma owned_iff: "a \<in> owned T X \<longleftrightarrow> (\<exists>x t. x \<in> X \<and> T x = Some t \<and> a \<in> set (addrs t))"
  by (simp add: owned_def)

lemma owned_split: "owned T UNIV = owned T X \<union> owned T (- X)"
  unfolding owned_def by blast

lemma owned_upd: "owned (T(x \<mapsto> t)) X = (if x \<in> X then set (addrs t) else {}) \<union> owned T (X - {x})"
  unfolding owned_def by (auto split: if_splits)

lemma owned_remove: "T x = None \<Longrightarrow> owned T (X - {x}) = owned T X"
  unfolding owned_def by auto

lemma owned_empty [simp]: "owned T {} = {}"
  by (simp add: owned_def)

lemma owned_insert:
  "owned T (insert x X) = (case T x of None \<Rightarrow> {} | Some t \<Rightarrow> set (addrs t)) \<union> owned T X"
  unfolding owned_def by (auto split: option.splits)

lemma objects_empty: "objects empty_mem (\<lambda>_. None) (\<lambda>_. None)"
  by (simp add: objects_def empty_mem_def owns_def owned_def NULL_def)

lemma objectsD:
  assumes "objects s G T" "T x = Some t"
  shows "x \<noteq> NULL" "x < brk s" "tree (hp s) NULL t" "distinct (addrs t)" "roots s x = Some (ptr t)"
    "\<And>a. a \<in> set (addrs t) \<Longrightarrow> a \<noteq> NULL \<and> a < brk s \<and> G a = None"
proof -
  from assms show "x \<noteq> NULL" "x < brk s" "tree (hp s) NULL t" "distinct (addrs t)"
    "roots s x = Some (ptr t)"
    unfolding objects_def by simp_all
  show "a \<noteq> NULL \<and> a < brk s \<and> G a = None" if "a \<in> set (addrs t)" for a
    using assms that unfolding objects_def owns_def owned_def by blast
qed

lemma objects_disjoint:
  "objects s G T \<Longrightarrow> T x = Some t \<Longrightarrow> T y = Some u \<Longrightarrow> x \<noteq> y \<Longrightarrow> set (addrs t) \<inter> set (addrs u) = {}"
  unfolding objects_def by blast

lemma objects_brk: "objects s G T \<Longrightarrow> NULL < brk s"
  by (simp add: objects_def)

lemma objects_below:
  assumes "objects s G T"
  shows "hp s a \<noteq> None \<Longrightarrow> a \<noteq> NULL \<and> a < brk s" "roots s a \<noteq> None \<Longrightarrow> a \<noteq> NULL \<and> a < brk s"
proof -
  show "a \<noteq> NULL \<and> a < brk s" if "hp s a \<noteq> None"
    using assms that unfolding objects_def owns_def by metis
  show "a \<noteq> NULL \<and> a < brk s" if "roots s a \<noteq> None"
    using assms that unfolding objects_def by auto
qed

text \<open>Counting nodes: in a memory without leaks, those of the objects are all there are.\<close>

lemma objects_dom: "objects s (\<lambda>_. None) T \<Longrightarrow> dom (hp s) = owned T UNIV"
proof
  assume ob: "objects s (\<lambda>_. None) T"
  then show "dom (hp s) \<subseteq> owned T UNIV" unfolding objects_def owns_def by fastforce
  show "owned T UNIV \<subseteq> dom (hp s)"
    using tree_in_dom objectsD(3) [OF ob] unfolding owned_def by fastforce
qed

lemma card_owned_insert:
  assumes ob: "objects s G T" and x: "T x = Some t" "x \<notin> X"
  shows "card (owned T (insert x X)) = length (kvs t) + card (owned T X)"
proof -
  have "owned T X \<subseteq> {..<brk s}" using objectsD(6) [OF ob] by (auto simp: owned_def)
  then have "finite (owned T X)" by (rule finite_subset) simp
  moreover have "set (addrs t) \<inter> owned T X = {}"
    using objects_disjoint [OF ob x(1)] x(2) unfolding owned_def by blast
  ultimately show ?thesis
    using x(1) distinct_card [OF objectsD(4) [OF ob x(1)]]
    by (simp add: owned_insert card_Un_disjoint length_addrs)
qed

text \<open>Looking at one object: all others are its frame.\<close>

lemma objects_focus:
  assumes "objects s G T" "T x = Some t"
  shows "holds s x (hp s |` (- set (addrs t))) ((roots s)(x := None)) t"
proof -
  have "roots s = ((roots s)(x := None))(x \<mapsto> ptr t)"
    using objectsD(5) [OF assms] by (metis fun_upd_triv fun_upd_upd)
  moreover have "owns (hp s) (brk s) (hp s |` (- set (addrs t))) (set (addrs t))"
    using objectsD(6) [OF assms] objects_below(1) [OF assms(1)]
    unfolding owns_def restrict_map_def by simp
  moreover have "objs_below ((roots s)(x := None)) x (brk s)"
    using objectsD(1,2) [OF assms] objects_below(2) [OF assms(1)] objects_brk [OF assms(1)]
    unfolding objs_below_def by simp
  ultimately show ?thesis
    using objectsD(3,4) [OF assms]
    unfolding zipper_def croot.simps cpar.simps caddrs.simps ctree.simps append_Nil2 by blast
qed

text \<open>
  Replacing the trees of the objects \<open>X\<close>: the new ones only have to be apart from each other
  and from the rest of the store.
\<close>

lemma objects_replace:
  assumes ob: "objects s G T"
    and rest: "\<And>x. x \<notin> X \<Longrightarrow> T' x = T x"
    and roots: "roots s' = (\<lambda>x. map_option ptr (T' x))"
    and below: "NULL < brk s'" "\<And>x t. T' x = Some t \<Longrightarrow> x \<noteq> NULL \<and> x < brk s'"
    and new: "\<And>x t. x \<in> X \<Longrightarrow> T' x = Some t \<Longrightarrow> tree (hp s') NULL t \<and> distinct (addrs t)"
    and disj: "\<And>x y t u. x \<in> X \<Longrightarrow> y \<in> X \<Longrightarrow> T' x = Some t \<Longrightarrow> T' y = Some u \<Longrightarrow> x \<noteq> y \<Longrightarrow>
        set (addrs t) \<inter> set (addrs u) = {}"
    and owns: "owns (hp s') (brk s') (hp s |` (- owned T X)) (owned T' X)"
  shows "objects s' G T'"
proof -
  have frame: "hp s' a = hp s a \<and> a \<notin> owned T' X \<and> a \<noteq> NULL \<and> a < brk s'"
    if "hp s a \<noteq> None" "a \<notin> owned T X" for a
  proof -
    from that have "(hp s |` (- owned T X)) a = hp s a" "(hp s |` (- owned T X)) a \<noteq> None"
      by simp_all
    then show ?thesis using ownsD [OF owns, of a] by metis
  qed
  have keep: "hp s' a = hp s a \<and> a \<notin> owned T' X \<and> a \<noteq> NULL \<and> a < brk s'" if "a \<in> owned T (- X)" for a
  proof -
    from that obtain x t where x: "x \<notin> X" "T x = Some t" "a \<in> set (addrs t)" by (auto simp: owned_iff)
    then have "a \<notin> owned T X" using objects_disjoint [OF ob x(2)] unfolding owned_iff by blast
    moreover have "hp s a \<noteq> None" using tree_in_dom objectsD(3) [OF ob x(2)] x(3) by metis
    ultimately show ?thesis using frame by blast
  qed
  have keep_t: "hp s' a = hp s a \<and> a \<notin> owned T' X" if "T x = Some t" "x \<notin> X" "a \<in> set (addrs t)" for x t a
    using keep [of a] that by (auto simp: owned_iff)
  have old: "tree (hp s') NULL t \<and> distinct (addrs t)" if "T x = Some t" "x \<notin> X" for x t
    using that objectsD(3,4) [OF ob that(1)] keep_t [OF that] tree_cong [of t "hp s" "hp s'"] by auto
  have dis: "set (addrs t) \<inter> set (addrs u) = {}"
    if "T' x = Some t" "T' y = Some u" "x \<noteq> y" for x y t u
  proof -
    consider "x \<in> X" "y \<in> X" | "x \<in> X" "y \<notin> X" | "x \<notin> X" "y \<in> X" | "x \<notin> X" "y \<notin> X" by blast
    then show ?thesis
    proof cases
      case 1
      then show ?thesis using disj that by blast
    next
      case 2
      then show ?thesis using keep_t [of y u] rest that unfolding owned_iff by fastforce
    next
      case 3
      then show ?thesis using keep_t [of x t] rest that unfolding owned_iff by fastforce
    next
      case 4
      then show ?thesis using objects_disjoint [OF ob] rest that by simp
    qed
  qed
  have un: "owned T' UNIV = owned T' X \<union> owned T (- X)"
    using rest unfolding owned_split [of T' X] by (auto simp: owned_def)
  have o1: "owns (hp s) (brk s) G (owned T X \<union> owned T (- X))"
    using ob unfolding objects_def owned_split [of T X] by blast
  have G: "a \<notin> owned T' X \<union> owned T (- X) \<and> a \<noteq> NULL \<and> a < brk s'" if "G a \<noteq> None" for a
  proof -
    from that have "a \<notin> owned T X \<union> owned T (- X)" using ownsD(2) [OF o1, of a] by metis
    with that have "a \<notin> owned T X" "a \<notin> owned T (- X)" "hp s a \<noteq> None"
      using ownsD(1) [OF o1, of a] by auto
    then show ?thesis using frame [of a] by blast
  qed
  have "hp s' a = G a" if "a \<notin> owned T' X" "a \<notin> owned T (- X)" for a
    using that ownsD(1,2) [OF o1, of a] ownsD(1) [OF owns, of a] unfolding restrict_map_def
    by (cases "a \<in> owned T X") auto
  then have "owns (hp s') (brk s') G (owned T' UNIV)"
    using G keep ownsD(2) [OF owns] unfolding un owns_def by blast
  moreover have "\<forall>x t. T' x = Some t \<longrightarrow>
      x \<noteq> NULL \<and> x < brk s' \<and> tree (hp s') NULL t \<and> distinct (addrs t)"
    using new old rest below(2) by metis
  ultimately show ?thesis unfolding objects_def
    using roots dis below(1) by blast
qed

lemma objects_update:
  assumes ob: "objects s G T" "T x = Some t"
    and h: "holds s' x (hp s |` (- set (addrs t))) ((roots s)(x := None)) t'"
  shows "objects s' G (T(x \<mapsto> t'))"
proof (rule objects_replace [OF ob(1), where X = "{x}"])
  have r: "roots s = (\<lambda>x. map_option ptr (T x))" using ob(1) unfolding objects_def by blast
  show "roots s' = (\<lambda>y. map_option ptr ((T(x \<mapsto> t')) y))"
    using h unfolding zipper_def r by (auto simp: fun_eq_iff)
  have b: "objs_below ((roots s)(x := None)) x (brk s')" using h by (simp add: zipper_def)
  show "NULL < brk s'" using b by (simp add: objs_below_def)
  show "y \<noteq> NULL \<and> y < brk s'" if "(T(x \<mapsto> t')) y = Some u" for y u
  proof (cases "y = x")
    case True
    then show ?thesis using b by (simp add: objs_below_def)
  next
    case False
    with that have "((roots s)(x := None)) y \<noteq> None" by (simp add: r)
    then show ?thesis using b unfolding objs_below_def by blast
  qed
  have "owned T {x} = set (addrs t)" "owned (T(x \<mapsto> t')) {x} = set (addrs t')"
    using ob(2) by (auto simp: owned_def)
  then show "owns (hp s') (brk s') (hp s |` (- owned T {x})) (owned (T(x \<mapsto> t')) {x})"
    using h by (simp add: zipper_def)
qed (use h in \<open>auto simp: zipper_def\<close>)

lemma objects_new_tree:
  assumes ob: "objects s G T" and n: "new_tree s = (x, s')"
  shows "objects s' G (T(x \<mapsto> Lf)) \<and> T x = None"
proof -
  have x: "x = brk s" and s': "s' = s\<lparr>roots := (roots s)(brk s \<mapsto> NULL), brk := brk s + 1\<rparr>"
    using n by (auto simp: new_tree_def)
  have r: "roots s = (\<lambda>x. map_option ptr (T x))" using ob(1) unfolding objects_def by blast
  have T: "T x = None"
    using objects_below(2) [OF ob, of x] unfolding r x by (cases "T (brk s)") auto
  have "roots s' = (\<lambda>y. map_option ptr ((T(x \<mapsto> Lf)) y))"
    unfolding s' x using r by (auto simp: fun_eq_iff)
  moreover have "owns (hp s') (brk s') G (owned (T(x \<mapsto> Lf)) UNIV)"
  proof -
    have "owned (T(x \<mapsto> Lf)) UNIV = owned T UNIV" using T by (simp add: owned_upd owned_remove)
    moreover have "owns (hp s) (brk s) G (owned T UNIV)" using ob unfolding objects_def by blast
    ultimately show ?thesis unfolding s' owns_def by fastforce
  qed
  moreover have "y \<noteq> NULL \<and> y < brk s' \<and> tree (hp s') NULL t \<and> distinct (addrs t)"
    if "(T(x \<mapsto> Lf)) y = Some t" for y t
    using that objectsD(1-4) [OF ob, of y t] objects_brk [OF ob] unfolding s' x
    by (auto split: if_splits)
  moreover have "set (addrs t) \<inter> set (addrs u) = {}"
    if "(T(x \<mapsto> Lf)) y = Some t" "(T(x \<mapsto> Lf)) z = Some u" "y \<noteq> z" for y z t u
    using that objects_disjoint [OF ob] by (auto split: if_splits)
  moreover have "NULL < brk s'" using objects_brk [OF ob] by (simp add: s')
  ultimately show ?thesis using T unfolding objects_def by blast
qed

lemma objects_join:
  assumes ob: "objects s G T" and T: "T x = Some t" "T y = Some u" "T z = Some Lf"
    and ne: "x \<noteq> y" "x \<noteq> z" "y \<noteq> z"
    and h: "holds s' z (hp s |` (- (set (addrs t) \<union> set (addrs u))))
      ((roots s)(z := None, x \<mapsto> NULL, y \<mapsto> NULL)) t'"
  shows "objects s' G (T(x \<mapsto> Lf, y \<mapsto> Lf, z \<mapsto> t'))"
proof (rule objects_replace [OF ob, where X = "{x, y, z}"])
  let ?T = "T(x \<mapsto> Lf, y \<mapsto> Lf, z \<mapsto> t')"
  have r: "roots s = (\<lambda>x. map_option ptr (T x))" using ob unfolding objects_def by blast
  show roots: "roots s' = (\<lambda>y. map_option ptr (?T y))"
    using h ne unfolding zipper_def r by (auto simp: fun_eq_iff)
  have b: "objs_below ((roots s)(z := None, x \<mapsto> NULL, y \<mapsto> NULL)) z (brk s')"
    using h by (simp add: zipper_def)
  show "NULL < brk s'" using b by (simp add: objs_below_def)
  show "w \<noteq> NULL \<and> w < brk s'" if "?T w = Some v" for w v
  proof (cases "w = z")
    case True
    then show ?thesis using b by (simp add: objs_below_def)
  next
    case False
    with that have "((roots s)(z := None, x \<mapsto> NULL, y \<mapsto> NULL)) w \<noteq> None"
      by (auto simp: r split: if_splits)
    then show ?thesis using b unfolding objs_below_def by blast
  qed
  have "owned T {x, y, z} = set (addrs t) \<union> set (addrs u)" "owned ?T {x, y, z} = set (addrs t')"
    using T ne by (auto simp: owned_def)
  then show "owns (hp s') (brk s') (hp s |` (- owned T {x, y, z})) (owned ?T {x, y, z})"
    using h by (simp add: zipper_def)
  show "tree (hp s') NULL v \<and> distinct (addrs v)" if "w \<in> {x, y, z}" "?T w = Some v" for w v
    using that h by (auto simp: zipper_def split: if_splits)
  show "set (addrs v) \<inter> set (addrs v') = {}"
    if "w \<in> {x, y, z}" "w' \<in> {x, y, z}" "?T w = Some v" "?T w' = Some v'" "w \<noteq> w'" for w w' v v'
    using that by (auto split: if_splits)
qed simp

lemma objects_new_node:
  assumes ob: "objects s G T" and n: "new_node s n = (x, s')"
  shows "objects s' (G(x \<mapsto> n)) T" "G x = None" "hp s x = None"
proof -
  have x: "x = brk s" and s': "s' = s\<lparr>hp := (hp s)(brk s \<mapsto> n), brk := brk s + 1\<rparr>"
    using n by (auto simp: new_node_def)
  have o1: "owns (hp s) (brk s) G (owned T UNIV)" using ob unfolding objects_def by blast
  have xo: "x \<notin> owned T UNIV" using ownsD(2) [OF o1, of x] x by blast
  show hx: "hp s x = None" using objects_below(1) [OF ob, of x] x by blast
  show G: "G x = None" using ownsD(3) [OF o1, of x] x by blast
  have "hp s' a = (G(x \<mapsto> n)) a" if "a \<notin> owned T UNIV" for a
    using ownsD(1) [OF o1 that] by (simp add: s' x)
  moreover have "(G(x \<mapsto> n)) a = None \<and> a \<noteq> NULL \<and> a < brk s'" if "a \<in> owned T UNIV" for a
    using ownsD(2) [OF o1 that] xo that by (auto simp: s')
  moreover have "a \<noteq> NULL \<and> a < brk s'" if "(G(x \<mapsto> n)) a \<noteq> None" for a
    using that ownsD(3) [OF o1, of a] objects_brk [OF ob] by (auto simp: s' x split: if_splits)
  ultimately have "owns (hp s') (brk s') (G(x \<mapsto> n)) (owned T UNIV)" unfolding owns_def by blast
  moreover have "y \<noteq> NULL \<and> y < brk s' \<and> tree (hp s') NULL t \<and> distinct (addrs t)" if "T y = Some t" for y t
  proof -
    have "x \<notin> set (addrs t)" using xo that by (auto simp: owned_iff)
    then show ?thesis using objectsD(1-4) [OF ob that] by (simp add: s' x)
  qed
  moreover have "roots s' = (\<lambda>x. map_option ptr (T x))" using ob unfolding objects_def s' by simp
  moreover have "NULL < brk s'" using objects_brk [OF ob] by (simp add: s')
  ultimately show "objects s' (G(x \<mapsto> n)) T"
    using objects_disjoint [OF ob] unfolding objects_def by blast
qed

lemma objects_move:
  assumes ob: "objects s G T" and T: "T x = Some t" "T z = Some Lf" and ne: "x \<noteq> z"
  shows "objects (s\<lparr>roots := (roots s)(z \<mapsto> ptr t, x \<mapsto> NULL)\<rparr>) G (T(z \<mapsto> t, x \<mapsto> Lf))"
proof (rule objects_replace [OF ob, where X = "{x, z}"])
  let ?T = "T(z \<mapsto> t, x \<mapsto> Lf)" and ?s = "s\<lparr>roots := (roots s)(z \<mapsto> ptr t, x \<mapsto> NULL)\<rparr>"
  have r: "roots s = (\<lambda>x. map_option ptr (T x))" using ob unfolding objects_def by blast
  show "roots ?s = (\<lambda>y. map_option ptr (?T y))" using ne by (auto simp: r fun_eq_iff)
  show "NULL < brk ?s" using objects_brk [OF ob] by simp
  show "w \<noteq> NULL \<and> w < brk ?s" if "?T w = Some v" for w v
    using that T objectsD(1,2) [OF ob] by (auto split: if_splits)
  have "owned T {x, z} = set (addrs t)" "owned ?T {x, z} = set (addrs t)"
    using T ne by (auto simp: owned_def)
  then show "owns (hp ?s) (brk ?s) (hp s |` (- owned T {x, z})) (owned ?T {x, z})"
    using objects_focus [OF ob T(1)] by (simp add: zipper_def)
  show "tree (hp ?s) NULL v \<and> distinct (addrs v)" if "w \<in> {x, z}" "?T w = Some v" for w v
    using that objectsD(3,4) [OF ob T(1)] by (auto split: if_splits)
  show "set (addrs v) \<inter> set (addrs v') = {}"
    if "w \<in> {x, z}" "w' \<in> {x, z}" "?T w = Some v" "?T w' = Some v'" "w \<noteq> w'" for w w' v v'
    using that by (auto split: if_splits)
qed simp

end
