(* ===== verification/AVL_Join.thy ===== *)
theory AVL_Join
  imports AVL_Erase Tree_Objects
begin

text \<open>
  Joining AVL trees: the computed height is the height, the search along the spine of the
  taller tree ends where the lower tree fits, and the result is an AVL tree over the
  concatenation of the contents.
\<close>

section \<open>Height, least and greatest key\<close>

lemma computeHeight_loop_ok:
  assumes "zipper s this F R c t" "avl t" "t \<noteq> Lf"
  shows "computeHeight_loop s (ptr t) h = Some (h + int (height t) - 1)"
  using assms
proof (induction t arbitrary: c h)
  case (Nd l a k v b r)
  note get = zipper_get [OF Nd(3)]
  have zl: "zipper s this F R (FL a k v b r # c) l" and zr: "zipper s this F R (FR l a k v b # c) r"
    using Nd(3) by (simp_all add: zipper_FL zipper_FR)
  note N = zipper_ptr_NULL [OF zl] zipper_ptr_NULL [OF zr]
  consider "l = Lf" "r = Lf" | "b = -1" "l \<noteq> Lf" | "b \<noteq> -1" "r \<noteq> Lf"
    using Nd(4) by (cases l; cases r) auto
  then show ?case
  proof cases
    case 1
    with get show ?thesis by (subst computeHeight_loop.simps) simp
  next
    case 2
    then show ?thesis using get N Nd(1) [OF zl, of "h + 1"] Nd(4)
      by (subst computeHeight_loop.simps) auto
  next
    case 3
    then show ?thesis using get N Nd(2) [OF zr, of "h + 1"] Nd(4)
      by (subst computeHeight_loop.simps) auto
  qed
qed simp

lemma computeHeight_ok:
  assumes "holds s this F R t" "avl t"
  shows "computeHeight s this = Some (int (height t))"
  using computeHeight_loop_ok [OF assms, of 1] zipper_get_root [OF assms(1)]
    zipper_ptr_NULL [OF assms(1)]
  by (cases t) (auto simp: computeHeight_def)

lemma leftmost_ok:
  assumes "zipper s this F R c t" "t \<noteq> Lf"
  shows "\<exists>a. leftmost s (ptr t) = Some a \<and> a \<noteq> NULL \<and> get_key s a = Some (fst (hd (kvs t))) \<and>
           get_val s a = Some (snd (hd (kvs t)))"
  using assms
proof (induction t arbitrary: c)
  case (Nd l a k v b r)
  note get = zipper_get [OF Nd(3)]
  have zl: "zipper s this F R (FL a k v b r # c) l" using Nd(3) by (simp add: zipper_FL)
  have ne: "l \<noteq> Lf \<Longrightarrow> kvs l \<noteq> []" by (cases l) auto
  show ?case using get zipper_ptr_NULL [OF zl] Nd(1) [OF zl] ne
    by (subst leftmost.simps) (cases "l = Lf"; auto)
qed simp

lemma rightmost_ok:
  assumes "zipper s this F R c t" "t \<noteq> Lf"
  shows "\<exists>a. rightmost s (ptr t) = Some a \<and> a \<noteq> NULL \<and> get_key s a = Some (fst (last (kvs t))) \<and>
           get_val s a = Some (snd (last (kvs t)))"
  using assms
proof (induction t arbitrary: c)
  case (Nd l a k v b r)
  note get = zipper_get [OF Nd(3)]
  have zr: "zipper s this F R (FR l a k v b # c) r" using Nd(3) by (simp add: zipper_FR)
  have ne: "r \<noteq> Lf \<Longrightarrow> kvs r \<noteq> []" by (cases r) auto
  show ?case using get zipper_ptr_NULL [OF zr] Nd(2) [OF zr] ne
    by (subst rightmost.simps) (cases "r = Lf"; auto)
qed simp

lemma minKey_ok: "holds s this F R t \<Longrightarrow> t \<noteq> Lf \<Longrightarrow> minKey s this = Some (hd (kvs t))"
  using leftmost_ok [of s this F R "[]" t] zipper_get_root [of s this F R "[]" t]
  by (auto simp: minKey_def)

lemma maxKey_ok: "holds s this F R t \<Longrightarrow> t \<noteq> Lf \<Longrightarrow> maxKey s this = Some (last (kvs t))"
  using rightmost_ok [of s this F R "[]" t] zipper_get_root [of s this F R "[]" t]
  by (auto simp: maxKey_def)

section \<open>The search along the spine\<close>

fun left_spine :: "'b ctx \<Rightarrow> bool" where
  "left_spine [] = True"
| "left_spine (FL a k v b r # c) = left_spine c"
| "left_spine (FR l a k v b # c) = False"

text \<open>
  Where the search ends: a subtree as high as the lower tree, or higher by one; in the first
  case, unless it is the whole tree, its parent leans to the other side.
\<close>

fun fits :: "int ctx \<Rightarrow> nat \<Rightarrow> nat \<Rightarrow> bool" where
  "fits [] h h' = (h \<le> h' \<and> h' \<le> h + 1)"
| "fits (FL a k v b r # c) h h' = (h \<le> h' \<and> h' \<le> h + 1 \<and> (h' = h \<longrightarrow> b = 1))"
| "fits (FR l a k v b # c) h h' = (h \<le> h' \<and> h' \<le> h + 1 \<and> (h' = h \<longrightarrow> b = -1))"

lemma join_descend_right_ok:
  assumes "zipper s this F R c t" "avl t" "right_spine c" "h \<le> height t"
    "height t \<le> h + 1 \<Longrightarrow> fits c h (height t)"
  shows "\<exists>c' t'. join_descend_right s (int h) (cpar c) (ptr t) (int (height t)) =
             Some (cpar c', ptr t', int (height t')) \<and>
           plug c' t' = plug c t \<and> right_spine c' \<and> fits c' h (height t')"
  using assms
proof (induction t arbitrary: c)
  case Lf
  then show ?case by (subst join_descend_right.simps) (auto intro!: exI [of _ c] exI [of _ Lf])
next
  case (Nd l a k v b r)
  show ?case
  proof (cases "height (Nd l a k v b r) \<le> h + 1")
    case True
    with Nd show ?thesis
      by (subst join_descend_right.simps) (auto intro!: exI [of _ c] exI [of _ "Nd l a k v b r"])
  next
    case False
    note get = zipper_get [OF Nd(3)]
    have z: "zipper s this F R (FR l a k v b # c) r" using Nd(3) by (simp add: zipper_FR)
    have "int (height r) = (if b = -1 then int (height (Nd l a k v b r)) - 2
        else int (height (Nd l a k v b r)) - 1)"
      using Nd(4) by auto
    then have step: "join_descend_right s (int h) (cpar c) a (int (height (Nd l a k v b r))) =
        join_descend_right s (int h) a (ptr r) (int (height r))"
      using get False by (subst join_descend_right.simps) (simp del: height.simps)
    from Nd(4) False have "avl r" "h \<le> height r"
      "height r \<le> h + 1 \<Longrightarrow> fits (FR l a k v b # c) h (height r)" by auto
    with Nd(2) [OF z] Nd(5) step show ?thesis by simp
  qed
qed

lemma join_descend_left_ok:
  assumes "zipper s this F R c t" "avl t" "left_spine c" "h \<le> height t"
    "height t \<le> h + 1 \<Longrightarrow> fits c h (height t)"
  shows "\<exists>c' t'. join_descend_left s (int h) (cpar c) (ptr t) (int (height t)) =
             Some (cpar c', ptr t', int (height t')) \<and>
           plug c' t' = plug c t \<and> left_spine c' \<and> fits c' h (height t')"
  using assms
proof (induction t arbitrary: c)
  case Lf
  then show ?case by (subst join_descend_left.simps) (auto intro!: exI [of _ c] exI [of _ Lf])
next
  case (Nd l a k v b r)
  show ?case
  proof (cases "height (Nd l a k v b r) \<le> h + 1")
    case True
    with Nd show ?thesis
      by (subst join_descend_left.simps) (auto intro!: exI [of _ c] exI [of _ "Nd l a k v b r"])
  next
    case False
    note get = zipper_get [OF Nd(3)]
    have z: "zipper s this F R (FL a k v b r # c) l" using Nd(3) by (simp add: zipper_FL)
    have "int (height l) = (if b = 1 then int (height (Nd l a k v b r)) - 2
        else int (height (Nd l a k v b r)) - 1)"
      using Nd(4) by auto
    then have step: "join_descend_left s (int h) (cpar c) a (int (height (Nd l a k v b r))) =
        join_descend_left s (int h) a (ptr l) (int (height l))"
      using get False by (subst join_descend_left.simps) (simp del: height.simps)
    from Nd(4) False have "avl l" "h \<le> height l"
      "height l \<le> h + 1 \<Longrightarrow> fits (FL a k v b r # c) h (height l)" by auto
    with Nd(1) [OF z] Nd(5) step show ?thesis by simp
  qed
qed

section \<open>Linking\<close>

text \<open>
  The state before the two trees are linked: the object \<open>tall\<close> holds \<open>plug c t\<close>, the object
  \<open>low\<close> holds \<open>u\<close>, the new tree object \<open>nt\<close> is empty, and \<open>x\<close> is the address of a new node.
\<close>

definition linkable :: "avl_mem \<Rightarrow> addr \<Rightarrow> addr \<Rightarrow> addr \<Rightarrow> addr \<Rightarrow> (addr \<Rightarrow> int pnode option)
    \<Rightarrow> (addr \<Rightarrow> addr option) \<Rightarrow> int ctx \<Rightarrow> avl_ptree \<Rightarrow> avl_ptree \<Rightarrow> key \<Rightarrow> val \<Rightarrow> bool" where
  "linkable s tall low nt x F R c t u k v \<longleftrightarrow>
     roots s = R(tall \<mapsto> croot (ptr t) c, low \<mapsto> ptr u, nt \<mapsto> NULL) \<and>
     tall \<noteq> low \<and> tall \<noteq> nt \<and> low \<noteq> nt \<and>
     tree (hp s) (cpar c) t \<and> ctree (hp s) (ptr t) c \<and> tree (hp s) NULL u \<and>
     x \<noteq> NULL \<and> hp s x = Some (avl_Node k v NULL NULL NULL) \<and>
     distinct (x # addrs t @ addrs u @ caddrs c) \<and>
     owns (hp s) (brk s) F (set (x # addrs t @ addrs u @ caddrs c)) \<and>
     objs_below (R(tall \<mapsto> NULL, low \<mapsto> NULL)) nt (brk s)"

text \<open>The parent of an empty right child has a left child.\<close>

fun other_child :: "'b ctx \<Rightarrow> 'b ptree \<Rightarrow> bool" where
  "other_child (FR l a k v b # c) t = (t = Lf \<longrightarrow> ptr l \<noteq> NULL)"
| "other_child c t = True"

lemma fits_other_child:
  assumes "fits c h (height t)" "cavl c (height t)" "zipper s this F R c t"
  shows "other_child c t"
proof (cases c rule: ctx_cases)
  case (3 l a k v b c')
  with assms(3) have "tree (hp s) a l" by (simp add: zipper_def)
  from ptr_NULL_iff [OF this] show ?thesis using 3 assms by auto
qed auto

lemma join_link_right:
  assumes "linkable s tall low nt x F R c t u k v" "right_spine c" "other_child c t"
  shows "\<exists>s'. do {
      s \<leftarrow> set_left s x (ptr t);
      s \<leftarrow> adopt s (ptr t) x;
      rroot \<leftarrow> get_root s low;
      s \<leftarrow> set_right s x rroot;
      s \<leftarrow> adopt s rroot x;
      s \<leftarrow> set_balance s x b;
      join_link s nt tall (cpar c) (ptr t) x
    } = Some s' \<and> roots s' tall \<noteq> None \<and> roots s' low \<noteq> None \<and>
    zipper (s'\<lparr>roots := (roots s')(tall \<mapsto> NULL, low \<mapsto> NULL)\<rparr>) nt F (R(tall \<mapsto> NULL, low \<mapsto> NULL)) c
      (Nd t x k v b u)"
  using assms
  by (cases t; cases u; cases c rule: ctx_cases; clarsimp simp: linkable_def zipper_def avl_Node_def;
      simp add: join_link_def adopt_def heap_defs insert_commute Un_ac fun_upd_twist)

lemma linkable_flip:
  "linkable s tall low nt x F R c t u k v \<longleftrightarrow>
     roots s = R(tall \<mapsto> croot (ptr t) c, low \<mapsto> ptr u, nt \<mapsto> NULL) \<and>
     tall \<noteq> low \<and> tall \<noteq> nt \<and> low \<noteq> nt \<and>
     tree (hp s) (cpar c) t \<and> ctree (hp s) (ptr t) c \<and> tree (hp s) NULL u \<and>
     x \<noteq> NULL \<and> hp s x = Some (avl_Node k v NULL NULL NULL) \<and>
     distinct (addrs u @ x # addrs t @ caddrs c) \<and>
     owns (hp s) (brk s) F (set (addrs u @ x # addrs t @ caddrs c)) \<and>
     objs_below (R(tall \<mapsto> NULL, low \<mapsto> NULL)) nt (brk s)"
proof -
  have "distinct (x # addrs t @ addrs u @ caddrs c) = distinct (addrs u @ x # addrs t @ caddrs c)"
    "set (x # addrs t @ addrs u @ caddrs c) = set (addrs u @ x # addrs t @ caddrs c)"
    by auto
  then show ?thesis unfolding linkable_def by (simp only:)
qed

lemma join_link_left:
  assumes "linkable s tall low nt x F R c t u k v" "left_spine c"
  shows "\<exists>s'. do {
      s \<leftarrow> set_right s x (ptr t);
      s \<leftarrow> adopt s (ptr t) x;
      lroot \<leftarrow> get_root s low;
      s \<leftarrow> set_left s x lroot;
      s \<leftarrow> adopt s lroot x;
      s \<leftarrow> set_balance s x b;
      join_link s nt tall (cpar c) (ptr t) x
    } = Some s' \<and> roots s' tall \<noteq> None \<and> roots s' low \<noteq> None \<and>
    zipper (s'\<lparr>roots := (roots s')(tall \<mapsto> NULL, low \<mapsto> NULL)\<rparr>) nt F (R(tall \<mapsto> NULL, low \<mapsto> NULL)) c
      (Nd u x k v b t)"
  using assms
  by (cases t; cases u; cases c rule: ctx_cases; clarsimp simp: linkable_flip zipper_def avl_Node_def;
      simp add: join_link_def adopt_def heap_defs insert_commute Un_ac fun_upd_twist)

lemma linkable_objects:
  assumes ob: "objects s G T" and T: "T tall = Some (plug c t)" "T low = Some u" "T nt = Some Lf"
    and ne: "tall \<noteq> low" "tall \<noteq> nt" "low \<noteq> nt"
    and n: "new_node s (avl_Node k v NULL NULL NULL) = (x, s')"
  shows "linkable s' tall low nt x (hp s |` (- (set (addrs (plug c t)) \<union> set (addrs u))))
    ((roots s)(nt := None)) c t u k v"
proof -
  let ?F = "hp s |` (- (set (addrs (plug c t)) \<union> set (addrs u)))"
  have x: "x = brk s" and s': "s' = s\<lparr>hp := (hp s)(x \<mapsto> avl_Node k v NULL NULL NULL), brk := brk s + 1\<rparr>"
    using n by (auto simp: new_node_def)
  have zt: "zipper s tall (hp s |` (- set (addrs (plug c t)))) ((roots s)(tall := None)) c t"
    using objects_focus [OF ob T(1)] by (metis zipper_plug)
  have fresh: "a \<noteq> NULL \<and> a < x" if "a \<in> set (addrs (plug c t)) \<union> set (addrs u)" for a
    using that objectsD(6) [OF ob T(1)] objectsD(6) [OF ob T(2)] x by blast
  have dis: "set (addrs (plug c t)) \<inter> set (addrs u) = {}"
    by (rule objects_disjoint [OF ob T(1,2) ne(1)])
  have xs: "x \<noteq> NULL" using objects_brk [OF ob] x by simp
  have owns: "owns (hp s') (brk s') ?F (set (x # addrs t @ addrs u @ caddrs c))"
    using fresh objects_below(1) [OF ob] xs objects_new_node(3) [OF ob n] unfolding owns_def s' x set_addrs_plug restrict_map_def
    by (auto simp: less_Suc_eq)
  have "roots s tall = Some (croot (ptr t) c)" "roots s low = Some (ptr u)" "roots s nt = Some NULL"
    using zipper_root [OF zt] objectsD(5) [OF ob T(2)] objectsD(5) [OF ob T(3)] by simp_all
  then have roots: "roots s' = ((roots s)(nt := None))(tall \<mapsto> croot (ptr t) c, low \<mapsto> ptr u, nt \<mapsto> NULL)"
    using ne by (auto simp: s' fun_eq_iff)
  have below: "objs_below (((roots s)(nt := None))(tall \<mapsto> NULL, low \<mapsto> NULL)) nt (brk s')"
    using objectsD(1,2) [OF ob T(1)] objectsD(1,2) [OF ob T(2)] objectsD(1,2) [OF ob T(3)]
      objects_below(2) [OF ob] objects_brk [OF ob] unfolding objs_below_def s'
    by (auto simp: less_Suc_eq)
  have "x \<notin> set (addrs t) \<union> set (caddrs c)" "x \<notin> set (addrs u)"
    using fresh unfolding set_addrs_plug by blast+
  then show ?thesis
    using roots below owns ne zt objectsD(3,4) [OF ob T(2)] xs dis
    unfolding linkable_def zipper_def set_addrs_plug by (auto simp: s')
qed


text \<open>What the two symmetric halves of \<open>join\<close> promise to its closing loop.\<close>

definition linked :: "(addr \<times> addr \<times> avl_mem) option \<Rightarrow> addr \<Rightarrow> addr \<Rightarrow> addr
    \<Rightarrow> (addr \<Rightarrow> int pnode option) \<Rightarrow> (addr \<Rightarrow> avl_ptree option) \<Rightarrow> kv_list \<Rightarrow> bool" where
  "linked res lt rt nt G T xs \<longleftrightarrow> (\<exists>(s1 :: avl_mem) T1 tL tR s' c t.
     objects s1 G T1 \<and> T1 lt = Some tL \<and> T1 rt = Some tR \<and> T1 nt = Some Lf \<and>
     (\<forall>x. x \<noteq> lt \<longrightarrow> x \<noteq> rt \<longrightarrow> x \<noteq> nt \<longrightarrow> T1 x = T x) \<and>
     res = Some (cpar c, ptr t, s') \<and> roots s' lt \<noteq> None \<and> roots s' rt \<noteq> None \<and>
     zipper (s'\<lparr>roots := (roots s')(lt \<mapsto> NULL, rt \<mapsto> NULL)\<rparr>) nt
       (hp s1 |` (- (set (addrs tL) \<union> set (addrs tR))))
       ((roots s1)(nt := None, lt \<mapsto> NULL, rt \<mapsto> NULL)) c t \<and>
     t \<noteq> Lf \<and> avl t \<and> cavl c (height t - 1) \<and> leaning t c \<and> kvs (plug c t) = xs)"

lemma fits_leaning:
  assumes "fits c h (height t)" "right_spine c" "avl t" "avl u" "height u = h" "cavl c (height t)"
  shows "leaning (Nd t x k v (int h - int (height t)) u) c"
    "avl (Nd t x k v (int h - int (height t)) u)"
    "cavl c (height (Nd t x k v (int h - int (height t)) u) - 1)"
  using assms by (cases c rule: ctx_cases; auto simp: max_def)+

lemma fits_leaning_left:
  assumes "fits c h (height t)" "left_spine c" "avl t" "avl u" "height u = h" "cavl c (height t)"
  shows "leaning (Nd u x k v (int (height t) - int h) t) c"
    "avl (Nd u x k v (int (height t) - int h) t)"
    "cavl c (height (Nd u x k v (int (height t) - int h) t) - 1)"
  using assms by (cases c rule: ctx_cases; auto simp: max_def)+

lemma erase_object:
  assumes "objects s G T" "T x = Some t" "avl t" "sorted_kvs (kvs t)"
  shows "\<exists>w s' t'. avl_erase s x k = Some (w, s') \<and> objects s' G (T(x \<mapsto> t')) \<and> avl t' \<and>
           kvs t' = del_kv k (kvs t) \<and> height t' \<le> height t"
  using avl_erase_tree [OF objects_focus [OF assms(1,2)] assms(3,4), of k]
    objects_update [OF assms(1,2)] by blast

lemma cleft_left_spine [simp]: "left_spine c \<Longrightarrow> cleft c = []"
  by (induction c rule: left_spine.induct) auto

lemma join_left_taller_ok:
  assumes ob: "objects s G T" and T: "T lt = Some tL" "T rt = Some tR" "T nt = Some Lf"
    and ne: "lt \<noteq> rt" "lt \<noteq> nt" "rt \<noteq> nt" and avl: "avl tL" "avl tR"
    and tR: "tR \<noteq> Lf" "sorted_kvs (kvs tL @ kvs tR)" "height tR \<le> height tL"
    and k: "fst (hd (kvs tR)) \<noteq> INVALID_KEY"
  shows "linked (join_left_taller s lt rt nt (int (height tL))) lt rt nt G T (kvs tL @ kvs tR)"
proof -
  note fr = objects_focus [OF ob T(2)]
  obtain mk mv ys where ys: "kvs tR = (mk, mv) # ys" using tR(1) by (cases "kvs tR"; cases tR) auto
  have min: "minKey s rt = Some (mk, mv)" using minKey_ok [OF fr tR(1)] ys by simp
  from tR(2) have so: "sorted_kvs (kvs tR)" by simp
  from erase_object [OF ob T(2) avl(2) so, of mk] ys so obtain w s1 tR' where
    s1: "avl_erase s rt mk = Some (w, s1)" "avl tR'" "kvs tR' = ys" "height tR' \<le> height tR"
      and ob1: "objects s1 G (T(rt \<mapsto> tR'))" by (auto simp: kv_simps)
  obtain x s2 where n: "new_node s1 (avl_Node mk mv NULL NULL NULL) = (x, s2)" by fastforce
  note ob2 = objects_new_node(1) [OF ob1 n]
  have T1: "(T(rt \<mapsto> tR')) lt = Some tL" "(T(rt \<mapsto> tR')) rt = Some tR'" "(T(rt \<mapsto> tR')) nt = Some Lf"
    using T ne by auto
  note fl2 = objects_focus [OF ob2 T1(1)] and fr2 = objects_focus [OF ob2 T1(2)]
  have ht: "computeHeight s2 rt = Some (int (height tR'))" by (rule computeHeight_ok [OF fr2 s1(2)])
  from join_descend_right_ok [OF fl2 avl(1), of "height tR'"] s1(4) tR(3) obtain c t where
    d: "join_descend_right s2 (int (height tR')) NULL (ptr tL) (int (height tL)) =
          Some (cpar c, ptr t, int (height t))" "plug c t = tL" "right_spine c" "fits c (height tR') (height t)"
    by auto
  from avl(1) d(2) have at: "avl t" "cavl c (height t)" by (auto simp: avl_plug)
  have T1': "(T(rt \<mapsto> tR')) lt = Some (plug c t)" using T1(1) d(2) by simp
  note lk = linkable_objects [OF ob1 T1' T1(2,3) ne n]
  have oc: "other_child c t"
    using fits_other_child [OF d(4) at(2)] fl2 d(2) by (metis zipper_plug)
  let ?b = "int (height tR') - int (height t)"
  from join_link_right [OF lk d(3) oc, of ?b] obtain s' where
    s': "do {
      s \<leftarrow> set_left s2 x (ptr t);
      s \<leftarrow> adopt s (ptr t) x;
      rroot \<leftarrow> get_root s rt;
      s \<leftarrow> set_right s x rroot;
      s \<leftarrow> adopt s rroot x;
      s \<leftarrow> set_balance s x ?b;
      join_link s nt lt (cpar c) (ptr t) x
    } = Some s'" "roots s' lt \<noteq> None" "roots s' rt \<noteq> None"
    "zipper (s'\<lparr>roots := (roots s')(lt \<mapsto> NULL, rt \<mapsto> NULL)\<rparr>) nt
      (hp s1 |` (- (set (addrs (plug c t)) \<union> set (addrs tR'))))
      ((roots s1)(nt := None, lt \<mapsto> NULL, rt \<mapsto> NULL)) c (Nd t x mk mv ?b tR')" by blast
  have "join_left_taller s lt rt nt (int (height tL)) = Some (cpar c, ptr (Nd t x mk mv ?b tR'), s')"
    using s'(1) min k ys s1(1) n ht zipper_get_root [OF fl2] d(1)
    by (auto simp: join_left_taller_def assert_that_def bind_eq_Some_conv)
  moreover note fits_leaning [OF d(4,3) at(1) s1(2) refl at(2), of x mk mv]
  moreover have "kvs (plug c (Nd t x mk mv ?b tR')) = kvs tL @ kvs tR"
    using d(2,3) s1(3) ys by (auto simp flip: d(2))
  ultimately show ?thesis
    unfolding linked_def using ob1 T1' T1(2,3) s'(2-4)
    by (intro exI [of _ s1] exI [of _ "T(rt \<mapsto> tR')"] exI [of _ "plug c t"] exI [of _ tR']
        exI [of _ s'] exI [of _ c] exI [of _ "Nd t x mk mv ?b tR'"]) simp
qed

lemma join_right_taller_ok:
  assumes ob: "objects s G T" and T: "T lt = Some tL" "T rt = Some tR" "T nt = Some Lf"
    and ne: "lt \<noteq> rt" "lt \<noteq> nt" "rt \<noteq> nt" and avl: "avl tL" "avl tR"
    and tL: "tL \<noteq> Lf" "sorted_kvs (kvs tL @ kvs tR)" "height tL \<le> height tR"
    and k: "fst (last (kvs tL)) \<noteq> INVALID_KEY"
  shows "linked (join_right_taller s lt rt nt (int (height tR))) lt rt nt G T (kvs tL @ kvs tR)"
proof -
  note fl = objects_focus [OF ob T(1)]
  have "kvs tL \<noteq> []" using tL(1) by (cases tL) auto
  then obtain mk mv ys where ys: "kvs tL = ys @ [(mk, mv)]" by (cases "kvs tL" rule: rev_cases) auto
  have max: "maxKey s lt = Some (mk, mv)" using maxKey_ok [OF fl tL(1)] ys by simp
  from tL(2) have so: "sorted_kvs (kvs tL)" by simp
  from erase_object [OF ob T(1) avl(1) so, of mk] ys so obtain w s1 tL' where
    s1: "avl_erase s lt mk = Some (w, s1)" "avl tL'" "kvs tL' = ys" "height tL' \<le> height tL"
      and ob1: "objects s1 G (T(lt \<mapsto> tL'))" by (auto simp: kv_simps)
  obtain x s2 where n: "new_node s1 (avl_Node mk mv NULL NULL NULL) = (x, s2)" by fastforce
  note ob2 = objects_new_node(1) [OF ob1 n]
  have T1: "(T(lt \<mapsto> tL')) lt = Some tL'" "(T(lt \<mapsto> tL')) rt = Some tR" "(T(lt \<mapsto> tL')) nt = Some Lf"
    using T ne by auto
  note fl2 = objects_focus [OF ob2 T1(1)] and fr2 = objects_focus [OF ob2 T1(2)]
  have ht: "computeHeight s2 lt = Some (int (height tL'))" by (rule computeHeight_ok [OF fl2 s1(2)])
  from join_descend_left_ok [OF fr2 avl(2), of "height tL'"] s1(4) tL(3) obtain c t where
    d: "join_descend_left s2 (int (height tL')) NULL (ptr tR) (int (height tR)) =
          Some (cpar c, ptr t, int (height t))" "plug c t = tR" "left_spine c" "fits c (height tL') (height t)"
    by auto
  from avl(2) d(2) have at: "avl t" "cavl c (height t)" by (auto simp: avl_plug)
  have T1': "(T(lt \<mapsto> tL')) rt = Some (plug c t)" using T1(2) d(2) by simp
  note lk = linkable_objects [OF ob1 T1' T1(1,3) ne(1) [symmetric] ne(3,2) n]
  let ?b = "int (height t) - int (height tL')"
  from join_link_left [OF lk d(3), of ?b] obtain s' where
    s': "do {
      s \<leftarrow> set_right s2 x (ptr t);
      s \<leftarrow> adopt s (ptr t) x;
      lroot \<leftarrow> get_root s lt;
      s \<leftarrow> set_left s x lroot;
      s \<leftarrow> adopt s lroot x;
      s \<leftarrow> set_balance s x ?b;
      join_link s nt rt (cpar c) (ptr t) x
    } = Some s'" "roots s' rt \<noteq> None" "roots s' lt \<noteq> None"
    "zipper (s'\<lparr>roots := (roots s')(rt \<mapsto> NULL, lt \<mapsto> NULL)\<rparr>) nt
      (hp s1 |` (- (set (addrs (plug c t)) \<union> set (addrs tL'))))
      ((roots s1)(nt := None, rt \<mapsto> NULL, lt \<mapsto> NULL)) c (Nd tL' x mk mv ?b t)" by blast
  have "join_right_taller s lt rt nt (int (height tR)) = Some (cpar c, ptr (Nd tL' x mk mv ?b t), s')"
    using s'(1) max k ys s1(1) n ht zipper_get_root [OF fr2] d(1)
    by (auto simp: join_right_taller_def assert_that_def bind_eq_Some_conv)
  moreover note fits_leaning_left [OF d(4,3) at(1) s1(2) refl at(2), of x mk mv]
  moreover have "kvs (plug c (Nd tL' x mk mv ?b t)) = kvs tL @ kvs tR"
    using d(2,3) s1(3) ys by (auto simp flip: d(2))
  moreover note s'(4) [unfolded fun_upd_twist [OF ne(1) [symmetric]] Un_commute [of "set (addrs (plug c t))"]]
  ultimately show ?thesis
    unfolding linked_def using ob1 T1' T1(1,3) s'(2,3)
    by (intro exI [of _ s1] exI [of _ "T(lt \<mapsto> tL')"] exI [of _ tL'] exI [of _ "plug c t"]
        exI [of _ s'] exI [of _ c] exI [of _ "Nd tL' x mk mv ?b t"]) simp
qed

lemma linked_join:
  assumes l: "linked res lt rt nt G T xs" and ne: "lt \<noteq> rt" "lt \<noteq> nt" "rt \<noteq> nt"
  shows "\<exists>s' t. do {
      (prevNode, currentNode, s) \<leftarrow> res;
      s \<leftarrow> set_root s lt NULL;
      s \<leftarrow> set_root s rt NULL;
      insert_rebalance s nt prevNode currentNode
    } = Some s' \<and> objects s' G (T(lt \<mapsto> Lf, rt \<mapsto> Lf, nt \<mapsto> t)) \<and> avl t \<and> kvs t = xs"
proof -
  from l obtain s1 :: avl_mem and T1 tL tR s2 c t where
    ob: "objects s1 G T1" "T1 lt = Some tL" "T1 rt = Some tR" "T1 nt = Some Lf"
      and T: "\<forall>x. x \<noteq> lt \<longrightarrow> x \<noteq> rt \<longrightarrow> x \<noteq> nt \<longrightarrow> T1 x = T x"
      and res: "res = Some (cpar c, ptr t, s2)" "roots s2 lt \<noteq> None" "roots s2 rt \<noteq> None"
      and z: "zipper (s2\<lparr>roots := (roots s2)(lt \<mapsto> NULL, rt \<mapsto> NULL)\<rparr>) nt
           (hp s1 |` (- (set (addrs tL) \<union> set (addrs tR))))
           ((roots s1)(nt := None, lt \<mapsto> NULL, rt \<mapsto> NULL)) c t"
      and t: "t \<noteq> Lf" "avl t" "cavl c (height t - 1)" "leaning t c" "kvs (plug c t) = xs"
    unfolding linked_def by blast
  from insert_rebalance_ok [OF z t(1-4)] obtain s' t' where
    s': "insert_rebalance (s2\<lparr>roots := (roots s2)(lt \<mapsto> NULL, rt \<mapsto> NULL)\<rparr>) nt (cpar c) (ptr t) = Some s'"
      "holds s' nt (hp s1 |` (- (set (addrs tL) \<union> set (addrs tR))))
           ((roots s1)(nt := None, lt \<mapsto> NULL, rt \<mapsto> NULL)) t'" "avl t'" "kvs t' = xs"
    using t(5) by (auto simp: grown_ok_def)
  have "T1(lt \<mapsto> Lf, rt \<mapsto> Lf, nt \<mapsto> t') = T(lt \<mapsto> Lf, rt \<mapsto> Lf, nt \<mapsto> t')"
    using T by (auto simp: fun_eq_iff)
  then have "objects s' G (T(lt \<mapsto> Lf, rt \<mapsto> Lf, nt \<mapsto> t'))"
    using objects_join [OF ob ne s'(2)] by simp
  then show ?thesis using res s'(1,3,4) ne by (auto simp: set_root_def)
qed

lemma avl_join_objects:
  assumes ob: "objects s G T" and T: "T lt = Some tL" "T rt = Some tR" and ne: "lt \<noteq> rt"
    and avl: "avl tL" "avl tR" and so: "sorted_kvs (kvs tL @ kvs tR)"
    and k: "INVALID_KEY \<notin> keys_of (kvs tL @ kvs tR)"
  shows "\<exists>nt s' t. avl_join s lt rt = Some (nt, s') \<and> T nt = None \<and>
     objects s' G (T(lt \<mapsto> Lf, rt \<mapsto> Lf, nt \<mapsto> t)) \<and> avl t \<and> kvs t = kvs tL @ kvs tR"
proof -
  obtain nt s0 where n: "AVLTree s = (nt, s0)" by fastforce
  from objects_new_tree [OF ob n [unfolded AVLTree_def]] have
    ob0: "objects s0 G (T(nt \<mapsto> Lf))" and nt: "T nt = None" by simp_all
  have ne': "lt \<noteq> nt" "rt \<noteq> nt" using T nt by auto
  have T0: "(T(nt \<mapsto> Lf)) lt = Some tL" "(T(nt \<mapsto> Lf)) rt = Some tR" "(T(nt \<mapsto> Lf)) nt = Some Lf"
    using T ne' by auto
  note fl = objects_focus [OF ob0 T0(1)] and fr = objects_focus [OF ob0 T0(2)]
  note roots = objectsD(5) [OF ob0 T0(1)] objectsD(5) [OF ob0 T0(2)] objectsD(5) [OF ob0 T0(3)]
  note N = zipper_ptr_NULL [OF fl] zipper_ptr_NULL [OF fr]
  show ?thesis
  proof (cases "tL = Lf \<or> tR = Lf")
    case True
    then consider "tL = Lf" | "tL \<noteq> Lf" "tR = Lf" by blast
    then show ?thesis
    proof cases
      case 1
      have "avl_join s lt rt = Some (nt, s0\<lparr>roots := (roots s0)(nt \<mapsto> ptr tR, rt \<mapsto> NULL)\<rparr>)"
        using 1 n roots ne' by (simp add: avl_join_def heap_defs)
      moreover have "T(nt \<mapsto> Lf, nt \<mapsto> tR, rt \<mapsto> Lf) = T(lt \<mapsto> Lf, rt \<mapsto> Lf, nt \<mapsto> tR)"
        using T 1 ne ne' by (auto simp: fun_eq_iff)
      then have "objects (s0\<lparr>roots := (roots s0)(nt \<mapsto> ptr tR, rt \<mapsto> NULL)\<rparr>) G
          (T(lt \<mapsto> Lf, rt \<mapsto> Lf, nt \<mapsto> tR))"
        using objects_move [OF ob0 T0(2,3) ne'(2)] by (simp only:)
      ultimately show ?thesis using nt avl(2) 1 by auto
    next
      case 2
      have "avl_join s lt rt = Some (nt, s0\<lparr>roots := (roots s0)(nt \<mapsto> ptr tL, lt \<mapsto> NULL)\<rparr>)"
        using 2 n roots ne' N by (simp add: avl_join_def heap_defs)
      moreover have "T(nt \<mapsto> Lf, nt \<mapsto> tL, lt \<mapsto> Lf) = T(lt \<mapsto> Lf, rt \<mapsto> Lf, nt \<mapsto> tL)"
        using T 2 ne ne' by (auto simp: fun_eq_iff)
      then have "objects (s0\<lparr>roots := (roots s0)(nt \<mapsto> ptr tL, lt \<mapsto> NULL)\<rparr>) G
          (T(lt \<mapsto> Lf, rt \<mapsto> Lf, nt \<mapsto> tL))"
        using objects_move [OF ob0 T0(1,3) ne'(1)] by (simp only:)
      ultimately show ?thesis using nt avl(1) 2 by auto
    qed
  next
    case False
    then have nL: "tL \<noteq> Lf" and nR: "tR \<noteq> Lf" by auto
    have "hd (kvs tR) \<in> set (kvs tR)" "last (kvs tL) \<in> set (kvs tL)" using nL nR by simp_all
    with k have k1: "fst (hd (kvs tR)) \<noteq> INVALID_KEY" and k2: "fst (last (kvs tL)) \<noteq> INVALID_KEY"
      unfolding keys_of_def set_append by (metis UnI1 UnI2 image_eqI)+
    let ?res = "if int (height tR) \<le> int (height tL) then join_left_taller s0 lt rt nt (int (height tL))
       else join_right_taller s0 lt rt nt (int (height tR))"
    have "linked ?res lt rt nt G (T(nt \<mapsto> Lf)) (kvs tL @ kvs tR)"
      using join_left_taller_ok [OF ob0 T0 ne ne' avl nR so _ k1]
        join_right_taller_ok [OF ob0 T0 ne ne' avl nL so _ k2] by (simp add: fun_upd_def)
    from linked_join [OF this ne ne'] obtain s' t where
      s': "do {
        (prevNode, currentNode, s) \<leftarrow> ?res;
        s \<leftarrow> set_root s lt NULL;
        s \<leftarrow> set_root s rt NULL;
        insert_rebalance s nt prevNode currentNode
      } = Some s'" "objects s' G (T(nt \<mapsto> Lf, lt \<mapsto> Lf, rt \<mapsto> Lf, nt \<mapsto> t))" "avl t"
      "kvs t = kvs tL @ kvs tR" by blast
    have "avl_join s lt rt = Some (nt, s')"
      using s'(1) n zipper_get_root [OF fl] zipper_get_root [OF fr] N nL nR
        computeHeight_ok [OF fl avl(1)] computeHeight_ok [OF fr avl(2)]
      by (auto simp: avl_join_def bind_eq_Some_conv split: if_splits)
    moreover have "T(nt \<mapsto> Lf, lt \<mapsto> Lf, rt \<mapsto> Lf, nt \<mapsto> t) = T(lt \<mapsto> Lf, rt \<mapsto> Lf, nt \<mapsto> t)"
      by (auto simp: fun_eq_iff)
    ultimately show ?thesis using s' nt by auto
  qed
qed

end
