(* ===== verification/AVL_Split.thy ===== *)
theory AVL_Split
  imports AVL_Join
begin

text \<open>Splitting an AVL tree: the two halves are AVL trees and no other object is touched.\<close>

section \<open>Taking the root apart\<close>

text \<open>
  The state of \<open>split\<close> after the root was taken apart: two trees over nodes that no other object
  has, while the root pointer of the split object may be anything.
\<close>

definition parted :: "avl_mem \<Rightarrow> addr \<Rightarrow> (addr \<Rightarrow> int pnode option) \<Rightarrow> (addr \<Rightarrow> addr option)
    \<Rightarrow> avl_ptree \<Rightarrow> avl_ptree \<Rightarrow> bool" where
  "parted s this F R tL tR \<longleftrightarrow>
     (\<exists>p. roots s = R(this \<mapsto> p)) \<and> tree (hp s) NULL tL \<and> tree (hp s) NULL tR \<and>
     distinct (addrs tL @ addrs tR) \<and>
     owns (hp s) (brk s) F (set (addrs tL @ addrs tR)) \<and> objs_below R this (brk s)"

lemma split_no_left:
  assumes z: "holds s this F R (Nd Lf a k v b (Nd Lf x kx vx bx Lf))"
  shows "\<exists>s'. do {
      s \<leftarrow> set_parent s x NULL;
      s \<leftarrow> set_balance s x 0;
      s \<leftarrow> set_right s a NULL;
      set_balance s a 0
    } = Some s' \<and> parted s' this F R (Nd Lf a k v 0 Lf) (Nd Lf x kx vx 0 Lf)"
  using z by (clarsimp simp: zipper_def parted_def) (auto simp: heap_defs insert_commute)

lemma split_no_right:
  assumes z: "holds s this F R (Nd (Nd ll x kx vx bx lr) a k v b Lf)"
  shows "\<exists>s'. do {
      s \<leftarrow> set_parent s x NULL;
      s \<leftarrow> set_left s a NULL;
      set_balance s a 0
    } = Some s' \<and> parted s' this F R (Nd ll x kx vx bx lr) (Nd Lf a k v 0 Lf)"
  using z by (clarsimp simp: zipper_def parted_def) (auto simp: heap_defs insert_commute)

lemma split_both:
  assumes z: "holds s this F R (Nd (Nd ll x kx vx bx lr) a k v b (Nd rl y ky vy bz rr))"
  shows "\<exists>s'. do {
      s \<leftarrow> set_parent s x NULL;
      s \<leftarrow> set_left s a NULL;
      s \<leftarrow> set_root s this y;
      s \<leftarrow> set_parent s y NULL;
      delete_node s a
    } = Some s' \<and> roots s' = R(this \<mapsto> y) \<and>
    parted s' this F R (Nd ll x kx vx bx lr) (Nd rl y ky vy bz rr)"
  using z by (clarsimp simp: zipper_def parted_def) (simp add: heap_defs insert_commute Un_ac; rule exI; rule refl)

lemma parted_right:
  assumes "parted s this F R tL tR" "roots s = R(this \<mapsto> ptr tR)"
  shows "holds s this (F ++ (hp s |` set (addrs tL))) R tR"
proof -
  have o1: "owns (hp s) (brk s) F (set (addrs tL @ addrs tR))" and d: "distinct (addrs tL @ addrs tR)"
    and "tree (hp s) NULL tL" "tree (hp s) NULL tR" "objs_below R this (brk s)"
    using assms(1) unfolding parted_def by blast+
  moreover have "owns (hp s) (brk s) (F ++ (hp s |` set (addrs tL))) (set (addrs tR))"
  proof -
    have "hp s a = (F ++ (hp s |` set (addrs tL))) a" if "a \<notin> set (addrs tR)" for a
      using ownsD(1,2) [OF o1, of a] that by (auto simp: map_add_def restrict_map_def split: option.split)
    moreover have "(F ++ (hp s |` set (addrs tL))) a = None \<and> a \<noteq> NULL \<and> a < brk s" if "a \<in> set (addrs tR)" for a
      using ownsD(2) [OF o1, of a] that d by (auto simp: map_add_def restrict_map_def)
    moreover have "a \<noteq> NULL \<and> a < brk s" if "(F ++ (hp s |` set (addrs tL))) a \<noteq> None" for a
      using ownsD(2,3) [OF o1, of a] that by (auto simp: map_add_def restrict_map_def split: option.splits if_splits)
    ultimately show ?thesis unfolding owns_def by blast
  qed
  ultimately show ?thesis using assms(2) by (simp add: zipper_def)
qed

lemma parted_back:
  assumes p: "parted s this F R tL tR" and h: "holds s' this (F ++ (hp s |` set (addrs tL))) R t"
  shows "parted s' this F R tL t"
proof -
  let ?F = "F ++ (hp s |` set (addrs tL))"
  have o1: "owns (hp s) (brk s) F (set (addrs tL @ addrs tR))" and d: "distinct (addrs tL @ addrs tR)"
    and tL: "tree (hp s) NULL tL" using p unfolding parted_def by blast+
  have o2: "owns (hp s') (brk s') ?F (set (addrs t))" and t: "tree (hp s') NULL t" "distinct (addrs t)"
    "roots s' = R(this \<mapsto> ptr t)" "objs_below R this (brk s')"
    using h by (simp_all add: zipper_def)
  have L: "a \<notin> set (addrs t) \<and> hp s' a = hp s a \<and> a \<noteq> NULL \<and> a < brk s' \<and> F a = None"
    if "a \<in> set (addrs tL)" for a
  proof -
    have "hp s a \<noteq> None" by (rule tree_in_dom [OF tL that])
    with that have "?F a = hp s a" "?F a \<noteq> None" by (auto simp: map_add_def split: option.split)
    then show ?thesis using ownsD [OF o2, of a] ownsD(2) [OF o1, of a] that by (metis UnI1 set_append)
  qed
  have "tree (hp s') NULL tL" using tL L tree_cong [of tL "hp s" "hp s'"] by auto
  moreover have "distinct (addrs tL @ addrs t)" using d t L by auto
  moreover have "owns (hp s') (brk s') F (set (addrs tL @ addrs t))"
  proof -
    have F: "?F a = F a" if "a \<notin> set (addrs tL)" for a
      using that by (auto simp: map_add_def restrict_map_def)
    have "hp s' a = F a" if "a \<notin> set (addrs tL @ addrs t)" for a
      using ownsD(1) [OF o2, of a] F [of a] that by simp
    moreover have "F a = None \<and> a \<noteq> NULL \<and> a < brk s'" if "a \<in> set (addrs tL @ addrs t)" for a
      using ownsD(2) [OF o2, of a] F [of a] L [of a] that by (cases "a \<in> set (addrs tL)") auto
    moreover have "a \<noteq> NULL \<and> a < brk s'" if "F a \<noteq> None" for a
      using ownsD(3) [OF o2, of a] F [of a] L [of a] that by (cases "a \<in> set (addrs tL)") auto
    ultimately show ?thesis unfolding owns_def by blast
  qed
  ultimately show ?thesis using t unfolding parted_def by blast
qed

lemma parted_objects:
  assumes ob: "objects s G T" "T this = Some t"
    and p: "parted s1 this (hp s |` (- set (addrs t))) ((roots s)(this := None)) tL tR"
    and n: "AVLTree s1 = (lt, s2)" "set_root s2 lt (ptr tL) = Some s3"
      "AVLTree s3 = (rt, s4)" "set_root s4 rt (ptr tR) = Some s5" "set_root s5 this NULL = Some s6"
  shows "objects s6 G (T(this \<mapsto> Lf, lt \<mapsto> tL, rt \<mapsto> tR)) \<and> T lt = None \<and> T rt = None \<and> lt \<noteq> rt"
proof -
  let ?T = "T(this \<mapsto> Lf, lt \<mapsto> tL, rt \<mapsto> tR)"
  have r: "roots s = (\<lambda>x. map_option ptr (T x))" using ob unfolding objects_def by blast
  from p obtain q where r1: "roots s1 = ((roots s)(this := None))(this \<mapsto> q)"
    and b: "objs_below ((roots s)(this := None)) this (brk s1)" unfolding parted_def by blast
  have T: "x < brk s1 \<and> x \<noteq> NULL" if "T x = Some u" for x u
  proof (cases "x = this")
    case False
    with that have "((roots s)(this := None)) x \<noteq> None" by (simp add: r)
    then show ?thesis using b unfolding objs_below_def by blast
  qed (use b in \<open>simp add: objs_below_def\<close>)
  have lt: "lt = brk s1" "s2 = s1\<lparr>roots := (roots s1)(lt \<mapsto> NULL), brk := brk s1 + 1\<rparr>"
    using n(1) by (auto simp: AVLTree_def new_tree_def)
  have s3: "s3 = s1\<lparr>roots := (roots s1)(lt \<mapsto> ptr tL), brk := brk s1 + 1\<rparr>"
    using n(2) unfolding lt(2) by (auto simp: set_root_def split: if_splits)
  have rt: "rt = brk s1 + 1"
    "s4 = s1\<lparr>roots := (roots s1)(lt \<mapsto> ptr tL, rt \<mapsto> NULL), brk := brk s1 + 2\<rparr>"
    using n(3) unfolding s3 by (auto simp: AVLTree_def new_tree_def)
  have s5: "s5 = s1\<lparr>roots := (roots s1)(lt \<mapsto> ptr tL, rt \<mapsto> ptr tR), brk := brk s1 + 2\<rparr>"
    using n(4) unfolding rt(2) by (auto simp: set_root_def split: if_splits)
  have s6: "s6 = s1\<lparr>roots := (roots s1)(lt \<mapsto> ptr tL, rt \<mapsto> ptr tR, this \<mapsto> NULL), brk := brk s1 + 2\<rparr>"
    using n(5) unfolding s5 by (auto simp: set_root_def split: if_splits)
  have Tn: "T lt = None" "T rt = None" "lt \<noteq> this" "rt \<noteq> this"
    using T [of lt] T [of rt] T [OF ob(2)] lt(1) rt(1) by (cases "T lt"; cases "T rt"; auto)+
  have hp: "hp s6 = hp s1" and brk: "brk s6 = brk s1 + 2"
    and "roots s6 = (roots s)(this \<mapsto> NULL, lt \<mapsto> ptr tL, rt \<mapsto> ptr tR)"
    unfolding s6 using r1 Tn by (auto simp: fun_eq_iff)
  then have r6: "roots s6 = (\<lambda>x. map_option ptr (?T x))" unfolding r by (auto simp: fun_eq_iff)
  have nn: "NULL < brk s1" using b by (simp add: objs_below_def)
  have "objects s6 G ?T"
  proof (rule objects_replace [OF ob(1), where X = "{this, lt, rt}"])
    show "NULL < brk s6" using nn brk by simp
    show "w \<noteq> NULL \<and> w < brk s6" if "?T w = Some u" for w u
      using that T [of w] T [OF ob(2)] nn lt(1) rt(1) brk by (auto split: if_splits)
    have "owned T {this, lt, rt} = set (addrs t)" "owned ?T {this, lt, rt} = set (addrs tL @ addrs tR)"
      using ob(2) Tn lt(1) rt(1) by (simp_all add: owned_insert)
    moreover have "owns (hp s1) (brk s1 + 2) (hp s |` (- set (addrs t))) (set (addrs tL @ addrs tR))"
      using p owns_mono [of "hp s1" "brk s1" _ _ "brk s1 + 2"] unfolding parted_def by simp
    ultimately show "owns (hp s6) (brk s6) (hp s |` (- owned T {this, lt, rt})) (owned ?T {this, lt, rt})"
      unfolding hp brk by (simp only:)
    show "tree (hp s6) NULL u \<and> distinct (addrs u)" if "w \<in> {this, lt, rt}" "?T w = Some u" for w u
      using that p unfolding parted_def hp by (auto split: if_splits)
    show "set (addrs u) \<inter> set (addrs u') = {}"
      if "w \<in> {this, lt, rt}" "w' \<in> {this, lt, rt}" "?T w = Some u" "?T w' = Some u'" "w \<noteq> w'" for w w' u u'
      using that p unfolding parted_def by (auto split: if_splits)
  qed (use r6 in auto)
  then show ?thesis using Tn lt(1) rt(1) by simp
qed


lemma avl_split_small:
  assumes ob: "objects s G T" "T this = Some t" and t: "length (kvs t) \<le> 1"
  shows "avl_split s this = Some (INVALID_KEY, None, s)"
proof -
  note f = objects_focus [OF ob]
  have "t = Lf \<or> (\<exists>a k v b. t = Nd Lf a k v b Lf)"
    using t by (cases t) auto
  then show ?thesis
    using zipper_get_root [OF f] f by (auto simp: avl_split_def zipper_get)
qed

lemma avl_leaf: "avl (Nd Lf a k v b r) \<Longrightarrow> r \<noteq> Lf \<Longrightarrow> \<exists>x kx vx. r = Nd Lf x kx vx 0 Lf"
  by (cases r) auto

lemma avl_leaf': "avl (Nd l a k v b Lf) \<Longrightarrow> l \<noteq> Lf \<Longrightarrow> \<exists>x kx vx. l = Nd Lf x kx vx 0 Lf"
  by (cases l) auto

lemma split_root_ok:
  assumes z: "holds s this F R (Nd l a k v b r)" and avl: "avl (Nd l a k v b r)"
    and so: "sorted_kvs (kvs (Nd l a k v b r))" and ne: "\<not> (l = Lf \<and> r = Lf)"
  shows "\<exists>sk s' tL tR. split_root s this a (ptr l) (ptr r) = Some (sk, ptr tL, ptr tR, s') \<and>
     parted s' this F R tL tR \<and> avl tL \<and> avl tR \<and> tL \<noteq> Lf \<and> tR \<noteq> Lf \<and>
     kvs tL @ kvs tR = kvs (Nd l a k v b r) \<and> sk = fst (hd (kvs tR))"
proof -
  note get = zipper_get [OF z]
  have zl: "zipper s this F R [FL a k v b r] l" and zr: "zipper s this F R [FR l a k v b] r"
    using z by (simp_all add: zipper_FL zipper_FR)
  note N = zipper_ptr_NULL [OF zl] zipper_ptr_NULL [OF zr]
  consider "l = Lf" | "l \<noteq> Lf" "r = Lf" | "l \<noteq> Lf" "r \<noteq> Lf" by blast
  then show ?thesis
  proof cases
    case 1
    with avl_leaf [of a k v b r] avl ne obtain x kx vx where r: "r = Nd Lf x kx vx 0 Lf" by auto
    from split_no_left [OF z [unfolded 1 r]] obtain s' where
      s': "do {
        s \<leftarrow> set_parent s x NULL;
        s \<leftarrow> set_balance s x 0;
        s \<leftarrow> set_right s a NULL;
        set_balance s a 0
      } = Some s'" "parted s' this F R (Nd Lf a k v 0 Lf) (Nd Lf x kx vx 0 Lf)" by blast
    have "split_root s this a (ptr l) (ptr r) = Some (kx, a, x, s')"
      using s'(1) 1 r zipper_get(1) [OF zr [unfolded r]] by (auto simp: split_root_def bind_eq_Some_conv)
    with s'(2) 1 r show ?thesis
      by (intro exI [of _ kx] exI [of _ s'] exI [of _ "Nd Lf a k v 0 Lf"] exI [of _ "Nd Lf x kx vx 0 Lf"]) simp
  next
    case 2
    with avl_leaf' [of l a k v b] avl obtain x kx vx where l: "l = Nd Lf x kx vx 0 Lf" by auto
    from split_no_right [OF z [unfolded 2 l]] obtain s' where
      s': "do {
        s \<leftarrow> set_parent s x NULL;
        s \<leftarrow> set_left s a NULL;
        set_balance s a 0
      } = Some s'" "parted s' this F R (Nd Lf x kx vx 0 Lf) (Nd Lf a k v 0 Lf)" by blast
    have "split_root s this a (ptr l) (ptr r) = Some (k, x, a, s')"
      using s'(1) 2 l get zipper_get [OF zl [unfolded l]] by (auto simp: split_root_def bind_eq_Some_conv)
    with s'(2) 2 l show ?thesis
      by (intro exI [of _ k] exI [of _ s'] exI [of _ "Nd Lf x kx vx 0 Lf"] exI [of _ "Nd Lf a k v 0 Lf"]) simp
  next
    case 3
    obtain ll x kx vx bx lr where l: "l = Nd ll x kx vx bx lr" using 3 by (cases l) auto
    obtain rl y ky vy bz rr where r: "r = Nd rl y ky vy bz rr" using 3 by (cases r) auto
    from split_both [OF z [unfolded l r]] obtain s1 where
      s1: "do {
        s \<leftarrow> set_parent s x NULL;
        s \<leftarrow> set_left s a NULL;
        s \<leftarrow> set_root s this y;
        s \<leftarrow> set_parent s y NULL;
        delete_node s a
      } = Some s1" "roots s1 = R(this \<mapsto> ptr r)" "parted s1 this F R l r" unfolding l r by auto
    have "avl_rep s1 this (F ++ (hp s1 |` set (addrs l))) R (kvs r)"
      using parted_right [OF s1(3,2)] avl so unfolding avl_rep_def by auto
    from avl_insert_rep [OF this, of k v] obtain w s' where
      i: "avl_insert s1 this k v = Some (w, s')"
      and rep: "avl_rep s' this (F ++ (hp s1 |` set (addrs l))) R (ins_kv k v (kvs r))" by blast
    from rep obtain t where
      t: "holds s' this (F ++ (hp s1 |` set (addrs l))) R t" "avl t" "kvs t = ins_kv k v (kvs r)"
      by (rule avl_repE)
    have "ins_kv k v (kvs r) = (k, v) # kvs r"
      using so ins_kv_absent [of "[]" k "kvs r" v] by simp
    moreover have "split_root s this a (ptr l) (ptr r) = Some (k, ptr l, ptr t, s')"
      using s1(1) i 3 N get zipper_get_root [OF t(1)] l r by (auto simp: split_root_def bind_eq_Some_conv)
    ultimately show ?thesis using t parted_back [OF s1(3) t(1)] avl 3
      by (intro exI [of _ k] exI [of _ s'] exI [of _ l] exI [of _ t]) auto
  qed
qed

section \<open>split\<close>

lemma avl_split_large:
  assumes ob: "objects s G T" "T this = Some t" and avl: "avl t" and so: "sorted_kvs (kvs t)"
    and t: "length (kvs t) \<ge> 2"
  shows "\<exists>sk lt rt s' tL tR. avl_split s this = Some (sk, Some (lt, rt), s') \<and>
     objects s' G (T(this \<mapsto> Lf, lt \<mapsto> tL, rt \<mapsto> tR)) \<and> T lt = None \<and> T rt = None \<and> lt \<noteq> rt \<and>
     avl tL \<and> avl tR \<and> tL \<noteq> Lf \<and> tR \<noteq> Lf \<and> kvs tL @ kvs tR = kvs t \<and> sk = fst (hd (kvs tR))"
proof -
  note f = objects_focus [OF ob]
  obtain l a k v b r where tt: "t = Nd l a k v b r" using t by (cases t) auto
  have ne: "\<not> (l = Lf \<and> r = Lf)" using t tt by auto
  note f' = f [unfolded tt]
  have N: "ptr l = NULL \<and> ptr r = NULL \<longleftrightarrow> l = Lf \<and> r = Lf"
    using f' by (auto simp: zipper_def ptr_NULL_iff)
  from split_root_ok [OF f' avl [unfolded tt] so [unfolded tt] ne] obtain sk s1 tL tR where
    s1: "split_root s this a (ptr l) (ptr r) = Some (sk, ptr tL, ptr tR, s1)"
      and p: "parted s1 this (hp s |` (- set (addrs t))) ((roots s)(this := None)) tL tR"
      and r: "avl tL" "avl tR" "tL \<noteq> Lf" "tR \<noteq> Lf" "kvs tL @ kvs tR = kvs t" "sk = fst (hd (kvs tR))"
    unfolding tt by blast
  obtain lt s2 where n1: "AVLTree s1 = (lt, s2)" by fastforce
  then obtain s3 where n2: "set_root s2 lt (ptr tL) = Some s3"
    by (auto simp: AVLTree_def heap_defs)
  obtain rt s4 where n3: "AVLTree s3 = (rt, s4)" by fastforce
  then obtain s5 where n4: "set_root s4 rt (ptr tR) = Some s5"
    by (auto simp: AVLTree_def heap_defs)
  obtain s6 where n5: "set_root s5 this NULL = Some s6"
    using p n1 n2 n3 n4 by (auto simp: parted_def AVLTree_def heap_defs split: if_splits)
  have "avl_split s this = Some (sk, Some (lt, rt), s6)"
    using zipper_get_root [OF f'] zipper_get [OF f'] N ne s1 n1 n2 n3 n4 n5 by (simp add: avl_split_def)
  then show ?thesis using parted_objects [OF ob p n1 n2 n3 n4 n5] r by blast
qed

end
