(* ===== verification/AVL_Members.thy ===== *)
theory AVL_Members
  imports AVL_Tree AVL_Balance Tree_Objects "HOL-Library.Multiset"
begin

text \<open>The members of the AVL tree that only read it, and its destructor.\<close>

section \<open>Sums, counts and the balance check\<close>

lemma to_size_t_add: "to_size_t (a + (to_size_t b + to_size_t c)) = to_size_t (a + (b + c))"
  unfolding to_size_t_def by (metis mod_add_eq mod_add_right_eq)

lemma restrict_map_UNIV [simp]: "m |` UNIV = m"
  by (simp add: restrict_map_def)

lemma sumOfKeysHelper_ok:
  "zipper s this F R c t \<Longrightarrow> sumOfKeysHelper s (ptr t) = Some (to_size_t (sum_list (map fst (kvs t))))"
proof (induction t arbitrary: c)
  case Lf
  then show ?case by (simp add: sumOfKeysHelper.simps to_size_t_def)
next
  case (Nd l a k v b r)
  from Nd(3) have "zipper s this F R (FL a k v b r # c) l" "zipper s this F R (FR l a k v b # c) r"
    by (simp_all add: zipper_FL zipper_FR)
  with Nd zipper_get [OF Nd(3)] show ?case
    by (subst sumOfKeysHelper.simps) (simp add: to_size_t_add add.assoc add.left_commute)
qed

lemma numKeysHelper_ok:
  "zipper s this F R c t \<Longrightarrow> numKeysHelper s (ptr t) = Some (to_size_t (int (length (kvs t))))"
proof (induction t arbitrary: c)
  case Lf
  then show ?case by (simp add: numKeysHelper.simps to_size_t_def)
next
  case (Nd l a k v b r)
  from Nd(3) have "zipper s this F R (FL a k v b r # c) l" "zipper s this F R (FR l a k v b # c) r"
    by (simp_all add: zipper_FL zipper_FR)
  with Nd zipper_get [OF Nd(3)] show ?case
    by (subst numKeysHelper.simps) (simp add: to_size_t_add add.assoc add.left_commute)
qed

text \<open>The check looks at the range of the stored balances only.\<close>

fun balances_small :: "avl_ptree \<Rightarrow> bool" where
  "balances_small Lf = True"
| "balances_small (Nd l a k v b r) = (balances_small l \<and> balances_small r \<and> \<bar>b\<bar> \<le> 1)"

lemma avl_balances_small: "avl t \<Longrightarrow> balances_small t"
  by (induction t) auto

lemma doesAVLHold_ok: "zipper s this F R c t \<Longrightarrow> doesAVLHold s (ptr t) = Some (balances_small t)"
proof (induction t arbitrary: c)
  case Lf
  then show ?case by (simp add: doesAVLHold.simps)
next
  case (Nd l a k v b r)
  from Nd(3) have z: "zipper s this F R (FL a k v b r # c) l" "zipper s this F R (FR l a k v b # c) r"
    by (simp_all add: zipper_FL zipper_FR)
  show ?case using zipper_get [OF Nd(3)] Nd(1) [OF z(1)] Nd(2) [OF z(2)]
      zipper_ptr_NULL [OF z(1)] zipper_ptr_NULL [OF z(2)]
    by (subst doesAVLHold.simps) (cases "l = Lf"; cases "r = Lf"; simp)
qed

section \<open>Printing\<close>

lemma printInOrder_node_ok:
  "zipper s this F R c t \<Longrightarrow> t \<noteq> Lf \<Longrightarrow> printInOrder_node s (ptr t) = Some (map (printf_d \<circ> fst) (kvs t))"
proof (induction t arbitrary: c)
  case (Nd l a k v b r)
  from Nd(3) have z: "zipper s this F R (FL a k v b r # c) l" "zipper s this F R (FR l a k v b # c) r"
    by (simp_all add: zipper_FL zipper_FR)
  show ?case using zipper_get [OF Nd(3)] Nd(1) [OF z(1)] Nd(2) [OF z(2)]
      zipper_ptr_NULL [OF z(1)] zipper_ptr_NULL [OF z(2)]
    by (subst printInOrder_node.simps) (cases "l = Lf"; cases "r = Lf"; simp)
qed simp

text \<open>The number of nodes in a queue of subtrees bounds the work that is left.\<close>

definition queued :: "avl_ptree list \<Rightarrow> avl_ptree \<Rightarrow> avl_ptree list" where
  "queued ts t = (if t = Lf then ts else ts @ [t])"

lemma printBFS_loop_ok:
  assumes "\<forall>t \<in> set ts. t \<noteq> Lf \<and> (\<exists>c. zipper s this F R c t)"
  shows "\<exists>out. printBFS_loop s (map ptr ts) = Some out \<and>
     mset (map fst out) = mset (map (printf_d \<circ> fst) (concat (map kvs ts)))"
  using assms
proof (induction "sum_list (map (\<lambda>t. length (kvs t)) ts)" arbitrary: ts rule: less_induct)
  case less
  show ?case
  proof (cases ts)
    case Nil
    then show ?thesis by (simp add: printBFS_loop.simps)
  next
    case (Cons t us)
    with less(2) obtain l a k v b r c where t: "t = Nd l a k v b r" and z: "zipper s this F R c t"
      by (cases t) auto
    note z = z [unfolded t]
    have zl: "zipper s this F R (FL a k v b r # c) l" and zr: "zipper s this F R (FR l a k v b # c) r"
      using z by (simp_all add: zipper_FL zipper_FR)
    let ?us = "queued (queued us l) r"
    have "\<forall>t \<in> set ?us. t \<noteq> Lf \<and> (\<exists>c. zipper s this F R c t)"
      using less(2) Cons zl zr by (auto simp: queued_def)
    moreover have "sum_list (map (\<lambda>t. length (kvs t)) ?us) < sum_list (map (\<lambda>t. length (kvs t)) ts)"
      by (auto simp: Cons t queued_def)
    ultimately obtain out where out: "printBFS_loop s (map ptr ?us) = Some out"
      "mset (map fst out) = mset (map (printf_d \<circ> fst) (concat (map kvs ?us)))" using less(1) by blast
    have q: "push_child (push_child (map ptr us) (ptr l)) (ptr r) = map ptr ?us"
      using zipper_ptr_NULL [OF zl] zipper_ptr_NULL [OF zr] by (auto simp: queued_def push_child_def)
    have "\<exists>pk. (if cpar c = NULL then Some 0 else get_key s (cpar c)) = Some pk"
    proof (cases c)
      case (Cons f c')
      with z have "zipper s this F R c' (fill f t)" by (simp add: zipper_fill t)
      then show ?thesis using Cons by (cases f) (auto simp: zipper_get)
    qed simp
    then obtain pk where "(if cpar c = NULL then Some 0 else get_key s (cpar c)) = Some pk" ..
    then have "printBFS_loop s (map ptr ts) = Some ((printf_d k, printf_d pk) # out)"
      using zipper_get [OF z] out(1) q unfolding Cons t by (subst printBFS_loop.simps) simp
    moreover have "mset (map (printf_d \<circ> fst) (concat (map kvs ts))) =
        add_mset (printf_d k) (mset (map (printf_d \<circ> fst) (concat (map kvs ?us))))"
      by (simp add: Cons t queued_def)
    ultimately show ?thesis using out(2) by simp
  qed
qed

section \<open>Destruction\<close>

lemma freeTraversal_ok:
  assumes "tree (hp s) p t" "distinct (addrs t)" "t \<noteq> Lf"
  shows "freeTraversal s (ptr t) = Some (s\<lparr>hp := hp s |` (- set (addrs t))\<rparr>)"
  using assms
proof (induction t arbitrary: s p)
  case (Nd l a k v b r)
  have a: "a \<noteq> NULL" "hp s a = Some \<lparr>nkey = k, nval = v, nleft = ptr l, nright = ptr r, nparent = p, ntag = b\<rparr>"
    and lr: "tree (hp s) a l" "tree (hp s) a r" using Nd(3) by auto
  let ?s1 = "s\<lparr>hp := hp s |` (- set (addrs l))\<rparr>"
  have s1: "(if ptr l \<noteq> NULL then freeTraversal s (ptr l) else Some s) = Some ?s1"
    using Nd(1) [OF lr(1)] Nd(4) ptr_NULL_iff [OF lr(1)] by (cases "l = Lf") auto
  have r1: "tree (hp ?s1) a r"
  proof -
    have "hp s x = hp ?s1 x" if "x \<in> set (addrs r)" for x
      using that Nd(4) by (auto simp: restrict_map_def)
    with lr(2) show ?thesis using tree_cong [of r "hp s" "hp ?s1" a] by blast
  qed
  let ?s2 = "?s1\<lparr>hp := hp ?s1 |` (- set (addrs r))\<rparr>"
  have s2: "(if ptr r \<noteq> NULL then freeTraversal ?s1 (ptr r) else Some ?s1) = Some ?s2"
    using Nd(2) [OF r1] Nd(4) ptr_NULL_iff [OF r1] by (cases "r = Lf") auto
  have a2: "hp ?s1 a = hp s a" "hp ?s2 a = hp s a" using Nd(4) by auto
  have "(hp s |` (- set (addrs l)) |` (- set (addrs r)))(a := None) = hp s |` (- set (addrs (Nd l a k v b r)))"
    by (auto simp: fun_eq_iff restrict_map_def)
  then show ?case using a a2 s1 s2
    by (subst freeTraversal.simps) (simp add: heap_defs)
qed simp

lemma destroy_AVLTree_ok:
  assumes ob: "objects s G T" "T this = Some t"
  shows "\<exists>s' A. destroy_AVLTree s this = Some s' \<and> objects s' G (T(this := None)) \<and>
    roots s' = (roots s)(this := None) \<and> hp s' = hp s |` (- A) \<and> A \<subseteq> dom (hp s) \<and> card A = length (kvs t)"
proof -
  let ?s = "s\<lparr>hp := hp s |` (- set (addrs t)), roots := (roots s)(this := None)\<rparr>"
  note t = objectsD [OF ob]
  have "destroy_AVLTree s this = Some ?s"
    using freeTraversal_ok [OF t(3,4)] t(5) ptr_NULL_iff [OF t(3)]
    by (cases "t = Lf") (auto simp: destroy_AVLTree_def heap_defs)
  moreover have "objects ?s G (T(this := None))"
  proof (rule objects_replace [OF ob(1), where X = "{this}"])
    show "roots ?s = (\<lambda>x. map_option ptr ((T(this := None)) x))"
      using ob(1) by (auto simp: objects_def fun_eq_iff)
    show "NULL < brk ?s" using objects_brk [OF ob(1)] by simp
    show "x \<noteq> NULL \<and> x < brk ?s" if "(T(this := None)) x = Some u" for x u
      using that objectsD(1,2) [OF ob(1)] by (auto split: if_splits)
    have "owned T {this} = set (addrs t)" "owned (T(this := None)) {this} = {}"
      using ob(2) by (auto simp: owned_insert)
    then show "owns (hp ?s) (brk ?s) (hp s |` (- owned T {this})) (owned (T(this := None)) {this})"
      using objects_below(1) [OF ob(1)] by (auto simp: owns_def restrict_map_def split: if_splits)
  qed auto
  moreover have "set (addrs t) \<subseteq> dom (hp s)" using tree_in_dom [OF t(3)] by blast
  moreover have "card (set (addrs t)) = length (kvs t)"
    using distinct_card [OF t(4)] by (simp add: length_addrs)
  ultimately show ?thesis by (intro exI [of _ ?s] exI [of _ "set (addrs t)"]) simp
qed

end
