(* ===== verification/AVL_Set.thy ===== *)
theory AVL_Set
  imports IOSet AVL_Split AVL_Members
begin

text \<open>
  The AVL tree as an implementation of \<open>IOrderedSet\<close>, and the properties of its members.
\<close>

section \<open>The interpretation\<close>

definition avl_ops :: "avl_mem ioset_ops" where
  "avl_ops = \<lparr>io_new = AVLTree, io_find = avl_find, io_insert = avl_insert, io_erase = avl_erase,
     io_numKeys = avl_numKeys, io_sumOfKeys = avl_sumOfKeys, io_join = avl_join, io_split = avl_split\<rparr>"

lemma avl_ops_simps [simp]:
  "io_new avl_ops = AVLTree" "io_find avl_ops = avl_find" "io_insert avl_ops = avl_insert"
  "io_erase avl_ops = avl_erase" "io_numKeys avl_ops = avl_numKeys"
  "io_sumOfKeys avl_ops = avl_sumOfKeys" "io_join avl_ops = avl_join" "io_split avl_ops = avl_split"
  by (simp_all add: avl_ops_def)

text \<open>
  The objects \<open>M\<close> speaks about are AVL trees with these contents, and no node is leaked. Other
  tree objects may exist: the emptied arguments of a join, say.
\<close>

definition avl_trees :: "(addr \<Rightarrow> avl_ptree option) \<Rightarrow> (addr \<Rightarrow> kv_list option) \<Rightarrow> bool" where
  "avl_trees T M \<longleftrightarrow> (\<forall>x xs. M x = Some xs \<longrightarrow>
     (\<exists>t. T x = Some t \<and> avl t \<and> kvs t = xs \<and> sorted_kvs xs))"

definition avl_sets :: "avl_mem \<Rightarrow> (addr \<Rightarrow> kv_list option) \<Rightarrow> bool" where
  "avl_sets s M \<longleftrightarrow> (\<exists>T. objects s (\<lambda>_. None) T \<and> avl_trees T M)"

lemma avl_treesD:
  "avl_trees T M \<Longrightarrow> M x = Some xs \<Longrightarrow> \<exists>t. T x = Some t \<and> avl t \<and> kvs t = xs \<and> sorted_kvs xs"
  by (simp add: avl_trees_def)

lemma avl_setsE:
  assumes "avl_sets s M" "M x = Some xs"
  obtains T t where "objects s (\<lambda>_. None) T" "avl_trees T M" "T x = Some t" "avl t" "kvs t = xs"
    "sorted_kvs xs" "holds s x (hp s |` (- set (addrs t))) ((roots s)(x := None)) t"
  using assms avl_treesD objects_focus unfolding avl_sets_def by metis

lemma avl_sets_rep: "avl_sets s M \<Longrightarrow> M x = Some xs \<Longrightarrow> \<exists>F R. avl_rep s x F R xs"
  by (metis avl_rep_def avl_setsE)

lemma avl_sets_upd:
  "objects s (\<lambda>_. None) (T(x \<mapsto> t)) \<Longrightarrow> avl_trees T M \<Longrightarrow> avl t \<Longrightarrow> kvs t = xs \<Longrightarrow> sorted_kvs xs \<Longrightarrow>
     avl_sets s (M(x \<mapsto> xs))"
  unfolding avl_sets_def avl_trees_def by (intro exI [of _ "T(x \<mapsto> t)"]) auto

lemma avl_sets_new:
  assumes "avl_sets s M" "AVLTree s = (x, s')"
  shows "M x = None \<and> avl_sets s' (M(x \<mapsto> []))"
proof -
  from assms(1) obtain T where T: "objects s (\<lambda>_. None) T" "avl_trees T M"
    by (auto simp: avl_sets_def)
  with objects_new_tree [OF T(1) assms(2) [unfolded AVLTree_def]] show ?thesis
    using avl_sets_upd [of s' T x Lf M] avl_treesD [OF T(2), of x] by (cases "M x") auto
qed

lemma avl_sets_insert:
  assumes "avl_sets s M" "M x = Some xs"
  shows "\<exists>s'. avl_insert s x k v = Some (lookup_kv xs k, s') \<and> avl_sets s' (M(x \<mapsto> ins_kv k v xs))"
proof -
  from assms obtain T t where T: "objects s (\<lambda>_. None) T" "avl_trees T M" "T x = Some t"
    and t: "avl t" "kvs t = xs" "sorted_kvs xs"
      "holds s x (hp s |` (- set (addrs t))) ((roots s)(x := None)) t" by (rule avl_setsE)
  then have "avl_rep s x (hp s |` (- set (addrs t))) ((roots s)(x := None)) xs"
    unfolding avl_rep_def by blast
  from avl_insert_rep [OF this, of k v] obtain s' t' where
    "avl_insert s x k v = Some (lookup_kv xs k, s')"
    "holds s' x (hp s |` (- set (addrs t))) ((roots s)(x := None)) t'" "avl t'"
    "kvs t' = ins_kv k v xs" unfolding avl_rep_def by blast
  then show ?thesis
    using avl_sets_upd [OF objects_update [OF T(1,3)] T(2)] sorted_ins_kv [OF t(3)] by blast
qed

lemma avl_sets_erase:
  assumes "avl_sets s M" "M x = Some xs"
  shows "\<exists>s'. avl_erase s x k = Some (lookup_kv xs k, s') \<and> avl_sets s' (M(x \<mapsto> del_kv k xs))"
proof -
  from assms obtain T t where T: "objects s (\<lambda>_. None) T" "avl_trees T M" "T x = Some t"
    and t: "avl t" "kvs t = xs" "sorted_kvs xs"
      "holds s x (hp s |` (- set (addrs t))) ((roots s)(x := None)) t" by (rule avl_setsE)
  from avl_erase_tree [OF t(4,1)] t(2,3) obtain s' t' where
    "avl_erase s x k = Some (lookup_kv xs k, s')"
    "holds s' x (hp s |` (- set (addrs t))) ((roots s)(x := None)) t'" "avl t'"
    "kvs t' = del_kv k xs" by blast
  then show ?thesis
    using avl_sets_upd [OF objects_update [OF T(1,3)] T(2)] sorted_del_kv [OF t(3)] by blast
qed

lemma avl_trees_two:
  assumes "avl_trees T M" "avl t" "kvs t = xs" "sorted_kvs xs" "x \<noteq> z" "y \<noteq> z"
  shows "avl_trees (T(x \<mapsto> t1, y \<mapsto> t2, z \<mapsto> t)) (M(x := None, y := None, z \<mapsto> xs))"
  using assms unfolding avl_trees_def by auto

lemma avl_sets_join:
  assumes s: "avl_sets s M" "M x = Some xs" "M y = Some ys" and ne: "x \<noteq> y"
    and so: "sorted_kvs (xs @ ys)" and k: "0 \<notin> keys_of (xs @ ys)"
  shows "\<exists>z s'. avl_join s x y = Some (z, s') \<and> M z = None \<and>
    avl_sets s' (M(x := None, y := None, z \<mapsto> xs @ ys))"
proof -
  from s(1,2) obtain T t where T: "objects s (\<lambda>_. None) T" "avl_trees T M" "T x = Some t"
    and t: "avl t" "kvs t = xs" by (rule avl_setsE)
  from avl_treesD [OF T(2) s(3)] obtain u where u: "T y = Some u" "avl u" "kvs u = ys" by blast
  from avl_join_objects [OF T(1,3) u(1) ne t(1) u(2)] so k t u obtain z s' w where
    j: "avl_join s x y = Some (z, s')" "T z = None"
      "objects s' (\<lambda>_. None) (T(x \<mapsto> Lf, y \<mapsto> Lf, z \<mapsto> w))" "avl w" "kvs w = xs @ ys"
    by (auto simp: INVALID_KEY_def)
  then have "M z = None" "x \<noteq> z" "y \<noteq> z" using avl_treesD [OF T(2), of z] T(3) u(1) by (cases "M z"; auto)+
  then show ?thesis using j avl_trees_two [OF T(2) j(4,5) so] unfolding avl_sets_def by blast
qed

text \<open>The same with the objects and nodes of the memory counted.\<close>

lemma card_join:
  assumes ob: "objects s (\<lambda>_. None) T" "T x = Some t" "T y = Some u" "T z = None" and ne: "x \<noteq> y"
    and ob': "objects s' (\<lambda>_. None) (T(x \<mapsto> Lf, y \<mapsto> Lf, z \<mapsto> w))" and w: "length (kvs w) = length (kvs t) + length (kvs u)"
  shows "card (dom (hp s')) = card (dom (hp s))"
proof -
  let ?T = "T(x \<mapsto> Lf, y \<mapsto> Lf, z \<mapsto> w)" and ?X = "- {x, y, z}"
  have ne': "x \<noteq> z" "y \<noteq> z" using ob by auto
  have X: "UNIV = insert x (insert y (insert z ?X))" by blast
  have same: "owned ?T ?X = owned T ?X" by (auto simp: owned_def)
  have "card (owned T UNIV) = length (kvs t) + (length (kvs u) + card (owned T (insert z ?X)))"
    unfolding X using card_owned_insert [OF ob(1,2), of "insert y (insert z ?X)"]
      card_owned_insert [OF ob(1,3), of "insert z ?X"] ne ne' by simp
  moreover have "owned T (insert z ?X) = owned T ?X" using ob(4) by (simp add: owned_insert)
  moreover have "card (owned ?T UNIV) = length (kvs w) + card (owned ?T ?X)"
    unfolding X using card_owned_insert [OF ob', of x Lf "insert y (insert z ?X)"]
      card_owned_insert [OF ob', of y Lf "insert z ?X"] card_owned_insert [OF ob', of z w ?X] ne ne' by simp
  ultimately show ?thesis using w same objects_dom [OF ob(1)] objects_dom [OF ob'] by simp
qed

lemma avl_sets_join_nodes:
  assumes s: "avl_sets s M" "M x = Some xs" "M y = Some ys" and ne: "x \<noteq> y"
    and so: "sorted_kvs (xs @ ys)" and k: "0 \<notin> keys_of (xs @ ys)"
  shows "\<exists>z s' r. avl_join s x y = Some (z, s') \<and> M z = None \<and> roots s z = None \<and>
    avl_sets s' (M(x \<mapsto> [], y \<mapsto> [], z \<mapsto> xs @ ys)) \<and>
    roots s' = (roots s)(x \<mapsto> NULL, y \<mapsto> NULL, z \<mapsto> r) \<and> card (dom (hp s')) = card (dom (hp s))"
proof -
  from s(1,2) obtain T t where T: "objects s (\<lambda>_. None) T" "avl_trees T M" "T x = Some t"
    and t: "avl t" "kvs t = xs" by (rule avl_setsE)
  from avl_treesD [OF T(2) s(3)] obtain u where u: "T y = Some u" "avl u" "kvs u = ys" by blast
  from avl_join_objects [OF T(1,3) u(1) ne t(1) u(2)] so k t u obtain z s' w where
    j: "avl_join s x y = Some (z, s')" "T z = None"
      "objects s' (\<lambda>_. None) (T(x \<mapsto> Lf, y \<mapsto> Lf, z \<mapsto> w))" "avl w" "kvs w = xs @ ys"
    by (auto simp: INVALID_KEY_def)
  have z: "M z = None" using avl_treesD [OF T(2), of z] j(2) by (cases "M z") auto
  have "avl_trees (T(x \<mapsto> Lf, y \<mapsto> Lf, z \<mapsto> w)) (M(x \<mapsto> [], y \<mapsto> [], z \<mapsto> xs @ ys))"
    using T(2,3) u(1) j(2,4,5) so unfolding avl_trees_def by (auto simp: sorted_kvs_def)
  then have "avl_sets s' (M(x \<mapsto> [], y \<mapsto> [], z \<mapsto> xs @ ys))" using j(3) unfolding avl_sets_def by blast
  moreover have "roots s z = None" "roots s' = (roots s)(x \<mapsto> NULL, y \<mapsto> NULL, z \<mapsto> ptr w)"
    using T(1) j(2,3) by (auto simp: objects_def fun_eq_iff)
  moreover have "card (dom (hp s')) = card (dom (hp s))"
    using card_join [OF T(1,3) u(1) j(2) ne j(3)] j(5) t u by simp
  ultimately show ?thesis using j(1) z by blast
qed

text \<open>Where the mark is met: the smallest key on the right, or the largest on the left.\<close>

lemma avl_sets_join_mark:
  assumes s: "avl_sets s M" "M x = Some xs" "M y = Some ys" and ne: "xs \<noteq> []" "ys \<noteq> []"
    and h: "computeHeight s x = Some hl" "computeHeight s y = Some hr"
    and k: "fst (if hr \<le> hl then hd ys else last xs) = 0"
  shows "avl_join s x y = None"
proof -
  from s(1,2) obtain T t where T: "objects s (\<lambda>_. None) T" "avl_trees T M" "T x = Some t"
    and t: "avl t" "kvs t = xs" by (rule avl_setsE)
  from avl_treesD [OF T(2) s(3)] obtain u where u: "T y = Some u" "avl u" "kvs u = ys" by blast
  have h': "hl = int (height t)" "hr = int (height u)"
    using computeHeight_ok [OF objects_focus [OF T(1,3)] t(1)]
      computeHeight_ok [OF objects_focus [OF T(1) u(1)] u(2)] h by simp_all
  obtain nt s0 where n: "AVLTree s = (nt, s0)" by fastforce
  from objects_new_tree [OF T(1) n [unfolded AVLTree_def]] have
    ob0: "objects s0 (\<lambda>_. None) (T(nt \<mapsto> Lf))" and nt: "T nt = None" by simp_all
  have T0: "(T(nt \<mapsto> Lf)) x = Some t" "(T(nt \<mapsto> Lf)) y = Some u" using T(3) u(1) nt by auto
  note f = objects_focus [OF ob0 T0(1)] objects_focus [OF ob0 T0(2)]
  have nLf: "t \<noteq> Lf" "u \<noteq> Lf" using t u ne by auto
  show ?thesis
    using n k h' t(2) u(3) nLf zipper_get_root [OF f(1)] zipper_get_root [OF f(2)]
      zipper_ptr_NULL [OF f(1)] zipper_ptr_NULL [OF f(2)] computeHeight_ok [OF f(1) t(1)]
      computeHeight_ok [OF f(2) u(2)] minKey_ok [OF f(2)] maxKey_ok [OF f(1)]
    by (auto simp: avl_join_def join_left_taller_def join_right_taller_def assert_that_def
        INVALID_KEY_def split: if_splits prod.splits)
qed

lemma avl_sets_split:
  assumes s: "avl_sets s M" "M x = Some xs" and l: "2 \<le> length xs"
  shows "\<exists>y z s' ys zs. avl_split s x = Some (fst (hd zs), Some (y, z), s') \<and>
    xs = ys @ zs \<and> ys \<noteq> [] \<and> zs \<noteq> [] \<and> M y = None \<and> M z = None \<and> y \<noteq> z \<and>
    avl_sets s' (M(x := None, y \<mapsto> ys, z \<mapsto> zs))"
proof -
  from s obtain T t where T: "objects s (\<lambda>_. None) T" "avl_trees T M" "T x = Some t"
    and t: "avl t" "kvs t = xs" "sorted_kvs xs" by (rule avl_setsE)
  from avl_split_large [OF T(1,3) t(1)] t l obtain y z s' tL tR where
    j: "avl_split s x = Some (fst (hd (kvs tR)), Some (y, z), s')"
      "objects s' (\<lambda>_. None) (T(x \<mapsto> Lf, y \<mapsto> tL, z \<mapsto> tR))" "T y = None" "T z = None" "y \<noteq> z"
      "avl tL" "avl tR" "tL \<noteq> Lf" "tR \<noteq> Lf" "kvs tL @ kvs tR = xs" by blast
  from j t(3) have so: "sorted_kvs (kvs tL)" "sorted_kvs (kvs tR)" by auto
  have M: "M y = None" "M z = None"
    using j(3,4) avl_treesD [OF T(2), of y] avl_treesD [OF T(2), of z] by (cases "M y"; cases "M z"; auto)+
  have "avl_trees (T(x \<mapsto> Lf, y \<mapsto> tL, z \<mapsto> tR)) (M(x := None, y \<mapsto> kvs tL, z \<mapsto> kvs tR))"
    using T(2) j(5-7) so unfolding avl_trees_def by auto
  then have "avl_sets s' (M(x := None, y \<mapsto> kvs tL, z \<mapsto> kvs tR))" using j(2) unfolding avl_sets_def by blast
  then show ?thesis using j M kvs_Nil_iff by blast
qed

interpretation avl_set: ordered_set avl_ops avl_sets
proof (unfold_locales, goal_cases)
  case (1 w M x xs)
  then show ?case by (metis avl_setsE)
next
  case (2 w M)
  then show ?case by (metis avl_setsE not_None_eq objectsD(1))
next
  case (3 w M x w')
  then show ?case using avl_sets_new by simp
next
  case (4 w M x xs k)
  with avl_sets_rep [OF 4] avl_find_rep [of w x _ _ xs k] show ?case by auto
next
  case (5 w M x xs k v)
  then show ?case using avl_sets_insert by simp
next
  case (6 w M x xs k)
  then show ?case using avl_sets_erase by simp
next
  case (7 w M x xs y ys)
  from avl_sets_join [OF 7] obtain z w' where "avl_join w x y = Some (z, w')" "M z = None"
    "avl_sets w' (M(x := None, y := None, z \<mapsto> xs @ ys))" by blast
  then show ?case by (intro exI [of _ z] exI [of _ w']) simp
next
  case (8 w M x xs)
  then obtain t where "holds w x (hp w |` (- set (addrs t))) ((roots w)(x := None)) t" "kvs t = xs"
    by (metis avl_setsE)
  then show ?case using numKeysHelper_ok zipper_get_root by (fastforce simp: avl_numKeys_def)
next
  case (9 w M x xs)
  then obtain t where "holds w x (hp w |` (- set (addrs t))) ((roots w)(x := None)) t" "kvs t = xs"
    by (metis avl_setsE)
  then show ?case using sumOfKeysHelper_ok zipper_get_root by (fastforce simp: avl_sumOfKeys_def)
next
  case (10 w M x xs)
  then obtain T t where "objects w (\<lambda>_. None) T" "T x = Some t" "kvs t = xs"
    by (metis avl_setsE)
  with avl_split_small 10 show ?case by fastforce
next
  case (11 w M x xs)
  then show ?case using avl_sets_split by simp
qed


section \<open>Heights\<close>

text \<open>An AVL tree of height \<open>h\<close> has at least \<open>2 ^ (h div 2) - 1\<close> nodes.\<close>

lemma avl_height_bound: "avl t \<Longrightarrow> 2 ^ (height t div 2) \<le> length (kvs t) + 1"
proof (induction "height t" arbitrary: t rule: less_induct)
  case less
  show ?case
  proof (cases t)
    case (Nd l a k v b r)
    show ?thesis
    proof (cases "height t \<le> 1")
      case True
      then have "height t div 2 = 0" by simp
      then show ?thesis by simp
    next
      case False
      have hl: "height t \<le> height l + 2" and hr: "height t \<le> height r + 2"
        and lt: "height l < height t" "height r < height t" and a: "avl l" "avl r"
        using less(2) Nd by auto
      have "(2::nat) ^ (height t div 2 - 1) \<le> 2 ^ (height l div 2)"
        using hl by (intro power_increasing) auto
      also have "\<dots> \<le> length (kvs l) + 1" by (rule less(1) [OF lt(1) a(1)])
      finally have L: "(2::nat) ^ (height t div 2 - 1) \<le> length (kvs l) + 1" .
      have "(2::nat) ^ (height t div 2 - 1) \<le> 2 ^ (height r div 2)"
        using hr by (intro power_increasing) auto
      also have "\<dots> \<le> length (kvs r) + 1" by (rule less(1) [OF lt(2) a(2)])
      finally have "(2::nat) ^ (height t div 2 - 1) \<le> length (kvs r) + 1" .
      with L have "2 * (2::nat) ^ (height t div 2 - 1) \<le> length (kvs t) + 1" using Nd by simp
      moreover have "2 * (2::nat) ^ (height t div 2 - 1) = 2 ^ (height t div 2)"
        using False by (cases "height t div 2") auto
      ultimately show ?thesis by simp
    qed
  qed simp
qed

section \<open>Concrete memories\<close>

definition avl_mem_of :: "kv_list list \<Rightarrow> avl_mem" where
  "avl_mem_of xss = sets_of avl_ops empty_mem xss"

lemma avl_sets_empty: "avl_sets empty_mem (\<lambda>_. None)"
  using objects_empty by (auto simp: avl_sets_def avl_trees_def)

lemma avl_mem_of_snoc:
  assumes "avl_sets (avl_mem_of xss) M"
  shows "avl_sets (avl_mem_of (xss @ [xs])) (M(brk (avl_mem_of xss) \<mapsto> ins_all xs []))"
  using avl_set.sets_of_snoc [of empty_mem xss M xs] assms
  by (simp add: avl_mem_of_def AVLTree_def new_tree_def)

lemma avl_mem_of_Nil: "avl_sets (avl_mem_of []) (\<lambda>_. None)"
  using avl_sets_empty by (simp add: avl_mem_of_def sets_of_def)

end
