(* ===== verification/AVL_Properties.thy ===== *)
theory AVL_Properties
  imports AVL_Set
begin

text \<open>The properties of the AVL tree, each with a run on a concrete memory.\<close>

section \<open>Two memories\<close>

text \<open>
  A tree of six keys (object 1), and a memory with two trees (objects 1 and 4).
\<close>

abbreviation six :: kv_list where
  "six \<equiv> [(10, 1), (20, 2), (30, 3), (40, 4), (50, 5), (25, 6)]"

abbreviation six_sorted :: kv_list where
  "six_sorted \<equiv> [(10, 1), (20, 2), (25, 6), (30, 3), (40, 4), (50, 5)]"

lemma six_sets: "avl_sets (avl_mem_of [six]) [1 \<mapsto> six_sorted]"
proof -
  have "brk (avl_mem_of []) = 1" by code_simp
  with avl_mem_of_snoc [OF avl_mem_of_Nil, of six] show ?thesis by (simp add: ins_all_def)
qed

lemma six_rep: "\<exists>F R. avl_rep (avl_mem_of [six]) 1 F R six_sorted"
  using avl_sets_rep [OF six_sets, of 1 six_sorted] by simp

lemma two_sets: "avl_sets (avl_mem_of [[(1, 1), (2, 2)], [(5, 5)]]) [1 \<mapsto> [(1, 1), (2, 2)], 4 \<mapsto> [(5, 5)]]"
proof -
  have 1: "avl_sets (avl_mem_of [[(1, 1), (2, 2)]]) [1 \<mapsto> [(1, 1), (2, 2)]]"
  proof -
    have "brk (avl_mem_of []) = 1" by code_simp
    with avl_mem_of_snoc [OF avl_mem_of_Nil, of "[(1, 1), (2, 2)]"] show ?thesis
      by (simp add: ins_all_def)
  qed
  have "brk (avl_mem_of [[(1, 1), (2, 2)]]) = 4" by code_simp
  with avl_mem_of_snoc [OF 1, of "[(5, 5)]"] show ?thesis by (simp add: ins_all_def)
qed

section \<open>Dictionary operations\<close>

text \<open>
  C1. \<open>insert\<close> on any AVL tree returns, without touching memory that is not the tree's: the value
  the key had (0 when it was absent), and leaves an AVL tree over the same pairs, plus the new
  one when the key was absent; an existing value is not overwritten.
\<close>

theorem avl_insert_correct:
  assumes "avl_rep s this F R xs"
  shows "\<exists>s'. avl_insert s this k v = Some (lookup_kv xs k, s') \<and> avl_rep s' this F R (ins_kv k v xs)"
  using assms by (rule avl_insert_rep)

theorem avl_insert_correct_witness:
  "\<exists>F R s'. avl_rep (avl_mem_of [six]) 1 F R six_sorted \<and>
     avl_insert (avl_mem_of [six]) 1 27 7 = Some (0, s') \<and>
     avl_rep s' 1 F R [(10, 1), (20, 2), (25, 6), (27, 7), (30, 3), (40, 4), (50, 5)]"
proof -
  obtain F R where r: "avl_rep (avl_mem_of [six]) 1 F R six_sorted" using six_rep by blast
  from avl_insert_correct [OF r, of 27 7] r show ?thesis by (auto simp: lookup_kv_def)
qed

text \<open>
  C2. \<open>erase\<close> on any AVL tree returns the value the key had and leaves an AVL tree over the
  remaining pairs; the node removed is freed and nothing outside the tree changes.
\<close>

theorem avl_erase_correct:
  assumes "avl_rep s this F R xs"
  shows "\<exists>s'. avl_erase s this k = Some (lookup_kv xs k, s') \<and> avl_rep s' this F R (del_kv k xs)"
  using assms by (rule avl_erase_rep)

theorem avl_erase_correct_witness:
  "\<exists>F R s'. avl_rep (avl_mem_of [six]) 1 F R six_sorted \<and>
     avl_erase (avl_mem_of [six]) 1 40 = Some (4, s') \<and>
     avl_rep s' 1 F R [(10, 1), (20, 2), (25, 6), (30, 3), (50, 5)]"
proof -
  obtain F R where r: "avl_rep (avl_mem_of [six]) 1 F R six_sorted" using six_rep by blast
  from avl_erase_correct [OF r, of 40] r show ?thesis by (auto simp: lookup_kv_def)
qed

text \<open>C3. \<open>find\<close> returns the value bound to the key, or 0 when it is absent.\<close>

theorem avl_find_correct: "avl_rep s this F R xs \<Longrightarrow> avl_find s this k = Some (lookup_kv xs k)"
  by (rule avl_find_rep)

theorem avl_find_correct_witness:
  "\<exists>F R. avl_rep (avl_mem_of [six]) 1 F R six_sorted \<and>
     avl_find (avl_mem_of [six]) 1 25 = Some 6 \<and> avl_find (avl_mem_of [six]) 1 26 = Some 0"
proof -
  obtain F R where r: "avl_rep (avl_mem_of [six]) 1 F R six_sorted" using six_rep by blast
  from avl_find_correct [OF r, of 25] avl_find_correct [OF r, of 26] r show ?thesis
    by (auto simp: lookup_kv_def)
qed

text \<open>
  C4. A new tree answers every sequence of \<open>find\<close>, \<open>insert\<close> and \<open>erase\<close> calls as a finite map does:
  no call fails or runs forever, whatever the sequence is.
\<close>

theorem avl_refines_map:
  "\<exists>s'. calls avl_ops (snd (AVLTree empty_mem)) (fst (AVLTree empty_mem)) cs =
     Some (fst (map_calls (\<lambda>_. None) cs), s')"
  by (rule avl_set.new_calls [OF avl_sets_empty]) simp

section \<open>Join and split\<close>

text \<open>
  C5. \<open>join\<close> of two trees whose keys are ordered makes a new AVL tree over all pairs, in a new
  object; the two arguments are left as empty trees, every other object keeps its root and
  every other tree its contents, and there are as many nodes as before: none is lost. The keys must
  not be 0: the code takes 0 for the mark of a missing key and asserts that it is not met.
\<close>

theorem avl_join_correct:
  assumes "avl_sets s M" "M x = Some xs" "M y = Some ys" "x \<noteq> y" "sorted_kvs (xs @ ys)"
    "0 \<notin> keys_of (xs @ ys)"
  shows "\<exists>z s' r. avl_join s x y = Some (z, s') \<and> M z = None \<and> roots s z = None \<and>
    avl_sets s' (M(x \<mapsto> [], y \<mapsto> [], z \<mapsto> xs @ ys)) \<and>
    roots s' = (roots s)(x \<mapsto> NULL, y \<mapsto> NULL, z \<mapsto> r) \<and> card (dom (hp s')) = card (dom (hp s))"
  using assms by (rule avl_sets_join_nodes)

theorem avl_join_correct_witness:
  "\<exists>z s' r. avl_join (avl_mem_of [[(1, 1), (2, 2)], [(5, 5)]]) 1 4 = Some (z, s') \<and>
     avl_sets s' [1 \<mapsto> [], 4 \<mapsto> [], z \<mapsto> [(1, 1), (2, 2), (5, 5)]] \<and>
     roots s' = (roots (avl_mem_of [[(1, 1), (2, 2)], [(5, 5)]]))(1 \<mapsto> NULL, 4 \<mapsto> NULL, z \<mapsto> r)"
  using avl_join_correct [OF two_sets, of 1 "[(1, 1), (2, 2)]" 4 "[(5, 5)]"] by (fastforce simp: fun_upd_twist)

text \<open>
  C6. \<open>split\<close> of a tree with at least two keys makes two non-empty AVL trees; the first has the
  keys below the returned split key, the second those from the split key on.
\<close>

theorem avl_split_correct:
  assumes "avl_sets s M" "M x = Some xs" "2 \<le> length xs"
  shows "\<exists>y z s' ys zs. avl_split s x = Some (fst (hd zs), Some (y, z), s') \<and>
    xs = ys @ zs \<and> ys \<noteq> [] \<and> zs \<noteq> [] \<and> M y = None \<and> M z = None \<and> y \<noteq> z \<and>
    avl_sets s' (M(x := None, y \<mapsto> ys, z \<mapsto> zs))"
  using assms by (rule avl_sets_split)

theorem avl_split_correct_witness:
  "\<exists>y z s' ys zs. avl_split (avl_mem_of [six]) 1 = Some (fst (hd zs), Some (y, z), s') \<and>
     six_sorted = ys @ zs \<and> ys \<noteq> [] \<and> zs \<noteq> [] \<and> avl_sets s' [y \<mapsto> ys, z \<mapsto> zs]"
  using avl_split_correct [OF six_sets, of 1 six_sorted] by (auto simp: fun_upd_idem) blast

text \<open>
  C7. Splitting a tree without the key 0 and joining the two halves gives a tree with the
  contents of before. (With the key 0 the join may fail, as the next property shows.)
\<close>

theorem avl_split_join_roundtrip:
  assumes "avl_sets s M" "M x = Some xs" "2 \<le> length xs" "0 \<notin> keys_of xs"
  shows "\<exists>sk y z s1 u s2. avl_split s x = Some (sk, Some (y, z), s1) \<and>
    avl_join s1 y z = Some (u, s2) \<and> avl_sets s2 ((M(x := None))(u \<mapsto> xs))"
  using avl_set.split_then_join [OF assms] by simp

theorem avl_split_join_roundtrip_witness:
  "\<exists>sk y z s1 u s2. avl_split (avl_mem_of [six]) 1 = Some (sk, Some (y, z), s1) \<and>
     avl_join s1 y z = Some (u, s2) \<and> avl_sets s2 [u \<mapsto> six_sorted]"
  using avl_split_join_roundtrip [OF six_sets, of 1 six_sorted] by (simp add: fun_upd_idem)

text \<open>
  C8. The key 0 makes a join fail, although \<open>insert\<close>, \<open>erase\<close> and \<open>find\<close> treat it as any other key:
  when both trees are non-empty and 0 is the smallest key of the right tree (if the left tree is
  not lower) or the largest key of the left tree (if it is lower), the assertion that the key is
  not the mark 0 fires. So it does for the halves of a split: the tree with the keys 0, 1, 2 and 3
  is split at 1 into 0 and the rest.
\<close>

theorem avl_join_key_zero:
  assumes "avl_sets s M" "M x = Some xs" "M y = Some ys" "xs \<noteq> []" "ys \<noteq> []"
    "computeHeight s x = Some hl" "computeHeight s y = Some hr"
    "fst (if hr \<le> hl then hd ys else last xs) = 0"
  shows "avl_join s x y = None"
  using assms by (rule avl_sets_join_mark)

theorem avl_join_key_zero_witness:
  "\<exists>y z s1. avl_split (avl_mem_of [[(1, 5), (0, 6), (2, 7), (3, 8)]]) 1 = Some (1, Some (y, z), s1) \<and>
     computeHeight s1 y = Some 1 \<and> computeHeight s1 z = Some 2 \<and> avl_join s1 y z = None"
proof -
  let ?s = "avl_mem_of [[(1, 5), (0, 6), (2, 7), (3, 8)]]"
  have "brk (avl_mem_of []) = 1" by code_simp
  with avl_mem_of_snoc [OF avl_mem_of_Nil, of "[(1, 5), (0, 6), (2, 7), (3, 8)]"]
  have M: "avl_sets ?s [1 \<mapsto> [(0, 6), (1, 5), (2, 7), (3, 8)]]" by (simp add: ins_all_def)
  from avl_sets_split [OF M, of 1] obtain y z s1 ys zs where
    sp: "avl_split ?s 1 = Some (fst (hd zs), Some (y, z), s1)" "[(0, 6), (1, 5), (2, 7), (3, 8)] = ys @ zs"
      "ys \<noteq> []" "zs \<noteq> []" "y \<noteq> z" "avl_sets s1 [y \<mapsto> ys, z \<mapsto> zs]" by (auto simp: fun_upd_idem)
  have "do { (k, h, s1) \<leftarrow> avl_split ?s 1; (y, z) \<leftarrow> h; l \<leftarrow> computeHeight s1 y; r \<leftarrow> computeHeight s1 z;
      Some (k, l, r) } = Some (1, 1, 2)" by code_simp
  with sp(1) have h: "fst (hd zs) = 1" "computeHeight s1 y = Some 1" "computeHeight s1 z = Some 2"
    by (auto simp: bind_eq_Some_conv)
  from sp(2-4) h(1) have "ys = [(0, 6)]" by (auto simp: Cons_eq_append_conv)
  with avl_join_key_zero [OF sp(6), of y ys z zs 1 2] h sp show ?thesis by simp
qed

section \<open>Shape, size and destruction\<close>

text \<open>
  C9. The height that the code computes by walking down the higher side is the height of the
  tree, and a tree of that height has at least \<open>2 ^ (height div 2) - 1\<close> keys: every search loop
  ends within \<open>2 * log2 (n + 1) + 1\<close> steps.
\<close>

theorem avl_height_logarithmic:
  assumes "holds s this F R t" "avl t"
  shows "computeHeight s this = Some (int (height t)) \<and> 2 ^ (height t div 2) \<le> length (kvs t) + 1"
  using computeHeight_ok [OF assms] avl_height_bound [OF assms(2)] by simp

theorem avl_height_logarithmic_witness:
  "\<exists>F R t. holds (avl_mem_of [six]) 1 F R t \<and> avl t \<and> kvs t = six_sorted \<and>
     computeHeight (avl_mem_of [six]) 1 = Some (int (height t)) \<and> 2 ^ (height t div 2) \<le> (7::nat)"
proof -
  obtain F R where "avl_rep (avl_mem_of [six]) 1 F R six_sorted" using six_rep by blast
  then obtain t where t: "holds (avl_mem_of [six]) 1 F R t" "avl t" "kvs t = six_sorted" by (rule avl_repE)
  have "2 ^ (height t div 2) \<le> (7::nat)" using avl_height_logarithmic [OF t(1,2)] t(3) by simp
  with avl_height_logarithmic [OF t(1,2)] t show ?thesis by blast
qed

text \<open>
  C10. \<open>numKeys\<close> and \<open>sumOfKeys\<close> are the number and the sum of the keys modulo \<open>2 ^ 64\<close>, and
  \<open>checkAVL\<close> holds.
\<close>

theorem avl_checks:
  assumes "avl_rep s this F R xs"
  shows "avl_numKeys s this = Some (to_size_t (int (length xs))) \<and>
    avl_sumOfKeys s this = Some (to_size_t (sum_list (map fst xs))) \<and> checkAVL s this = Some True"
proof -
  from assms obtain t where t: "holds s this F R t" "avl t" "kvs t = xs" by (rule avl_repE)
  with numKeysHelper_ok [OF t(1)] sumOfKeysHelper_ok [OF t(1)] doesAVLHold_ok [OF t(1)]
    avl_balances_small [OF t(2)] zipper_get_root [OF t(1)] show ?thesis
    by (simp add: avl_numKeys_def avl_sumOfKeys_def checkAVL_def)
qed

theorem avl_checks_witness:
  "avl_numKeys (avl_mem_of [six]) 1 = Some 6 \<and> avl_sumOfKeys (avl_mem_of [six]) 1 = Some 175 \<and>
     checkAVL (avl_mem_of [six]) 1 = Some True"
proof -
  obtain F R where r: "avl_rep (avl_mem_of [six]) 1 F R six_sorted" using six_rep by blast
  from avl_checks [OF r] show ?thesis by (simp add: to_size_t_def)
qed

text \<open>
  C11. The destructor frees the nodes of its tree and nothing else: the store loses a set \<open>A\<close> of
  allocated nodes, one for each pair of the tree, the object is gone, and the other trees keep
  their contents.
\<close>

theorem avl_destructor_frees:
  assumes "avl_sets s M" "M x = Some xs"
  shows "\<exists>s' A. destroy_AVLTree s x = Some s' \<and> avl_sets s' (M(x := None)) \<and>
    roots s' = (roots s)(x := None) \<and> hp s' = hp s |` (- A) \<and> A \<subseteq> dom (hp s) \<and> card A = length xs"
proof -
  from assms obtain T t where T: "objects s (\<lambda>_. None) T" "avl_trees T M" "T x = Some t" "kvs t = xs"
    by (rule avl_setsE)
  have "avl_trees (T(x := None)) (M(x := None))"
    using T(2) by (auto simp: avl_trees_def)
  with destroy_AVLTree_ok [OF T(1,3)] T(4) show ?thesis unfolding avl_sets_def by blast
qed

theorem avl_destructor_frees_witness:
  "\<exists>s' A. destroy_AVLTree (avl_mem_of [[(1, 1), (2, 2)], [(5, 5)]]) 1 = Some s' \<and>
     avl_sets s' [4 \<mapsto> [(5, 5)]] \<and>
     hp s' = hp (avl_mem_of [[(1, 1), (2, 2)], [(5, 5)]]) |` (- A) \<and> card A = 2"
proof -
  from avl_destructor_frees [OF two_sets, of 1 "[(1, 1), (2, 2)]"] obtain s' A where
    "destroy_AVLTree (avl_mem_of [[(1, 1), (2, 2)], [(5, 5)]]) 1 = Some s'" "avl_sets s' [4 \<mapsto> [(5, 5)]]"
    "hp s' = hp (avl_mem_of [[(1, 1), (2, 2)], [(5, 5)]]) |` (- A)" "card A = 2" by (auto simp: fun_upd_twist)
  then show ?thesis by blast
qed

text \<open>
  C12. The breadth-first printer ends and prints a line for every key, which shows the key as the
  conversion \<open>%d\<close> does: its low 32 bits.
\<close>

theorem avl_print_bfs:
  assumes "avl_rep s this F R xs"
  shows "\<exists>out. printBFSOrder s this = Some out \<and> mset (map fst out) = mset (map (printf_d \<circ> fst) xs)"
proof -
  from assms obtain t where t: "holds s this F R t" "kvs t = xs" by (rule avl_repE)
  show ?thesis
  proof (cases "t = Lf")
    case True
    with t zipper_get_root [OF t(1)] show ?thesis by (simp add: printBFSOrder_def)
  next
    case False
    with printBFS_loop_ok [of "[t]" s this F R] t zipper_get_root [OF t(1)] zipper_ptr_NULL [OF t(1)]
    show ?thesis by (auto simp: printBFSOrder_def)
  qed
qed

theorem avl_print_bfs_witness:
  "\<exists>out. printBFSOrder (avl_mem_of [[(4294967297, 1), (20, 2)]]) 1 = Some out \<and> mset (map fst out) = mset [1, 20]"
proof -
  have "brk (avl_mem_of []) = 1" by code_simp
  with avl_mem_of_snoc [OF avl_mem_of_Nil, of "[(4294967297, 1), (20, 2)]"]
  have "avl_sets (avl_mem_of [[(4294967297, 1), (20, 2)]]) [1 \<mapsto> [(20, 2), (4294967297, 1)]]"
    by (simp add: ins_all_def)
  from avl_sets_rep [OF this, of 1] obtain F R where
    r: "avl_rep (avl_mem_of [[(4294967297, 1), (20, 2)]]) 1 F R [(20, 2), (4294967297, 1)]" by auto
  from avl_print_bfs [OF r] show ?thesis by (simp add: printf_d_def to_int32_def add_mset_commute)
qed

text \<open>
  C13. On an empty tree the three members that start from the root without a test, \<open>minKey\<close>,
  \<open>maxKey\<close> and \<open>printInOrderTraversal\<close>, dereference the null pointer.
\<close>

theorem avl_empty_null_dereference:
  assumes "avl_rep s this F R []"
  shows "minKey s this = None \<and> maxKey s this = None \<and> printInOrderTraversal s this = None"
proof -
  from assms obtain t where "holds s this F R t" "kvs t = []" by (rule avl_repE)
  then have "get_root s this = Some NULL" using zipper_get_root [of s this F R "[]" t] by simp
  then show ?thesis
    by (simp add: minKey_def maxKey_def printInOrderTraversal_def leftmost.simps rightmost.simps
        printInOrder_node.simps) (simp add: heap_defs)
qed

theorem avl_empty_null_dereference_witness:
  "minKey (avl_mem_of [[]]) 1 = None \<and> maxKey (avl_mem_of [[]]) 1 = None \<and>
     printInOrderTraversal (avl_mem_of [[]]) 1 = None"
proof -
  have "brk (avl_mem_of []) = 1" by code_simp
  with avl_mem_of_snoc [OF avl_mem_of_Nil, of "[]"] have "avl_sets (avl_mem_of [[]]) [1 \<mapsto> []]"
    by (simp add: ins_all_def)
  then obtain F R where "avl_rep (avl_mem_of [[]]) 1 F R []"
    using avl_sets_rep [of "avl_mem_of [[]]" "[1 \<mapsto> []]" 1 "[]"] by auto
  then show ?thesis by (rule avl_empty_null_dereference)
qed

end
