(* ===== verification/Linked_List.thy ===== *)
theory Linked_List
  imports Prelude
begin

text \<open>
  The sequential sorted list of \<open>src/cpp/ds/winblad_catree/linkedlist.h\<close> (class \<open>LinkedList\<close>),
  the third set a contention-adapting tree may hold in its base nodes. A list object has the
  fields \<open>head\<close>, \<open>tail\<close> and \<open>size\<close> (a \<open>size_t\<close>); the counters of some members are of type
  \<open>int\<close> and the conversions to 32 bits are written out.
\<close>

section \<open>Store\<close>

record lnode =
  lkey :: key
  lval :: val
  lnext :: addr

record llist =
  lhead :: addr
  ltail :: addr
  lsize :: int

record ll_mem =
  lnodes :: "addr \<Rightarrow> lnode option"
  lists :: "addr \<Rightarrow> llist option"
  lbrk :: addr

definition empty_ll :: ll_mem where
  "empty_ll = \<lparr>lnodes = \<lambda>_. None, lists = \<lambda>_. None, lbrk = 1\<rparr>"

definition lget :: "ll_mem \<Rightarrow> addr \<Rightarrow> lnode option" where
  [heap_defs]: "lget s p = (if p = NULL then None else lnodes s p)"

definition get_next :: "ll_mem \<Rightarrow> addr \<Rightarrow> addr option" where
  [heap_defs]: "get_next s p = map_option lnext (lget s p)"

definition get_lkey :: "ll_mem \<Rightarrow> addr \<Rightarrow> key option" where
  [heap_defs]: "get_lkey s p = map_option lkey (lget s p)"

definition get_lval :: "ll_mem \<Rightarrow> addr \<Rightarrow> val option" where
  [heap_defs]: "get_lval s p = map_option lval (lget s p)"

definition set_next :: "ll_mem \<Rightarrow> addr \<Rightarrow> addr \<Rightarrow> ll_mem option" where
  [heap_defs]: "set_next s p q =
     map_option (\<lambda>n. s\<lparr>lnodes := (lnodes s)(p \<mapsto> n\<lparr>lnext := q\<rparr>)\<rparr>) (lget s p)"

definition new_lnode :: "ll_mem \<Rightarrow> key \<Rightarrow> val \<Rightarrow> addr \<Rightarrow> addr \<times> ll_mem" where
  [heap_defs]: "new_lnode s k v q =
     (lbrk s, s\<lparr>lnodes := (lnodes s)(lbrk s \<mapsto> \<lparr>lkey = k, lval = v, lnext = q\<rparr>), lbrk := lbrk s + 1\<rparr>)"

definition delete_lnode :: "ll_mem \<Rightarrow> addr \<Rightarrow> ll_mem option" where
  [heap_defs]: "delete_lnode s p =
     map_option (\<lambda>_. s\<lparr>lnodes := (lnodes s)(p := None)\<rparr>) (lget s p)"

definition put_list :: "ll_mem \<Rightarrow> addr \<Rightarrow> llist \<Rightarrow> ll_mem" where
  [heap_defs]: "put_list s this l = s\<lparr>lists := (lists s)(this \<mapsto> l)\<rparr>"

section \<open>Construction and destruction\<close>

definition LinkedList :: "ll_mem \<Rightarrow> addr \<times> ll_mem" where
  "LinkedList s =
     (lbrk s, s\<lparr>lists := (lists s)(lbrk s \<mapsto> \<lparr>lhead = NULL, ltail = NULL, lsize = 0\<rparr>), lbrk := lbrk s + 1\<rparr>)"

partial_function (option) free_list :: "ll_mem \<Rightarrow> addr \<Rightarrow> ll_mem option" where
  "free_list s cur =
     (if cur = NULL then Some s
      else do {
        next \<leftarrow> get_next s cur;
        s \<leftarrow> delete_lnode s cur;
        free_list s next
      })"

definition destroy_LinkedList :: "ll_mem \<Rightarrow> addr \<Rightarrow> ll_mem option" where
  "destroy_LinkedList s this = do {
     l \<leftarrow> lists s this;
     s \<leftarrow> free_list s (lhead l);
     Some (s\<lparr>lists := (lists s)(this := None)\<rparr>)
   }"

section \<open>Dictionary operations\<close>

text \<open>The loop that stops at the first key that is not smaller; the last node passed and that node.\<close>

partial_function (option) ll_search :: "ll_mem \<Rightarrow> key \<Rightarrow> addr \<Rightarrow> addr \<Rightarrow> (addr \<times> addr) option" where
  "ll_search s key prev cur =
     (if cur = NULL then Some (prev, cur)
      else do {
        k \<leftarrow> get_lkey s cur;
        if k < key then do {
          next \<leftarrow> get_next s cur;
          ll_search s key cur next
        }
        else Some (prev, cur)
      })"

text \<open>\<open>curr != NULL && curr->key == key\<close>\<close>

definition at_key :: "ll_mem \<Rightarrow> addr \<Rightarrow> key \<Rightarrow> bool option" where
  "at_key s cur key =
     (if cur = NULL then Some False else map_option (\<lambda>k. k = key) (get_lkey s cur))"

definition ll_find :: "ll_mem \<Rightarrow> addr \<Rightarrow> key \<Rightarrow> val option" where
  "ll_find s this key = do {
     l \<leftarrow> lists s this;
     (_, cur) \<leftarrow> ll_search s key NULL (lhead l);
     found \<leftarrow> at_key s cur key;
     if found then get_lval s cur else Some NO_VALUE
   }"

definition ll_insert :: "ll_mem \<Rightarrow> addr \<Rightarrow> key \<Rightarrow> val \<Rightarrow> (val \<times> ll_mem) option" where
  "ll_insert s this key val = do {
     l \<leftarrow> lists s this;
     if lhead l = NULL then do {
       let (newNode, s) = new_lnode s key val NULL;
       Some (NO_VALUE, put_list s this
         \<lparr>lhead = newNode, ltail = newNode, lsize = to_size_t (lsize l + 1)\<rparr>)
     }
     else do {
       (prev, cur) \<leftarrow> ll_search s key NULL (lhead l);
       found \<leftarrow> at_key s cur key;
       if found then do {
         v \<leftarrow> get_lval s cur;
         Some (v, s)
       }
       else do {
         let (newNode, s) = new_lnode s key val cur;
         if prev = NULL then do {
           k \<leftarrow> get_lkey s cur;
           _ \<leftarrow> assert_that (key < k);
           Some (NO_VALUE, put_list s this (l\<lparr>lhead := newNode, lsize := to_size_t (lsize l + 1)\<rparr>))
         }
         else do {
           s \<leftarrow> set_next s prev newNode;
           Some (NO_VALUE, put_list s this
             (l\<lparr>ltail := (if prev = ltail l then newNode else ltail l), lsize := to_size_t (lsize l + 1)\<rparr>))
         }
       }
     }
   }"

definition ll_erase :: "ll_mem \<Rightarrow> addr \<Rightarrow> key \<Rightarrow> (val \<times> ll_mem) option" where
  "ll_erase s this key = do {
     l \<leftarrow> lists s this;
     if lhead l = NULL then Some (NO_VALUE, s)
     else do {
       (prev, cur) \<leftarrow> ll_search s key NULL (lhead l);
       found \<leftarrow> at_key s cur key;
       if \<not> found then Some (NO_VALUE, s)
       else do {
         retval \<leftarrow> get_lval s cur;
         next \<leftarrow> get_next s cur;
         (l, s) \<leftarrow> (if prev = NULL then do {
             _ \<leftarrow> assert_that (cur = lhead l);
             Some (if lhead l = ltail l then l\<lparr>lhead := NULL, ltail := NULL\<rparr>
                   else l\<lparr>lhead := next\<rparr>, s)
           }
           else do {
             s \<leftarrow> set_next s prev next;
             Some (if cur = ltail l then l\<lparr>ltail := prev\<rparr> else l, s)
           });
         s \<leftarrow> delete_lnode s cur;
         Some (retval, put_list s this (l\<lparr>lsize := to_size_t (lsize l - 1)\<rparr>))
       }
     }
   }"

section \<open>Observers\<close>

definition ll_getSize :: "ll_mem \<Rightarrow> addr \<Rightarrow> int option" where
  "ll_getSize s this = map_option lsize (lists s this)"

definition ll_isEmpty :: "ll_mem \<Rightarrow> addr \<Rightarrow> bool option" where
  "ll_isEmpty s this = map_option (\<lambda>l. lhead l = NULL) (lists s this)"

text \<open>Both counters are of type \<open>int\<close>; the results are converted to \<open>size_t\<close>.\<close>

partial_function (option) ll_numKeys_loop :: "ll_mem \<Rightarrow> addr \<Rightarrow> int \<Rightarrow> int option" where
  "ll_numKeys_loop s cur acc =
     (if cur = NULL then Some acc
      else do {
        next \<leftarrow> get_next s cur;
        ll_numKeys_loop s next (to_int32 (acc + 1))
      })"

definition ll_numKeys :: "ll_mem \<Rightarrow> addr \<Rightarrow> int option" where
  "ll_numKeys s this = do {
     l \<leftarrow> lists s this;
     n \<leftarrow> ll_numKeys_loop s (lhead l) 0;
     Some (to_size_t n)
   }"

partial_function (option) ll_sumOfKeys_loop :: "ll_mem \<Rightarrow> addr \<Rightarrow> int \<Rightarrow> int option" where
  "ll_sumOfKeys_loop s cur acc =
     (if cur = NULL then Some acc
      else do {
        k \<leftarrow> get_lkey s cur;
        next \<leftarrow> get_next s cur;
        ll_sumOfKeys_loop s next (to_int32 (acc + k))
      })"

definition ll_sumOfKeys :: "ll_mem \<Rightarrow> addr \<Rightarrow> int option" where
  "ll_sumOfKeys s this = do {
     l \<leftarrow> lists s this;
     n \<leftarrow> ll_sumOfKeys_loop s (lhead l) 0;
     Some (to_size_t n)
   }"

partial_function (option) ll_print_loop :: "ll_mem \<Rightarrow> addr \<Rightarrow> key list option" where
  "ll_print_loop s cur =
     (if cur = NULL then Some []
      else do {
        k \<leftarrow> get_lkey s cur;
        next \<leftarrow> get_next s cur;
        ks \<leftarrow> ll_print_loop s next;
        Some (k # ks)
      })"

definition ll_printKeys :: "ll_mem \<Rightarrow> addr \<Rightarrow> key list option" where
  "ll_printKeys s this = do {
     l \<leftarrow> lists s this;
     ll_print_loop s (lhead l)
   }"

partial_function (option) ll_sorted_loop :: "ll_mem \<Rightarrow> addr \<Rightarrow> bool \<Rightarrow> bool option" where
  "ll_sorted_loop s cur ordered =
     (if cur = NULL then Some ordered
      else do {
        next \<leftarrow> get_next s cur;
        ordered \<leftarrow> (if next \<noteq> NULL then do {
            k \<leftarrow> get_lkey s cur;
            k' \<leftarrow> get_lkey s next;
            Some (k < k')
          } else Some ordered);
        if ordered then ll_sorted_loop s next ordered else Some ordered
      })"

definition ll_checkSortedOrder :: "ll_mem \<Rightarrow> addr \<Rightarrow> bool option" where
  "ll_checkSortedOrder s this = do {
     l \<leftarrow> lists s this;
     ll_sorted_loop s (lhead l) True
   }"

section \<open>Join and split\<close>

text \<open>The objects joined keep their fields, which now point into the new list.\<close>

definition ll_join :: "ll_mem \<Rightarrow> addr \<Rightarrow> addr \<Rightarrow> (addr \<times> ll_mem) option" where
  "ll_join s this rightList = do {
     let (newList, s) = LinkedList s;
     l \<leftarrow> lists s this;
     r \<leftarrow> lists s rightList;
     let n = to_size_t (lsize l + lsize r);
     if lhead l = NULL then
       Some (newList, put_list s newList \<lparr>lhead = lhead r, ltail = ltail r, lsize = n\<rparr>)
     else if lhead r = NULL then
       Some (newList, put_list s newList \<lparr>lhead = lhead l, ltail = ltail l, lsize = n\<rparr>)
     else do {
       k1 \<leftarrow> get_lkey s (ltail l);
       k2 \<leftarrow> get_lkey s (lhead r);
       _ \<leftarrow> assert_that (k1 < k2);
       s \<leftarrow> set_next s (ltail l) (lhead r);
       Some (newList, put_list s newList \<lparr>lhead = lhead l, ltail = ltail r, lsize = n\<rparr>)
     }
   }"

partial_function (option) ll_split_loop :: "ll_mem \<Rightarrow> int \<Rightarrow> int \<Rightarrow> addr \<Rightarrow> addr \<Rightarrow> (addr \<times> addr) option" where
  "ll_split_loop s splitPoint count prev cur =
     (if count < splitPoint then do {
        next \<leftarrow> get_next s cur;
        ll_split_loop s splitPoint (count + 1) cur next
      }
      else Some (prev, cur))"

text \<open>The split key passes through a variable of type \<open>int\<close>.\<close>

definition ll_split :: "ll_mem \<Rightarrow> addr \<Rightarrow> (key \<times> (addr \<times> addr) option \<times> ll_mem) option" where
  "ll_split s this = do {
     l \<leftarrow> lists s this;
     if lhead l = NULL \<or> lsize l = 1 then Some (0, None, s)
     else do {
       let origSize = to_int32 (lsize l);
       let splitPoint = (if 0 \<le> origSize then origSize div 2 else - (- origSize div 2));
       (prev, cur) \<leftarrow> ll_split_loop s splitPoint 0 NULL (lhead l);
       k \<leftarrow> get_lkey s cur;
       let splitKey = to_int32 k;
       let (leftList, s) = LinkedList s;
       let (rightList, s) = LinkedList s;
       s \<leftarrow> set_next s prev NULL;
       let s = put_list s leftList \<lparr>lhead = lhead l, ltail = prev, lsize = to_size_t splitPoint\<rparr>;
       let s = put_list s rightList
         \<lparr>lhead = cur, ltail = ltail l, lsize = to_size_t (origSize - splitPoint)\<rparr>;
       n1 \<leftarrow> get_next s prev;
       _ \<leftarrow> assert_that (n1 = NULL);
       n2 \<leftarrow> get_next s (ltail l);
       _ \<leftarrow> assert_that (n2 = NULL);
       Some (splitKey, Some (leftList, rightList), s)
     }
   }"

declare free_list.simps [code] ll_search.simps [code] ll_numKeys_loop.simps [code]
  ll_sumOfKeys_loop.simps [code] ll_print_loop.simps [code] ll_sorted_loop.simps [code]
  ll_split_loop.simps [code]

end
