(* ===== verification/List_Proof.thy ===== *)
theory List_Proof
  imports Linked_List
begin

text \<open>
  The linked lists in a memory: \<open>live s C\<close> says that the list objects of \<open>C\<close> hold the cells that
  \<open>C\<close> gives, apart from each other. Every operation of the class is described by what it does
  to \<open>C\<close>. Objects that are not in \<open>C\<close> (those used up by \<open>join\<close> and \<open>split\<close>, whose fields point
  into lists that now belong to others) may be in the memory as well.
\<close>

section \<open>Cells\<close>

type_synonym cells = "(addr \<times> key \<times> val) list"

fun first :: "cells \<Rightarrow> addr \<Rightarrow> addr" where
  "first [] q = q"
| "first ((a, kv) # cs) q = a"

fun cells_at :: "(addr \<Rightarrow> lnode option) \<Rightarrow> cells \<Rightarrow> addr \<Rightarrow> bool" where
  "cells_at h [] q = True"
| "cells_at h ((a, k, v) # cs) q = (a \<noteq> NULL \<and>
     h a = Some \<lparr>lkey = k, lval = v, lnext = first cs q\<rparr> \<and> cells_at h cs q)"

definition last_addr :: "addr \<Rightarrow> cells \<Rightarrow> addr" where
  "last_addr p cs = (if cs = [] then p else fst (last cs))"

abbreviation addrs_of :: "cells \<Rightarrow> addr set" where
  "addrs_of cs \<equiv> fst ` set cs"

definition fields :: "cells \<Rightarrow> llist" where
  "fields cs = \<lparr>lhead = first cs NULL, ltail = last_addr NULL cs, lsize = to_size_t (int (length cs))\<rparr>"

lemma first_append: "first (ps @ qs) q = first ps (first qs q)"
  by (cases ps) auto

lemma cells_at_append: "cells_at h (ps @ qs) q \<longleftrightarrow> cells_at h ps (first qs q) \<and> cells_at h qs q"
  by (induction ps) (auto simp: first_append)

lemma cells_at_upd [simp]: "a \<notin> addrs_of cs \<Longrightarrow> cells_at (h(a := x)) cs q = cells_at h cs q"
  by (induction cs) auto

lemma cells_at_cong: "(\<And>a. a \<in> addrs_of cs \<Longrightarrow> h' a = h a) \<Longrightarrow> cells_at h' cs q = cells_at h cs q"
  by (induction cs) auto

lemma cells_at_dom: "cells_at h cs q \<Longrightarrow> a \<in> addrs_of cs \<Longrightarrow> a \<noteq> NULL \<and> h a \<noteq> None"
proof (induction cs)
  case (Cons c cs)
  then show ?case by (cases c) (simp, blast)
qed simp

lemma first_NULL: "cells_at h cs q \<Longrightarrow> first cs NULL = NULL \<longleftrightarrow> cs = []"
  by (cases cs) auto

lemma last_addr_simps [simp]:
  "last_addr p [] = p" "last_addr p (cs @ [(a, kv)]) = a"
  "last_addr p ((a, kv) # cs) = last_addr a cs"
  by (auto simp: last_addr_def)

lemma last_addr_append: "last_addr p (cs @ ds) = last_addr (last_addr p cs) ds"
  by (auto simp: last_addr_def)

lemma last_addr_NULL: "cells_at h cs q \<Longrightarrow> cs \<noteq> [] \<Longrightarrow> last_addr p cs \<in> addrs_of cs \<and> last_addr p cs \<noteq> NULL"
  using cells_at_dom [of h cs q "last_addr p cs"] by (auto simp: last_addr_def)

section \<open>Lists in memory\<close>

definition live :: "ll_mem \<Rightarrow> (addr \<Rightarrow> cells option) \<Rightarrow> bool" where
  "live s C \<longleftrightarrow>
     (\<forall>x cs. C x = Some cs \<longrightarrow>
        lists s x = Some (fields cs) \<and> cells_at (lnodes s) cs NULL \<and> distinct (map fst cs)) \<and>
     (\<forall>x y cs ds. C x = Some cs \<longrightarrow> C y = Some ds \<longrightarrow> x \<noteq> y \<longrightarrow> addrs_of cs \<inter> addrs_of ds = {}) \<and>
     (\<forall>a. lnodes s a \<noteq> None \<longrightarrow> a < lbrk s) \<and>
     (\<forall>a. lists s a \<noteq> None \<longrightarrow> a \<noteq> NULL \<and> a < lbrk s) \<and> NULL < lbrk s"

lemma liveD:
  assumes "live s C" "C x = Some cs"
  shows "lists s x = Some (fields cs)" "cells_at (lnodes s) cs NULL" "distinct (map fst cs)"
    "\<And>a. a \<in> addrs_of cs \<Longrightarrow> a \<noteq> NULL \<and> a < lbrk s" "x \<noteq> NULL" "x < lbrk s"
proof -
  show c: "lists s x = Some (fields cs)" "cells_at (lnodes s) cs NULL" "distinct (map fst cs)"
    using assms unfolding live_def by blast+
  show "a \<noteq> NULL \<and> a < lbrk s" if "a \<in> addrs_of cs" for a
    using cells_at_dom [OF c(2) that] assms(1) unfolding live_def by blast
  show "x \<noteq> NULL" "x < lbrk s" using c(1) assms(1) unfolding live_def by blast+
qed

lemma live_disjoint:
  "live s C \<Longrightarrow> C x = Some cs \<Longrightarrow> C y = Some ds \<Longrightarrow> x \<noteq> y \<Longrightarrow> addrs_of cs \<inter> addrs_of ds = {}"
  unfolding live_def by blast

lemma live_brk:
  assumes "live s C"
  shows "lnodes s (lbrk s) = None" "lists s (lbrk s) = None" "lbrk s \<noteq> NULL"
    "C x = Some cs \<Longrightarrow> lbrk s \<notin> addrs_of cs" "C (lbrk s) = None"
proof -
  show n: "lnodes s (lbrk s) = None" "lists s (lbrk s) = None" "lbrk s \<noteq> NULL"
    using assms unfolding live_def by (metis less_irrefl)+
  show "C x = Some cs \<Longrightarrow> lbrk s \<notin> addrs_of cs" using liveD(4) [OF assms] by blast
  show "C (lbrk s) = None"
    using liveD(6) [OF assms, of "lbrk s"] by (cases "C (lbrk s)") auto
qed

text \<open>
  Replacing the cells of some objects \<open>X\<close>: the other lists stay, if the new cells of \<open>X\<close> are made
  of old cells of \<open>X\<close> and of fresh ones, and nothing else changes.
\<close>

lemma live_replace:
  assumes lv: "live s C"
    and rest: "\<And>y. y \<notin> X \<Longrightarrow> C' y = C y \<or> C' y = None" "\<And>y. y \<notin> X \<Longrightarrow> lists s' y = lists s y"
    and new: "\<And>x cs. x \<in> X \<Longrightarrow> C' x = Some cs \<Longrightarrow>
        lists s' x = Some (fields cs) \<and> cells_at (lnodes s') cs NULL \<and> distinct (map fst cs) \<and>
        (\<forall>a \<in> addrs_of cs. a \<in> A \<or> lbrk s \<le> a)"
    and disj: "\<And>x y cs ds. x \<in> X \<Longrightarrow> y \<in> X \<Longrightarrow> C' x = Some cs \<Longrightarrow> C' y = Some ds \<Longrightarrow> x \<noteq> y \<Longrightarrow>
        addrs_of cs \<inter> addrs_of ds = {}"
    and A: "\<And>y ds. y \<notin> X \<Longrightarrow> C' y = Some ds \<Longrightarrow> addrs_of ds \<inter> A = {}"
    and frame: "\<And>a. a \<notin> A \<Longrightarrow> a < lbrk s \<Longrightarrow> lnodes s' a = lnodes s a"
    and below: "\<And>a. lnodes s' a \<noteq> None \<Longrightarrow> a < lbrk s'" "\<And>a. lists s' a \<noteq> None \<Longrightarrow> a \<noteq> NULL \<and> a < lbrk s'"
      "lbrk s \<le> lbrk s'"
  shows "live s' C'"
proof -
  have old: "C y = Some ds \<and> lists s' y = Some (fields ds) \<and> cells_at (lnodes s') ds NULL \<and> distinct (map fst ds) \<and>
      (\<forall>a \<in> addrs_of ds. a \<notin> A \<and> a < lbrk s)" if "y \<notin> X" "C' y = Some ds" for y ds
  proof -
    have y: "C y = Some ds" using rest(1) [OF that(1)] that(2) by auto
    have nA: "\<forall>a \<in> addrs_of ds. a \<notin> A \<and> a < lbrk s" using A [OF that] liveD(4) [OF lv y] by blast
    then have "cells_at (lnodes s') ds NULL"
      using liveD(2) [OF lv y] cells_at_cong [of ds "lnodes s'" "lnodes s"] frame by blast
    then show ?thesis using y nA liveD(1,3) [OF lv y] rest(2) [OF that(1)] by simp
  qed
  have "lists s' x = Some (fields cs) \<and> cells_at (lnodes s') cs NULL \<and> distinct (map fst cs)"
    if "C' x = Some cs" for x cs
    using new [OF _ that] old [OF _ that] by blast
  moreover have "addrs_of cs \<inter> addrs_of ds = {}" if "C' x = Some cs" "C' y = Some ds" "x \<noteq> y" for x y cs ds
  proof -
    consider "x \<in> X" "y \<in> X" | "x \<in> X" "y \<notin> X" | "x \<notin> X" "y \<in> X" | "x \<notin> X" "y \<notin> X" by blast
    then show ?thesis
    proof cases
      case 1
      then show ?thesis using disj that by blast
    next
      case 2
      then show ?thesis using new [OF 2(1) that(1)] old [OF 2(2) that(2)] by (meson disjoint_iff leD)
    next
      case 3
      then show ?thesis using new [OF 3(2) that(2)] old [OF 3(1) that(1)] by (meson disjoint_iff leD)
    next
      case 4
      then show ?thesis using live_disjoint [OF lv] old that by blast
    qed
  qed
  moreover have "NULL < lbrk s'" using lv below(3) unfolding live_def by linarith
  ultimately show ?thesis using below unfolding live_def by blast
qed

lemma live_update:
  assumes lv: "live s C" "C x = Some cs"
    and new: "lists s' = (lists s)(x \<mapsto> fields cs')" "cells_at (lnodes s') cs' NULL" "distinct (map fst cs')"
      "addrs_of cs' \<subseteq> addrs_of cs \<union> {lbrk s}"
    and frame: "\<And>a. a \<notin> addrs_of cs \<Longrightarrow> a \<noteq> lbrk s \<Longrightarrow> lnodes s' a = lnodes s a"
    and below: "\<And>a. lnodes s' a \<noteq> None \<Longrightarrow> a < lbrk s'" "lbrk s \<le> lbrk s'"
  shows "live s' (C(x \<mapsto> cs'))"
proof (rule live_replace [OF lv(1), where X = "{x}" and A = "addrs_of cs"])
  show "a \<noteq> NULL \<and> a < lbrk s'" if "lists s' a \<noteq> None" for a
  proof (cases "a = x")
    case True
    then show ?thesis using liveD(5,6) [OF lv] below(2) by auto
  next
    case False
    then show ?thesis using that new(1) lv(1) below(2) unfolding live_def by fastforce
  qed
  show "addrs_of ds \<inter> addrs_of cs = {}" if "y \<notin> {x}" "(C(x \<mapsto> cs')) y = Some ds" for y ds
    using that live_disjoint [OF lv(1) _ lv(2), of y ds] by auto
qed (use new frame below in \<open>auto split: if_splits\<close>)

section \<open>Searching\<close>

abbreviation kv :: "cells \<Rightarrow> kv_list" where
  "kv cs \<equiv> map snd cs"

lemma search_ok:
  "cells_at (lnodes s) cs NULL \<Longrightarrow> ll_search s k p (first cs NULL) =
     Some (last_addr p (takeWhile (\<lambda>c. fst (snd c) < k) cs), first (dropWhile (\<lambda>c. fst (snd c) < k) cs) NULL)"
proof (induction cs arbitrary: p)
  case Nil
  then show ?case by (subst ll_search.simps) simp
next
  case (Cons c cs)
  obtain a k' v where c: "c = (a, k', v)" by (cases c) auto
  show ?case using Cons unfolding c
    by (subst ll_search.simps) (auto simp: heap_defs)
qed

lemma at_key_ok:
  "cells_at (lnodes s) qs NULL \<Longrightarrow>
     at_key s (first qs NULL) k = Some (case qs of [] \<Rightarrow> False | (a, k', v) # rs \<Rightarrow> k' = k)"
  by (cases qs) (auto simp: at_key_def heap_defs)

text \<open>
  Where the search for a key ends in a sorted list: before the key, or before the first greater
  key.
\<close>

lemma search_split:
  assumes cs: "cells_at (lnodes s) cs NULL" and so: "sorted_kvs (kv cs)"
  obtains (found) ps a v rs where "cs = ps @ (a, k, v) # rs" "all_less (kv ps) k" "all_greater k (kv rs)"
      "ll_search s k NULL (first cs NULL) = Some (last_addr NULL ps, a)" "at_key s a k = Some True"
  | (absent) ps qs where "cs = ps @ qs" "all_less (kv ps) k" "all_greater k (kv qs)"
      "ll_search s k NULL (first cs NULL) = Some (last_addr NULL ps, first qs NULL)"
      "at_key s (first qs NULL) k = Some False"
proof -
  define ps where "ps = takeWhile (\<lambda>c. fst (snd c) < k) cs"
  define qs where "qs = dropWhile (\<lambda>c. fst (snd c) < k) cs"
  have eq: "cs = ps @ qs" by (simp add: ps_def qs_def)
  have less: "all_less (kv ps) k"
    unfolding all_less_def ps_def by (auto dest: set_takeWhileD)
  have se: "ll_search s k NULL (first cs NULL) = Some (last_addr NULL ps, first qs NULL)"
    using search_ok [OF cs] by (simp add: ps_def qs_def)
  have cq: "cells_at (lnodes s) qs NULL" using cs unfolding eq cells_at_append by simp
  show thesis
  proof (cases qs)
    case Nil
    then show thesis using absent [OF eq less _ se] at_key_ok [OF cq, of k] by simp
  next
    case (Cons c rs)
    obtain a k' v where c: "c = (a, k', v)" by (cases c) auto
    have "\<not> k' < k" using Cons c by (simp add: qs_def dropWhile_eq_Cons_conv)
    then consider "k' = k" | "k < k'" by linarith
    then show thesis
    proof cases
      case 1
      then show thesis using found [of ps a v rs] eq less so se at_key_ok [OF cq, of k] Cons c by simp
    next
      case 2
      then show thesis using absent [OF eq less _ se] so at_key_ok [OF cq, of k] Cons c eq
        by (auto simp: all_greater_trans)
    qed
  qed
qed

lemma to_size_t_step: "to_size_t (to_size_t m + n) = to_size_t (m + n)"
  by (simp add: to_size_t_def mod_add_left_eq)

lemma to_size_t_step_minus: "to_size_t (to_size_t m - n) = to_size_t (m - n)"
  by (simp add: to_size_t_def mod_diff_left_eq)

lemma snoc_cells: "ps \<noteq> [] \<Longrightarrow> \<exists>ps' p k v. ps = ps' @ [(p, k, v)]"
  by (cases ps rule: rev_cases) auto

section \<open>The dictionary operations\<close>

lemma ll_find_ok:
  assumes "live s C" "C x = Some cs" "sorted_kvs (kv cs)"
  shows "ll_find s x k = Some (lookup_kv (kv cs) k)"
proof -
  note D = liveD [OF assms(1,2)]
  show ?thesis
  proof (rule search_split [OF D(2) assms(3), of k])
    fix ps a v rs
    assume a: "cs = ps @ (a, k, v) # rs" "all_less (kv ps) k" "all_greater k (kv rs)"
      "ll_search s k NULL (first cs NULL) = Some (last_addr NULL ps, a)" "at_key s a k = Some True"
    have "get_lval s a = Some v" using D(2) unfolding a(1) cells_at_append by (simp add: heap_defs)
    then show ?thesis using D(1) a by (simp add: ll_find_def fields_def lookup_kv_middle)
  next
    fix ps qs
    assume a: "cs = ps @ qs" "all_less (kv ps) k" "all_greater k (kv qs)"
      "ll_search s k NULL (first cs NULL) = Some (last_addr NULL ps, first qs NULL)"
      "at_key s (first qs NULL) k = Some False"
    then show ?thesis using D(1) by (simp add: ll_find_def fields_def lookup_kv_absent)
  qed
qed

text \<open>Linking a fresh cell between \<open>ps\<close> and \<open>qs\<close>.\<close>

lemma link_cell:
  assumes lv: "live s C" and x: "C x = Some (ps @ qs)" and ne: "ps @ qs \<noteq> []"
    and ord: "all_greater k (kv qs)"
  shows "\<exists>s2. (let (newNode, s) = new_lnode s k v (first qs NULL); l = fields (ps @ qs) in
      if last_addr NULL ps = NULL then do {
        k' \<leftarrow> get_lkey s (first qs NULL);
        _ \<leftarrow> assert_that (k < k');
        Some (NO_VALUE, put_list s x (l\<lparr>lhead := newNode, lsize := to_size_t (lsize l + 1)\<rparr>))
      } else do {
        s \<leftarrow> set_next s (last_addr NULL ps) newNode;
        Some (NO_VALUE, put_list s x
          (l\<lparr>ltail := (if last_addr NULL ps = ltail l then newNode else ltail l), lsize := to_size_t (lsize l + 1)\<rparr>))
      }) = Some (NO_VALUE, s2) \<and> live s2 (C(x \<mapsto> ps @ (lbrk s, k, v) # qs))"
proof -
  let ?a = "lbrk s" and ?cs = "ps @ (lbrk s, k, v) # qs"
  note D = liveD [OF lv x] and B = live_brk [OF lv]
  have fresh: "?a \<notin> addrs_of (ps @ qs)" by (rule B(4) [OF x])
  have cp: "cells_at (lnodes s) ps (first qs NULL)" "cells_at (lnodes s) qs NULL"
    using D(2) unfolding cells_at_append by simp_all
  let ?h = "(lnodes s)(?a \<mapsto> \<lparr>lkey = k, lval = v, lnext = first qs NULL\<rparr>)"
  have below: "a < Suc ?a" if "?h a \<noteq> None" for a
    using that lv unfolding live_def by (cases "a = ?a") (auto simp: less_Suc_eq)
  have dist: "distinct (map fst ?cs)" using D(3) fresh by auto
  show ?thesis
  proof (cases "ps = []")
    case True
    with ne obtain b k' v' rs where q: "qs = (b, k', v') # rs" by (cases qs) auto
    let ?s2 = "put_list (s\<lparr>lnodes := ?h, lbrk := Suc ?a\<rparr>) x (fields ?cs)"
    have k': "k < k'" "b \<noteq> ?a" using ord fresh q by auto
    have "cells_at ?h ?cs NULL" using True cp(2) B(3) fresh by simp
    then have "live ?s2 (C(x \<mapsto> ?cs))"
      by (intro live_update [OF lv x]) (use dist below True in \<open>auto simp: put_list_def\<close>)
    then show ?thesis using True q k' cp(2)
      by (intro exI [of _ ?s2]) (simp add: heap_defs fields_def to_size_t_step Let_def)
  next
    case False
    then obtain ps' p k0 v0 where p: "ps = ps' @ [(p, k0, v0)]" using snoc_cells by blast
    let ?h2 = "?h(p \<mapsto> \<lparr>lkey = k0, lval = v0, lnext = ?a\<rparr>)"
    let ?s2 = "put_list (s\<lparr>lnodes := ?h2, lbrk := Suc ?a\<rparr>) x (fields ?cs)"
    have p': "p \<noteq> NULL" "lnodes s p = Some \<lparr>lkey = k0, lval = v0, lnext = first qs NULL\<rparr>" "p \<noteq> ?a"
      "cells_at (lnodes s) ps' p" "p \<notin> addrs_of ps'" "p \<notin> addrs_of qs"
      using cp(1) fresh D(3) unfolding p cells_at_append by auto
    have fr: "?a \<notin> addrs_of ps'" "?a \<notin> addrs_of qs" using fresh p by auto
    have "cells_at ?h2 ?cs NULL"
      using p' cp(2) fr B(3) unfolding p by (simp add: cells_at_append)
    moreover have "b < Suc ?a" if "?h2 b \<noteq> None" for b
      using that below [of b] below [of p] p'(2,3) by (auto split: if_splits)
    ultimately have "live ?s2 (C(x \<mapsto> ?cs))"
      by (intro live_update [OF lv x]) (use dist p p' in \<open>auto simp: put_list_def\<close>)
    moreover have "p = last_addr p qs \<longleftrightarrow> qs = []"
      using p'(6) last_addr_NULL [OF cp(2), of p] by (metis last_addr_simps(1))
    moreover have "last_addr p qs = last_addr ?a qs" if "qs \<noteq> []" using that by (simp add: last_addr_def)
    ultimately show ?thesis using p p'
      by (intro exI [of _ ?s2])
         (auto simp: heap_defs fields_def to_size_t_step Let_def last_addr_append first_append)
  qed
qed

lemma ll_insert_ok:
  assumes lv: "live s C" and x: "C x = Some cs" and so: "sorted_kvs (kv cs)"
  shows "\<exists>s' cs'. ll_insert s x k v = Some (lookup_kv (kv cs) k, s') \<and> live s' (C(x \<mapsto> cs')) \<and>
    kv cs' = ins_kv k v (kv cs)"
proof (cases "cs = []")
  case True
  note D = liveD [OF lv x] and B = live_brk [OF lv]
  let ?cs = "[(lbrk s, k, v)]"
  let ?s = "put_list (s\<lparr>lnodes := (lnodes s)(lbrk s \<mapsto> \<lparr>lkey = k, lval = v, lnext = NULL\<rparr>), lbrk := Suc (lbrk s)\<rparr>)
    x (fields ?cs)"
  have "live ?s (C(x \<mapsto> ?cs))"
    by (rule live_update [OF lv x])
       (use B(3) lv in \<open>auto simp: put_list_def live_def less_Suc_eq split: if_splits\<close>)
  moreover have "ll_insert s x k v = Some (NO_VALUE, ?s)"
    using D(1) True by (simp add: ll_insert_def heap_defs fields_def to_size_t_def)
  ultimately show ?thesis using True by (auto simp: lookup_kv_def)
next
  case ne: False
  note D = liveD [OF lv x]
  have hd: "lhead (fields cs) \<noteq> NULL" using first_NULL [OF D(2)] ne by (simp add: fields_def)
  show ?thesis
  proof (rule search_split [OF D(2) so, of k])
    fix ps a u rs
    assume a: "cs = ps @ (a, k, u) # rs" "all_less (kv ps) k" "all_greater k (kv rs)"
      "ll_search s k NULL (first cs NULL) = Some (last_addr NULL ps, a)" "at_key s a k = Some True"
    have "get_lval s a = Some u" using D(2) unfolding a(1) cells_at_append by (simp add: heap_defs)
    then have "ll_insert s x k v = Some (u, s)"
      using D(1) hd a(4,5) by (simp add: ll_insert_def fields_def)
    moreover have "ins_kv k v (kv cs) = kv cs" "lookup_kv (kv cs) k = u"
      using a(1-3) by (simp_all add: ins_kv_present lookup_kv_middle)
    ultimately show ?thesis using lv x
      by (intro exI [of _ s] exI [of _ cs]) (simp add: fun_upd_idem)
  next
    fix ps qs
    assume a: "cs = ps @ qs" "all_less (kv ps) k" "all_greater k (kv qs)"
      "ll_search s k NULL (first cs NULL) = Some (last_addr NULL ps, first qs NULL)"
      "at_key s (first qs NULL) k = Some False"
    obtain nn s1 where n: "new_lnode s k v (first qs NULL) = (nn, s1)" by fastforce
    have hf: "lhead (fields cs) = first cs NULL" by (simp add: fields_def)
    note lc = link_cell [OF lv x [unfolded a(1)] ne [unfolded a(1)] a(3), of v, folded a(1), unfolded n Let_def prod.case]
    obtain s2 where s2: "ll_insert s x k v = Some (NO_VALUE, s2)" "live s2 (C(x \<mapsto> ps @ (lbrk s, k, v) # qs))"
      using lc D(1) hd hf a(4,5) n by (auto simp: ll_insert_def)
    then show ?thesis using a(1-3) by (auto simp: lookup_kv_absent ins_kv_absent)
  qed
qed

text \<open>Unlinking the cell between \<open>ps\<close> and \<open>rs\<close>.\<close>

lemma unlink_cell:
  assumes lv: "live s C" and x: "C x = Some (ps @ (a, k, v) # rs)"
  shows "\<exists>s2. (let l = fields (ps @ (a, k, v) # rs) in do {
      (l, s) \<leftarrow> (if last_addr NULL ps = NULL then do {
          _ \<leftarrow> assert_that (a = lhead l);
          Some (if lhead l = ltail l then l\<lparr>lhead := NULL, ltail := NULL\<rparr>
                else l\<lparr>lhead := first rs NULL\<rparr>, s)
        }
        else do {
          s \<leftarrow> set_next s (last_addr NULL ps) (first rs NULL);
          Some (if a = ltail l then l\<lparr>ltail := last_addr NULL ps\<rparr> else l, s)
        });
      s \<leftarrow> delete_lnode s a;
      Some (v, put_list s x (l\<lparr>lsize := to_size_t (lsize l - 1)\<rparr>)) }) = Some (v, s2) \<and>
    live s2 (C(x \<mapsto> ps @ rs))"
proof -
  note D = liveD [OF lv x] and B = live_brk [OF lv]
  have c: "cells_at (lnodes s) ps a" "a \<noteq> NULL" "lnodes s a = Some \<lparr>lkey = k, lval = v, lnext = first rs NULL\<rparr>"
    "cells_at (lnodes s) rs NULL"
    using D(2) unfolding cells_at_append by simp_all
  have fr: "a \<notin> addrs_of ps" "a \<notin> addrs_of rs" "addrs_of ps \<inter> addrs_of rs = {}" "distinct (map fst (ps @ rs))"
    using D(3) by auto
  have below: "b < lbrk s" if "lnodes s b \<noteq> None" for b using that lv unfolding live_def by blast
  have la: "a = last_addr a rs \<longleftrightarrow> rs = []"
    using last_addr_NULL [OF c(4), of a] fr(2) by (metis last_addr_simps(1))
  show ?thesis
  proof (cases "ps = []")
    case True
    let ?s2 = "put_list (s\<lparr>lnodes := (lnodes s)(a := None)\<rparr>) x (fields rs)"
    have "cells_at ((lnodes s)(a := None)) rs NULL" using c(4) fr(2) by simp
    then have "live ?s2 (C(x \<mapsto> rs))"
      by (intro live_update [OF lv x]) (use fr(4) below True in \<open>auto simp: put_list_def split: if_splits\<close>)
    moreover have "last_addr a rs = last_addr NULL rs" if "rs \<noteq> []" using that by (simp add: last_addr_def)
    ultimately show ?thesis using True c la
      by (intro exI [of _ ?s2])
         (auto simp: heap_defs fields_def to_size_t_step_minus)
  next
    case False
    then obtain ps' p k0 v0 where p: "ps = ps' @ [(p, k0, v0)]" using snoc_cells by blast
    let ?h = "(lnodes s)(p \<mapsto> \<lparr>lkey = k0, lval = v0, lnext = first rs NULL\<rparr>, a := None)"
    let ?s2 = "put_list (s\<lparr>lnodes := ?h\<rparr>) x (fields (ps @ rs))"
    have p': "p \<noteq> NULL" "lnodes s p = Some \<lparr>lkey = k0, lval = v0, lnext = a\<rparr>" "p \<noteq> a"
      "cells_at (lnodes s) ps' p" "p \<notin> addrs_of ps'" "p \<notin> addrs_of rs" "a \<notin> addrs_of ps'"
      using c(1) fr D(3) unfolding p cells_at_append by auto
    have "cells_at ?h (ps @ rs) NULL"
      using p' c(4) fr(2) unfolding p by (simp add: cells_at_append)
    moreover have "b < lbrk s" if "?h b \<noteq> None" for b
      using that below [of b] below [of p] p'(2) by (auto split: if_splits)
    ultimately have "live ?s2 (C(x \<mapsto> ps @ rs))"
      by (intro live_update [OF lv x]) (use fr(4) p p' in \<open>auto simp: put_list_def\<close>)
    moreover have "last_addr a rs = last_addr p rs" if "rs \<noteq> []" using that by (simp add: last_addr_def)
    ultimately show ?thesis using p p' c la
      by (intro exI [of _ ?s2])
         (auto simp: heap_defs fields_def to_size_t_step_minus last_addr_append first_append)
  qed
qed

lemma ll_erase_ok:
  assumes lv: "live s C" and x: "C x = Some cs" and so: "sorted_kvs (kv cs)"
  shows "\<exists>s' cs'. ll_erase s x k = Some (lookup_kv (kv cs) k, s') \<and> live s' (C(x \<mapsto> cs')) \<and>
    kv cs' = del_kv k (kv cs)"
proof (cases "cs = []")
  case True
  with liveD(1) [OF lv x] have "ll_erase s x k = Some (NO_VALUE, s)"
    by (simp add: ll_erase_def fields_def)
  then show ?thesis using True lv x
    by (intro exI [of _ s] exI [of _ cs]) (simp add: fun_upd_idem lookup_kv_def)
next
  case ne: False
  note D = liveD [OF lv x]
  have hd: "lhead (fields cs) \<noteq> NULL" using first_NULL [OF D(2)] ne by (simp add: fields_def)
  show ?thesis
  proof (rule search_split [OF D(2) so, of k])
    fix ps a u rs
    assume a: "cs = ps @ (a, k, u) # rs" "all_less (kv ps) k" "all_greater k (kv rs)"
      "ll_search s k NULL (first cs NULL) = Some (last_addr NULL ps, a)" "at_key s a k = Some True"
    have "get_lval s a = Some u" "get_next s a = Some (first rs NULL)"
      using D(2) unfolding a(1) cells_at_append by (simp_all add: heap_defs)
    moreover have hf: "lhead (fields cs) = first cs NULL" by (simp add: fields_def)
    moreover note unlink_cell [OF lv x [unfolded a(1)], folded a(1), unfolded Let_def]
    ultimately obtain s2 where s2: "ll_erase s x k = Some (u, s2)" "live s2 (C(x \<mapsto> ps @ rs))"
      using D(1) hd a(4,5) by (auto simp: ll_erase_def)
    then show ?thesis using s2(2) a(1-3) by (auto simp: kv_simps)
  next
    fix ps qs
    assume a: "cs = ps @ qs" "all_less (kv ps) k" "all_greater k (kv qs)"
      "ll_search s k NULL (first cs NULL) = Some (last_addr NULL ps, first qs NULL)"
      "at_key s (first qs NULL) k = Some False"
    then have "ll_erase s x k = Some (NO_VALUE, s)"
      using D(1) hd by (simp add: ll_erase_def fields_def)
    then show ?thesis using a(1-3) lv x
      by (intro exI [of _ s] exI [of _ cs]) (simp add: fun_upd_idem kv_simps)
  qed
qed

section \<open>New lists, join and split\<close>

lemma LinkedList_ok:
  assumes lv: "live s C" and n: "LinkedList s = (x, s')"
  shows "C x = None" "x = lbrk s" "live s' (C(x \<mapsto> []))" "lnodes s' = lnodes s" "lists s' = (lists s)(x \<mapsto> fields [])"
    "lbrk s' = Suc (lbrk s)"
proof -
  show x: "x = lbrk s" and e: "lnodes s' = lnodes s" "lists s' = (lists s)(x \<mapsto> fields [])" "lbrk s' = Suc (lbrk s)"
    using n by (auto simp: LinkedList_def fields_def to_size_t_def)
  show "C x = None" using live_brk(5) [OF lv] x by simp
  show "live s' (C(x \<mapsto> []))"
  proof (rule live_replace [OF lv, where X = "{x}" and A = "{}"])
    show "a < lbrk s'" if "lnodes s' a \<noteq> None" for a
      using that lv e unfolding live_def by (metis less_SucI)
    show "a \<noteq> NULL \<and> a < lbrk s'" if "lists s' a \<noteq> None" for a
      using that lv live_brk(3) [OF lv] unfolding e x live_def by (auto simp: less_Suc_eq split: if_splits)
  qed (use e in \<open>auto split: if_splits\<close>)
qed

lemma put_list_live:
  assumes lv: "live s C" and z: "C z = Some []"
    and X: "C x = Some cs" "C y = Some ds" "x \<noteq> y" "x \<noteq> z" "y \<noteq> z"
    and c: "cells_at (lnodes s') (cs @ ds) NULL" "\<And>a. a \<notin> addrs_of cs \<Longrightarrow> lnodes s' a = lnodes s a"
      "\<And>a. lnodes s' a \<noteq> None \<longleftrightarrow> lnodes s a \<noteq> None" "lists s' = lists s" "lbrk s' = lbrk s"
  shows "live (put_list s' z (fields (cs @ ds))) (C(x := None, y := None, z \<mapsto> cs @ ds))"
proof (rule live_replace [OF lv, where X = "{z}" and A = "addrs_of cs \<union> addrs_of ds"])
  have dj: "addrs_of cs \<inter> addrs_of ds = {}" by (rule live_disjoint [OF lv X(1-3)])
  show "lists (put_list s' z (fields (cs @ ds))) u = Some (fields es) \<and>
      cells_at (lnodes (put_list s' z (fields (cs @ ds)))) es NULL \<and> distinct (map fst es) \<and>
      (\<forall>a \<in> addrs_of es. a \<in> addrs_of cs \<union> addrs_of ds \<or> lbrk s \<le> a)"
    if "u \<in> {z}" "(C(x := None, y := None, z \<mapsto> cs @ ds)) u = Some es" for u es
    using that c(1) dj liveD(3) [OF lv X(1)] liveD(3) [OF lv X(2)] by (force simp: put_list_def)
  show "addrs_of es \<inter> (addrs_of cs \<union> addrs_of ds) = {}"
    if "u \<notin> {z}" "(C(x := None, y := None, z \<mapsto> cs @ ds)) u = Some es" for u es
    using that live_disjoint [OF lv _ X(1), of u es] live_disjoint [OF lv _ X(2), of u es]
    by (auto split: if_splits)
  show "a < lbrk (put_list s' z (fields (cs @ ds)))" if "lnodes (put_list s' z (fields (cs @ ds))) a \<noteq> None" for a
    using that c(3) [of a] c(5) lv unfolding live_def by (simp add: put_list_def)
  show "a \<noteq> NULL \<and> a < lbrk (put_list s' z (fields (cs @ ds)))"
    if "lists (put_list s' z (fields (cs @ ds))) a \<noteq> None" for a
    using that c(4,5) lv liveD(5,6) [OF lv z] unfolding live_def by (cases "a = z") (auto simp: put_list_def)
qed (use c X in \<open>auto simp: put_list_def split: if_splits\<close>)

lemma ll_join_ok:
  assumes lv: "live s C" and X: "C x = Some cs" "C y = Some ds" "x \<noteq> y" and so: "sorted_kvs (kv (cs @ ds))"
  shows "\<exists>z s'. ll_join s x y = Some (z, s') \<and> C z = None \<and> live s' (C(x := None, y := None, z \<mapsto> cs @ ds))"
proof -
  obtain z s1 where n: "LinkedList s = (z, s1)" by (cases "LinkedList s")
  note N = LinkedList_ok [OF lv n]
  have ne: "x \<noteq> z" "y \<noteq> z" using N(1) X by auto
  have X': "(C(z \<mapsto> [])) z = Some []" "(C(z \<mapsto> [])) x = Some cs" "(C(z \<mapsto> [])) y = Some ds" using X ne by auto
  note D1 = liveD [OF lv X(1)] and D2 = liveD [OF lv X(2)]
  have l: "lists s1 x = Some (fields cs)" "lists s1 y = Some (fields ds)" using N(5) ne D1(1) D2(1) by auto
  have CC: "(C(z \<mapsto> []))(x := None, y := None, z \<mapsto> cs @ ds) = C(x := None, y := None, z \<mapsto> cs @ ds)"
    by (auto simp: fun_eq_iff)
  have sz: "to_size_t (to_size_t (int (length cs)) + to_size_t (int (length ds))) = to_size_t (int (length (cs @ ds)))"
    by (simp add: to_size_t_def mod_add_eq)
  have size: "lsize (fields cs) = to_size_t (int (length cs))" "lsize (fields ds) = to_size_t (int (length ds))"
    by (simp_all add: fields_def)
  note pl = put_list_live [OF N(3) X'(1-3) X(3) ne, unfolded CC]
  show ?thesis
  proof (cases "cs = [] \<or> ds = []")
    case True
    have "cells_at (lnodes s1) (cs @ ds) NULL" using True D1(2) D2(2) N(4) by auto
    from pl [OF this] have "live (put_list s1 z (fields (cs @ ds))) (C(x := None, y := None, z \<mapsto> cs @ ds))" by simp
    moreover have "ll_join s x y = Some (z, put_list s1 z (fields (cs @ ds)))"
      using True n l sz first_NULL [OF D1(2)] by (auto simp: ll_join_def fields_def)
    ultimately show ?thesis using N(1) by blast
  next
    case False
    then obtain cs' p k0 v0 where p: "cs = cs' @ [(p, k0, v0)]" using snoc_cells by blast
    from False obtain q k1 v1 ds' where q: "ds = (q, k1, v1) # ds'" by (cases ds) auto
    let ?h = "(lnodes s1)(p \<mapsto> \<lparr>lkey = k0, lval = v0, lnext = q\<rparr>)"
    have k: "k0 < k1" using so p q by simp
    have pc: "p \<noteq> NULL" "lnodes s p = Some \<lparr>lkey = k0, lval = v0, lnext = NULL\<rparr>" "cells_at (lnodes s) cs' p"
      "p \<notin> addrs_of cs'" "p \<notin> addrs_of ds" "q \<noteq> NULL" "lnodes s q = Some \<lparr>lkey = k1, lval = v1, lnext = first ds' NULL\<rparr>"
      using D1(2,3) D2(2) live_disjoint [OF lv X] unfolding p q by (auto simp: cells_at_append)
    have "cells_at ?h (cs @ ds) NULL"
      using pc D2(2) unfolding p by (simp add: cells_at_append N(4) q)
    from pl [of "s1\<lparr>lnodes := ?h\<rparr>"] this
    have "live (put_list (s1\<lparr>lnodes := ?h\<rparr>) z (fields (cs @ ds))) (C(x := None, y := None, z \<mapsto> cs @ ds))"
      using pc(2) p N(4) by auto
    moreover have "ll_join s x y = Some (z, put_list (s1\<lparr>lnodes := ?h\<rparr>) z (fields (cs @ ds)))"
      using False n l sz pc k first_NULL [OF D1(2)] unfolding ll_join_def size
      by (simp add: heap_defs N(4) Let_def p q) (simp add: fields_def last_addr_append first_append)
    ultimately show ?thesis using N(1) by blast
  qed
qed

lemma split_loop_ok:
  assumes "cells_at (lnodes s) (ps @ qs) NULL" "0 \<le> n"
  shows "ll_split_loop s (n + int (length ps)) n p (first (ps @ qs) NULL) = Some (last_addr p ps, first qs NULL)"
  using assms
proof (induction ps arbitrary: n p)
  case Nil
  then show ?case by (subst ll_split_loop.simps) simp
next
  case (Cons c ps)
  obtain a k v where c: "c = (a, k, v)" by (cases c) auto
  have "ll_split_loop s (n + int (length (c # ps))) n p a =
      ll_split_loop s ((n + 1) + int (length ps)) (n + 1) a (first (ps @ qs) NULL)"
    using Cons.prems(1) unfolding c by (subst ll_split_loop.simps) (simp add: heap_defs ac_simps)
  with Cons.IH [of "n + 1" a] Cons.prems c show ?case by simp
qed

lemma to_int32_small: "- (2 ^ 31) \<le> x \<Longrightarrow> x < 2 ^ 31 \<Longrightarrow> to_int32 x = x"
  by (simp add: to_int32_def)

lemma to_size_t_small: "0 \<le> x \<Longrightarrow> x < 2 ^ 64 \<Longrightarrow> to_size_t x = x"
  by (simp add: to_size_t_def)

lemma ll_split_small:
  assumes "live s C" "C x = Some cs" "length cs < 2"
  shows "ll_split s x = Some (0, None, s)"
proof -
  have "lhead (fields cs) = NULL \<or> lsize (fields cs) = 1"
    using assms(3) by (cases cs) (auto simp: fields_def to_size_t_def)
  then show ?thesis using liveD(1) [OF assms(1,2)] by (auto simp: ll_split_def)
qed

lemma split_live:
  assumes lv: "live s C" and x: "C x = Some (ps @ qs)" and z: "C y = Some []" "C z = Some []" "y \<noteq> z" "x \<noteq> y" "x \<noteq> z"
    and c: "cells_at (lnodes s') ps NULL" "cells_at (lnodes s') qs NULL"
      "\<And>a. a \<notin> addrs_of ps \<Longrightarrow> lnodes s' a = lnodes s a"
      "\<And>a. lnodes s' a \<noteq> None \<longleftrightarrow> lnodes s a \<noteq> None"
      "lists s' = (lists s)(y \<mapsto> fields ps, z \<mapsto> fields qs)" "lbrk s' = lbrk s"
  shows "live s' (C(x := None, y \<mapsto> ps, z \<mapsto> qs))"
proof (rule live_replace [OF lv, where X = "{y, z}" and A = "addrs_of (ps @ qs)"])
  have D: "distinct (map fst (ps @ qs))" by (rule liveD(3) [OF lv x])
  let ?C = "C(x := None, y \<mapsto> ps, z \<mapsto> qs)"
  show "lists s' u = Some (fields es) \<and> cells_at (lnodes s') es NULL \<and> distinct (map fst es) \<and>
      (\<forall>a \<in> addrs_of es. a \<in> addrs_of (ps @ qs) \<or> lbrk s \<le> a)" if "u \<in> {y, z}" "?C u = Some es" for u es
    using that c D z(3) by (auto split: if_splits)
  show "addrs_of es \<inter> addrs_of es' = {}"
    if "u \<in> {y, z}" "u' \<in> {y, z}" "?C u = Some es" "?C u' = Some es'" "u \<noteq> u'" for u u' es es'
    using that D z(3) by (auto split: if_splits)
  show "addrs_of es \<inter> addrs_of (ps @ qs) = {}" if "u \<notin> {y, z}" "?C u = Some es" for u es
    using that live_disjoint [OF lv _ x, of u es] by (auto split: if_splits)
  show "a < lbrk s'" if "lnodes s' a \<noteq> None" for a
    using that c(4) [of a] c(6) lv unfolding live_def by simp
  show "a \<noteq> NULL \<and> a < lbrk s'" if "lists s' a \<noteq> None" for a
    using that c(5,6) lv liveD(5,6) [OF lv z(1)] liveD(5,6) [OF lv z(2)] unfolding live_def
    by (cases "a = z"; cases "a = y") auto
qed (use c in \<open>auto simp: image_Un split: if_splits\<close>)

lemma last_next:
  "cells_at h cs q \<Longrightarrow> cs \<noteq> [] \<Longrightarrow> \<exists>n. h (last_addr p cs) = Some n \<and> lnext n = q"
  by (cases cs rule: rev_cases) (auto simp: cells_at_append)

lemma ll_split_ok:
  assumes lv: "live s C" and x: "C x = Some cs" and len: "2 \<le> length cs" "length cs < 2 ^ 31"
  shows "\<exists>y z s'. ll_split s x =
      Some (to_int32 (fst (hd (kv (drop (length cs div 2) cs)))), Some (y, z), s') \<and>
    C y = None \<and> C z = None \<and> y \<noteq> z \<and> dom (lnodes s') = dom (lnodes s) \<and>
    live s' (C(x := None, y \<mapsto> take (length cs div 2) cs, z \<mapsto> drop (length cs div 2) cs))"
proof -
  define ps where "ps = take (length cs div 2) cs"
  define qs where "qs = drop (length cs div 2) cs"
  have eq: "cs = ps @ qs" and ne: "ps \<noteq> []" "qs \<noteq> []" and lp: "length ps = length cs div 2"
    using len by (auto simp: ps_def qs_def)
  from ne obtain ps' p k0 v0 where p: "ps = ps' @ [(p, k0, v0)]" using snoc_cells by blast
  from ne obtain q k1 v1 qs' where q: "qs = (q, k1, v1) # qs'" by (cases qs) auto
  note D = liveD [OF lv x]
  have cd: "cells_at (lnodes s) ps q" "cells_at (lnodes s) qs NULL" "distinct (map fst (ps @ qs))"
    using D(2,3) unfolding eq cells_at_append q by auto
  have pc: "p \<noteq> NULL" "lnodes s p = Some \<lparr>lkey = k0, lval = v0, lnext = q\<rparr>" "cells_at (lnodes s) ps' p"
    "p \<notin> addrs_of ps'" "p \<notin> addrs_of qs"
    using cd unfolding p cells_at_append by auto
  obtain y s1 where n1: "LinkedList s = (y, s1)" by (cases "LinkedList s")
  obtain z s2 where n2: "LinkedList s1 = (z, s2)" by (cases "LinkedList s1")
  note N1 = LinkedList_ok [OF lv n1] and N2 = LinkedList_ok [OF LinkedList_ok(3) [OF lv n1] n2]
  have nd: "lnodes s2 = lnodes s" using N1(4) N2(4) by simp
  have yz: "y \<noteq> z" "C z = None" "x \<noteq> y" "x \<noteq> z" using N2(1) N1(1) x by (auto split: if_splits)
  let ?h = "(lnodes s)(p \<mapsto> \<lparr>lkey = k0, lval = v0, lnext = NULL\<rparr>)"
  define s3 where "s3 = s2\<lparr>lnodes := ?h, lists := (lists s2)(y \<mapsto> fields ps, z \<mapsto> fields qs)\<rparr>"
  have x2: "(C(y \<mapsto> [], z \<mapsto> [])) x = Some (ps @ qs)" "(C(y \<mapsto> [], z \<mapsto> [])) y = Some []"
    "(C(y \<mapsto> [], z \<mapsto> [])) z = Some []" using yz x eq by auto
  have "live s3 ((C(y \<mapsto> [], z \<mapsto> []))(x := None, y \<mapsto> ps, z \<mapsto> qs))"
    by (rule split_live [OF N2(3) x2 yz(1,3,4)])
       (use pc cd nd in \<open>auto simp: s3_def p cells_at_append\<close>)
  moreover have "(C(y \<mapsto> [], z \<mapsto> []))(x := None, y \<mapsto> ps, z \<mapsto> qs) = C(x := None, y \<mapsto> ps, z \<mapsto> qs)"
    by (auto simp: fun_eq_iff)
  ultimately have L: "live s3 (C(x := None, y \<mapsto> ps, z \<mapsto> qs))" by simp
  have sl: "ll_split_loop s (int (length ps)) 0 NULL (first cs NULL) = Some (p, q)"
    using split_loop_ok [of s ps qs 0 NULL] D(2) unfolding eq by (simp add: p q)
  have key: "q \<noteq> NULL" "lnodes s q = Some \<lparr>lkey = k1, lval = v1, lnext = first qs' NULL\<rparr>"
    using cd(2) q by simp_all
  have la: "ltail (fields cs) = last_addr NULL qs" "last_addr NULL qs \<noteq> NULL" "last_addr NULL qs \<noteq> p"
    using last_addr_NULL [OF cd(2) ne(2), of NULL] pc(5) ne by (auto simp: fields_def eq last_addr_append last_addr_def)
  from last_next [OF cd(2) ne(2), of NULL] obtain nl where nl: "lnodes s (last_addr NULL qs) = Some nl" "lnext nl = NULL"
    by blast
  have sz: "to_int32 (lsize (fields cs)) = int (length cs)" "lsize (fields cs) \<noteq> 1" "lhead (fields cs) \<noteq> NULL"
    using len first_NULL [OF D(2)] by (auto simp: fields_def to_int32_small to_size_t_small)
  have f: "fields ps = \<lparr>lhead = lhead (fields cs), ltail = p, lsize = to_size_t (int (length ps))\<rparr>"
    "fields qs = \<lparr>lhead = q, ltail = ltail (fields cs), lsize = to_size_t (int (length cs) - int (length ps))\<rparr>"
    using la(1) by (simp_all add: fields_def eq first_append p q)
  have half: "int (length cs) div 2 = int (length ps)" using lp by (simp add: zdiv_int)
  have hd: "lhead (fields cs) = first cs NULL" by (simp add: fields_def)
  have "ll_split s x = Some (to_int32 k1, Some (y, z), s3)"
    using D(1) sz sl key n1 n2 pc(1,2) la nl half hd nd
    by (simp add: ll_split_def Let_def s3_def f heap_defs fun_upd_twist)
  moreover have "dom (lnodes s3) = dom (lnodes s)" using pc(2) by (auto simp: s3_def)
  ultimately show ?thesis using L N1(1) yz q by (auto simp: ps_def qs_def)
qed

section \<open>Observers and the destructor\<close>

lemma to_int32_step: "to_int32 (to_int32 m + n) = to_int32 (m + n)"
proof -
  have "(to_int32 m + n + 2 ^ 31) mod 2 ^ 32 = ((m + 2 ^ 31) mod 2 ^ 32 + n) mod 2 ^ 32"
    by (simp add: to_int32_def)
  also have "\<dots> = (m + n + 2 ^ 31) mod 2 ^ 32"
    by (simp only: mod_add_left_eq) (simp only: ac_simps)
  finally have "(to_int32 m + n + 2 ^ 31) mod 2 ^ 32 = (m + n + 2 ^ 31) mod 2 ^ 32" .
  then show ?thesis by (simp add: to_int32_def)
qed

lemma numKeys_loop_ok:
  "cells_at (lnodes s) cs NULL \<Longrightarrow> ll_numKeys_loop s (first cs NULL) (to_int32 n) =
     Some (to_int32 (n + int (length cs)))"
proof (induction cs arbitrary: n)
  case Nil
  then show ?case by (subst ll_numKeys_loop.simps) simp
next
  case (Cons c cs)
  obtain a k v where c: "c = (a, k, v)" by (cases c) auto
  with Cons show ?case by (subst ll_numKeys_loop.simps) (simp add: heap_defs to_int32_step add.assoc)
qed

lemma sumOfKeys_loop_ok:
  "cells_at (lnodes s) cs NULL \<Longrightarrow> ll_sumOfKeys_loop s (first cs NULL) (to_int32 n) =
     Some (to_int32 (n + sum_list (map fst (kv cs))))"
proof (induction cs arbitrary: n)
  case Nil
  then show ?case by (subst ll_sumOfKeys_loop.simps) simp
next
  case (Cons c cs)
  obtain a k v where c: "c = (a, k, v)" by (cases c) auto
  with Cons show ?case by (subst ll_sumOfKeys_loop.simps) (simp add: heap_defs to_int32_step add.assoc)
qed

lemma ll_observers:
  assumes "live s C" "C x = Some cs"
  shows "ll_numKeys s x = Some (to_size_t (to_int32 (int (length cs))))"
    "ll_sumOfKeys s x = Some (to_size_t (to_int32 (sum_list (map fst (kv cs)))))"
    "ll_getSize s x = Some (to_size_t (int (length cs)))" "ll_isEmpty s x = Some (cs = [])"
proof -
  note D = liveD [OF assms]
  have z: "to_int32 0 = 0" by (simp add: to_int32_def)
  show "ll_numKeys s x = Some (to_size_t (to_int32 (int (length cs))))"
    using numKeys_loop_ok [OF D(2), of 0] D(1) z by (simp add: ll_numKeys_def fields_def)
  show "ll_sumOfKeys s x = Some (to_size_t (to_int32 (sum_list (map fst (kv cs)))))"
    using sumOfKeys_loop_ok [OF D(2), of 0] D(1) z by (simp add: ll_sumOfKeys_def fields_def)
  show "ll_getSize s x = Some (to_size_t (int (length cs)))" "ll_isEmpty s x = Some (cs = [])"
    using D(1) first_NULL [OF D(2)] by (auto simp: ll_getSize_def ll_isEmpty_def fields_def)
qed

lemma print_loop_ok: "cells_at (lnodes s) cs NULL \<Longrightarrow> ll_print_loop s (first cs NULL) = Some (map fst (kv cs))"
proof (induction cs)
  case Nil
  then show ?case by (subst ll_print_loop.simps) simp
next
  case (Cons c cs)
  obtain a k v where "c = (a, k, v)" by (cases c) auto
  with Cons show ?case by (subst ll_print_loop.simps) (simp add: heap_defs)
qed

lemma sorted_loop_ok:
  "cells_at (lnodes s) cs NULL \<Longrightarrow> ll_sorted_loop s (first cs NULL) True = Some (sorted_kvs (kv cs))"
proof (induction cs)
  case Nil
  then show ?case by (subst ll_sorted_loop.simps) simp
next
  case (Cons c cs)
  obtain a k v where c: "c = (a, k, v)" by (cases c) auto
  show ?case
  proof (cases cs)
    case Nil
    with Cons.prems c show ?thesis
      by (subst ll_sorted_loop.simps, subst ll_sorted_loop.simps) (simp add: heap_defs)
  next
    case (Cons c' ds)
    obtain a' k' v' where c': "c' = (a', k', v')" by (cases c') auto
    show ?thesis
      using Cons.prems Cons.IH c c' Cons
      by (subst ll_sorted_loop.simps) (auto simp: heap_defs intro: all_greater_trans)
  qed
qed

lemma free_list_ok:
  "cells_at (lnodes s) cs NULL \<Longrightarrow> distinct (map fst cs) \<Longrightarrow>
     \<exists>s'. free_list s (first cs NULL) = Some s' \<and> lists s' = lists s \<and> lbrk s' = lbrk s \<and>
       lnodes s' = lnodes s |` (- addrs_of cs)"
proof (induction cs arbitrary: s)
  case Nil
  then show ?case by (subst free_list.simps) (simp add: restrict_map_def)
next
  case (Cons c cs)
  obtain a k v where c: "c = (a, k, v)" by (cases c) auto
  let ?s = "s\<lparr>lnodes := (lnodes s)(a := None)\<rparr>"
  have "cells_at (lnodes ?s) cs NULL" "distinct (map fst cs)" using Cons.prems c by auto
  from Cons.IH [OF this] obtain s' where
    "free_list ?s (first cs NULL) = Some s'" "lists s' = lists ?s" "lbrk s' = lbrk ?s"
    "lnodes s' = lnodes ?s |` (- addrs_of cs)" by blast
  moreover have "free_list s a = free_list ?s (first cs NULL)"
    using Cons.prems c by (subst free_list.simps) (simp add: heap_defs)
  ultimately show ?case using c by (auto simp: restrict_map_def fun_eq_iff)
qed

end
