(* ===== verification/List_Properties.thy ===== *)
theory List_Properties
  imports List_Proof IOSet
begin

text \<open>
  The linked list as an implementation of \<open>IOrderedSet\<close>, and its properties. The class keeps the
  dictionary part of the contract and \<open>join\<close>. It does not keep the rest: the key \<open>split\<close>
  returns and the two sums go through variables of type \<open>int\<close>.
\<close>

section \<open>The contract\<close>

definition ll_ops :: "ll_mem ioset_ops" where
  "ll_ops = \<lparr>io_new = LinkedList, io_find = ll_find, io_insert = ll_insert, io_erase = ll_erase,
     io_numKeys = ll_numKeys, io_sumOfKeys = ll_sumOfKeys, io_join = ll_join, io_split = ll_split\<rparr>"

lemma ll_ops_simps [simp]:
  "io_new ll_ops = LinkedList" "io_find ll_ops = ll_find" "io_insert ll_ops = ll_insert"
  "io_erase ll_ops = ll_erase" "io_join ll_ops = ll_join"
  by (simp_all add: ll_ops_def)

definition ll_sets :: "ll_mem \<Rightarrow> (addr \<Rightarrow> kv_list option) \<Rightarrow> bool" where
  "ll_sets s M \<longleftrightarrow> (\<exists>C. live s C \<and> M = (\<lambda>x. map_option kv (C x))) \<and> (\<forall>x xs. M x = Some xs \<longrightarrow> sorted_kvs xs)"

lemma ll_setsE:
  assumes "ll_sets s M" "M x = Some xs"
  obtains C cs where "live s C" "M = (\<lambda>x. map_option kv (C x))" "C x = Some cs" "kv cs = xs" "sorted_kvs xs"
proof -
  from assms obtain C where "live s C" "M = (\<lambda>x. map_option kv (C x))" "sorted_kvs xs" unfolding ll_sets_def by blast
  with assms(2) that show thesis by auto
qed

lemma ll_setsI:
  assumes "ll_sets s M" "M = (\<lambda>x. map_option kv (C x))" "live s' (C(x \<mapsto> cs))" "kv cs = xs" "sorted_kvs xs"
  shows "ll_sets s' (M(x \<mapsto> xs))"
proof -
  have "M(x \<mapsto> xs) = (\<lambda>u. map_option kv ((C(x \<mapsto> cs)) u))" using assms(2,4) by (auto simp: fun_eq_iff)
  moreover have "sorted_kvs us" if "(M(x \<mapsto> xs)) u = Some us" for u us
    using that assms(1,5) unfolding ll_sets_def by (auto split: if_splits)
  ultimately show ?thesis using assms(3) unfolding ll_sets_def by blast
qed

lemma ll_sets_new:
  assumes "ll_sets s M" "LinkedList s = (x, s')"
  shows "M x = None \<and> ll_sets s' (M(x \<mapsto> []))"
proof -
  from assms(1) obtain C where C: "live s C" "M = (\<lambda>x. map_option kv (C x))" unfolding ll_sets_def by blast
  from LinkedList_ok [OF C(1) assms(2)] ll_setsI [OF assms(1) C(2), of s' x "[]" "[]"] C(2) show ?thesis by simp
qed

lemma ll_sets_insert:
  assumes "ll_sets s M" "M x = Some xs"
  shows "\<exists>s'. ll_insert s x k v = Some (lookup_kv xs k, s') \<and> ll_sets s' (M(x \<mapsto> ins_kv k v xs))"
proof -
  from assms obtain C cs where C: "live s C" "M = (\<lambda>x. map_option kv (C x))" "C x = Some cs" "kv cs = xs" "sorted_kvs xs"
    by (rule ll_setsE)
  with ll_insert_ok [OF C(1,3), of k v] obtain s' cs' where
    "ll_insert s x k v = Some (lookup_kv xs k, s')" "live s' (C(x \<mapsto> cs'))" "kv cs' = ins_kv k v xs" by auto
  with ll_setsI [OF assms(1) C(2)] sorted_ins_kv [OF C(5)] show ?thesis by blast
qed

lemma ll_sets_erase:
  assumes "ll_sets s M" "M x = Some xs"
  shows "\<exists>s'. ll_erase s x k = Some (lookup_kv xs k, s') \<and> ll_sets s' (M(x \<mapsto> del_kv k xs))"
proof -
  from assms obtain C cs where C: "live s C" "M = (\<lambda>x. map_option kv (C x))" "C x = Some cs" "kv cs = xs" "sorted_kvs xs"
    by (rule ll_setsE)
  with ll_erase_ok [OF C(1,3), of k] obtain s' cs' where
    "ll_erase s x k = Some (lookup_kv xs k, s')" "live s' (C(x \<mapsto> cs'))" "kv cs' = del_kv k xs" by auto
  with ll_setsI [OF assms(1) C(2)] sorted_del_kv [OF C(5)] show ?thesis by blast
qed

lemma ll_sets_join:
  assumes s: "ll_sets s M" "M x = Some xs" "M y = Some ys" "x \<noteq> y" "sorted_kvs (xs @ ys)"
  shows "\<exists>z s'. ll_join s x y = Some (z, s') \<and> M z = None \<and>
    ll_sets s' (M(x := None, y := None, z \<mapsto> xs @ ys))"
proof -
  from s(1,2) obtain C cs where C: "live s C" "M = (\<lambda>x. map_option kv (C x))" "C x = Some cs" "kv cs = xs"
    by (rule ll_setsE)
  from s(3) C(2) obtain ds where D: "C y = Some ds" "kv ds = ys" by auto
  from ll_join_ok [OF C(1,3) D(1) s(4)] s(5) C(4) D(2) obtain z s' where
    j: "ll_join s x y = Some (z, s')" "C z = None" "live s' (C(x := None, y := None, z \<mapsto> cs @ ds))" by auto
  have "M(x := None, y := None, z \<mapsto> xs @ ys) = (\<lambda>u. map_option kv ((C(x := None, y := None, z \<mapsto> cs @ ds)) u))"
    using C(2,4) D(2) by (auto simp: fun_eq_iff)
  moreover have "sorted_kvs us" if "(M(x := None, y := None, z \<mapsto> xs @ ys)) u = Some us" for u us
    using that s(1,5) unfolding ll_sets_def by (auto split: if_splits)
  ultimately have "ll_sets s' (M(x := None, y := None, z \<mapsto> xs @ ys))" using j(3) unfolding ll_sets_def by blast
  with j(1,2) C(2) show ?thesis by auto
qed

interpretation ll_set: joinable_set ll_ops ll_sets
proof (unfold_locales, goal_cases)
  case (1 w M x xs)
  then show ?case by (rule ll_setsE)
next
  case (2 w M)
  then show ?case by (metis liveD(5) ll_setsE not_None_eq)
next
  case (3 w M x w')
  then show ?case using ll_sets_new by simp
next
  case (4 w M x xs k)
  then obtain C cs where "live w C" "C x = Some cs" "kv cs = xs" "sorted_kvs xs" by (metis ll_setsE)
  with ll_find_ok [of w C x cs k] show ?case by simp
next
  case (5 w M x xs k v)
  then show ?case using ll_sets_insert by simp
next
  case (6 w M x xs k)
  then show ?case using ll_sets_erase by simp
next
  case (7 w M x xs y ys)
  from ll_sets_join [OF 7(1-5)] obtain z w' where "ll_join w x y = Some (z, w')" "M z = None"
    "ll_sets w' (M(x := None, y := None, z \<mapsto> xs @ ys))" by blast
  then show ?case by (intro exI [of _ z] exI [of _ w']) simp
qed

section \<open>A memory\<close>

definition ll_mem_of :: "kv_list list \<Rightarrow> ll_mem" where
  "ll_mem_of xss = sets_of ll_ops empty_ll xss"

lemma ll_sets_empty: "ll_sets empty_ll (\<lambda>_. None)"
  by (auto simp: ll_sets_def live_def empty_ll_def NULL_def intro!: exI [of _ "\<lambda>_. None"])

lemma ll_mem_of_Nil: "ll_sets (ll_mem_of []) (\<lambda>_. None)"
  using ll_sets_empty by (simp add: ll_mem_of_def sets_of_def)

lemma ll_mem_of_snoc:
  assumes "ll_sets (ll_mem_of xss) M"
  shows "ll_sets (ll_mem_of (xss @ [xs])) (M(lbrk (ll_mem_of xss) \<mapsto> ins_all xs []))"
  using ll_set.sets_of_snoc [of empty_ll xss M xs] assms by (simp add: ll_mem_of_def LinkedList_def)

text \<open>Three keys, of which the last two do not fit into 32 bits.\<close>

abbreviation wide :: kv_list where
  "wide \<equiv> [(7, 1), (2 ^ 32 + 5, 2), (2 ^ 33, 3)]"

lemma wide_sets: "ll_sets (ll_mem_of [wide]) [1 \<mapsto> wide]"
proof -
  have "lbrk (ll_mem_of []) = 1" by code_simp
  with ll_mem_of_snoc [OF ll_mem_of_Nil, of wide] show ?thesis by (simp add: ins_all_def)
qed

section \<open>Properties\<close>

text \<open>
  C19. The linked list is a finite map: any sequence of find, insert and erase calls on a new
  list returns, and returns what a finite map returns.
\<close>

theorem list_refines_map:
  "\<exists>s'. calls ll_ops (snd (LinkedList empty_ll)) (fst (LinkedList empty_ll)) cs =
     Some (fst (map_calls Map.empty cs), s')"
  by (rule ll_set.new_calls [OF ll_sets_empty]) simp

text \<open>
  C20. \<open>join\<close> of two lists, every key of the left one smaller than every key of the right one,
  yields a list over the concatenation without allocating or freeing a node.
\<close>

theorem list_join_correct:
  assumes "ll_sets s M" "M x = Some xs" "M y = Some ys" "x \<noteq> y" "sorted_kvs (xs @ ys)"
  shows "\<exists>z s'. ll_join s x y = Some (z, s') \<and> M z = None \<and>
    ll_sets s' (M(x := None, y := None, z \<mapsto> xs @ ys))"
  using assms by (rule ll_sets_join)

theorem list_join_correct_witness:
  "\<exists>z s'. ll_join (ll_mem_of [[(1, 1), (2, 2)], [(5, 5)]]) 1 4 = Some (z, s') \<and>
     ll_sets s' [z \<mapsto> [(1, 1), (2, 2), (5, 5)]]"
proof -
  have "lbrk (ll_mem_of []) = 1" by code_simp
  with ll_mem_of_snoc [OF ll_mem_of_Nil, of "[(1, 1), (2, 2)]"]
  have 1: "ll_sets (ll_mem_of [[(1, 1), (2, 2)]]) [1 \<mapsto> [(1, 1), (2, 2)]]" by (simp add: ins_all_def)
  have "lbrk (ll_mem_of [[(1, 1), (2, 2)]]) = 4" by code_simp
  with ll_mem_of_snoc [OF 1, of "[(5, 5)]"]
  have "ll_sets (ll_mem_of [[(1, 1), (2, 2)], [(5, 5)]]) [1 \<mapsto> [(1, 1), (2, 2)], 4 \<mapsto> [(5, 5)]]"
    by (simp add: ins_all_def)
  from list_join_correct [OF this, of 1 "[(1, 1), (2, 2)]" 4 "[(5, 5)]"] show ?thesis
    by (auto simp: fun_upd_twist)
qed

text \<open>
  C21. \<open>split\<close> of a list of at least two and less than \<open>2 ^ 31\<close> keys cuts it in the middle into two
  lists, in two new objects, that together hold what it held; it makes no node and frees none. The key returned is the first key of the right half
  converted to 32 bits, so it separates the halves only when that key fits into an \<open>int\<close>.
\<close>

theorem list_split_halves:
  assumes "ll_sets s M" "M x = Some xs" "2 \<le> length xs" "length xs < 2 ^ 31"
  shows "\<exists>y z s'. ll_split s x = Some (to_int32 (fst (xs ! (length xs div 2))), Some (y, z), s') \<and>
    M y = None \<and> M z = None \<and> y \<noteq> z \<and> dom (lnodes s') = dom (lnodes s) \<and>
    ll_sets s' (M(x := None, y \<mapsto> take (length xs div 2) xs, z \<mapsto> drop (length xs div 2) xs))"
proof -
  from assms(1,2) obtain C cs where C: "live s C" "M = (\<lambda>x. map_option kv (C x))" "C x = Some cs" "kv cs = xs" "sorted_kvs xs"
    by (rule ll_setsE)
  let ?n = "length xs div 2"
  have len: "length cs = length xs" using C(4) by auto
  from ll_split_ok [OF C(1,3)] assms(3,4) len obtain y z s' where
    j: "ll_split s x = Some (to_int32 (fst (hd (kv (drop ?n cs)))), Some (y, z), s')" "C y = None" "C z = None"
      "y \<noteq> z" "live s' (C(x := None, y \<mapsto> take ?n cs, z \<mapsto> drop ?n cs))" "dom (lnodes s') = dom (lnodes s)"
    by auto
  have k: "hd (kv (drop ?n cs)) = xs ! ?n" using C(4) len assms(3) by (simp add: hd_map hd_drop_conv_nth flip: C(4))
  have m: "M(x := None, y \<mapsto> take ?n xs, z \<mapsto> drop ?n xs) =
      (\<lambda>u. map_option kv ((C(x := None, y \<mapsto> take ?n cs, z \<mapsto> drop ?n cs)) u))"
    unfolding C(2) by (auto simp: fun_eq_iff take_map drop_map simp flip: C(4))
  have "sorted_kvs (take ?n xs @ drop ?n xs)" using C(5) by simp
  then have "sorted_kvs us" if "(M(x := None, y \<mapsto> take ?n xs, z \<mapsto> drop ?n xs)) u = Some us" for u us
    using that assms(1) unfolding ll_sets_def sorted_kvs_append by (auto split: if_splits)
  then have "ll_sets s' (M(x := None, y \<mapsto> take ?n xs, z \<mapsto> drop ?n xs))"
    unfolding ll_sets_def using j(5) m by blast
  with j k C(2) show ?thesis by auto
qed

theorem list_split_halves_witness:
  "\<exists>y z s'. ll_split (ll_mem_of [wide]) 1 = Some (5, Some (y, z), s') \<and> y \<noteq> z \<and>
     ll_sets s' [y \<mapsto> [(7, 1)], z \<mapsto> [(2 ^ 32 + 5, 2), (2 ^ 33, 3)]]"
  using list_split_halves [OF wide_sets, of 1 wide] by (auto simp: to_int32_def)

text \<open>
  C22. \<open>sumOfKeys\<close> and \<open>numKeys\<close> of a list are the sum and the number of the keys reduced to 32
  bits (and then converted to \<open>size_t\<close>), unlike those of the tree sets, which are reduced to 64
  bits. \<open>getSize\<close> is the number of the keys, and \<open>checkSortedOrder\<close> holds.
\<close>

theorem list_sums_truncated:
  assumes "ll_sets s M" "M x = Some xs"
  shows "ll_sumOfKeys s x = Some (to_size_t (to_int32 (sum_list (map fst xs)))) \<and>
    ll_numKeys s x = Some (to_size_t (to_int32 (int (length xs)))) \<and>
    ll_getSize s x = Some (to_size_t (int (length xs))) \<and>
    ll_checkSortedOrder s x = Some True"
proof (intro conjI)
  from assms obtain C cs where C: "live s C" "C x = Some cs" "kv cs = xs" "sorted_kvs xs"
    by (metis ll_setsE)
  note ob = ll_observers [OF C(1,2)] and D = liveD [OF C(1,2)]
  show "ll_sumOfKeys s x = Some (to_size_t (to_int32 (sum_list (map fst xs))))" using ob(2) C(3) by simp
  show "ll_numKeys s x = Some (to_size_t (to_int32 (int (length xs))))" using ob(1) C(3) by auto
  show "ll_getSize s x = Some (to_size_t (int (length xs)))" using ob(3) C(3) by auto
  show "ll_checkSortedOrder s x = Some True"
    using D(1) sorted_loop_ok [OF D(2)] C(3,4) by (simp add: ll_checkSortedOrder_def List_Proof.fields_def)
qed

theorem list_sums_truncated_witness:
  "ll_sumOfKeys (ll_mem_of [wide]) 1 = Some 12 \<and> sum_list (map fst wide) = 3 * 2 ^ 32 + 12"
  using list_sums_truncated [OF wide_sets, of 1 wide] by (simp add: to_int32_def to_size_t_def)

text \<open>
  C23. The destructor of a list frees all of its nodes, no other node, and never touches a node
  it has freed.
\<close>

theorem list_destructor_frees:
  assumes "ll_sets s M" "M x = Some xs"
  shows "\<exists>s'. destroy_LinkedList s x = Some s' \<and> ll_sets s' (M(x := None)) \<and>
    card (dom (lnodes s) - dom (lnodes s')) = length xs"
proof -
  from assms obtain C cs where C: "live s C" "M = (\<lambda>x. map_option kv (C x))" "C x = Some cs" "kv cs = xs"
    by (rule ll_setsE)
  note D = liveD [OF C(1,3)]
  from free_list_ok [OF D(2,3)] obtain s1 where
    f: "free_list s (first cs NULL) = Some s1" "lists s1 = lists s" "lbrk s1 = lbrk s"
      "lnodes s1 = lnodes s |` (- addrs_of cs)" by blast
  let ?s = "s1\<lparr>lists := (lists s1)(x := None)\<rparr>"
  have d: "destroy_LinkedList s x = Some ?s" using D(1) f(1) by (simp add: destroy_LinkedList_def List_Proof.fields_def)
  have "live ?s (C(x := None))"
  proof (rule live_replace [OF C(1), where X = "{x}" and A = "addrs_of cs"])
    show "addrs_of ds \<inter> addrs_of cs = {}" if "y \<notin> {x}" "(C(x := None)) y = Some ds" for y ds
      using that live_disjoint [OF C(1) _ C(3), of y ds] by auto
  qed (use C(1) f in \<open>auto simp: live_def restrict_map_def split: if_splits\<close>)
  moreover have "M(x := None) = (\<lambda>u. map_option kv ((C(x := None)) u))" using C(2) by (auto simp: fun_eq_iff)
  moreover have "sorted_kvs us" if "(M(x := None)) u = Some us" for u us
    using that assms(1) unfolding ll_sets_def by (auto split: if_splits)
  ultimately have "ll_sets ?s (M(x := None))" unfolding ll_sets_def by blast
  moreover have "addrs_of cs \<subseteq> dom (lnodes s)" using cells_at_dom [OF D(2)] by (meson domIff subsetI)
  then have "dom (lnodes s) - dom (lnodes ?s) = set (map fst cs)" 
    unfolding set_map using f(4) by (simp add: Diff_eq Int_Un_distrib Int_absorb1)
  then have "card (dom (lnodes s) - dom (lnodes ?s)) = length (map fst cs)" using D(3) distinct_card by metis
  then have "card (dom (lnodes s) - dom (lnodes ?s)) = length xs" using C(4) by auto
  ultimately show ?thesis using d by blast
qed

theorem list_destructor_frees_witness:
  "\<exists>s'. destroy_LinkedList (ll_mem_of [wide]) 1 = Some s' \<and> ll_sets s' Map.empty"
  using list_destructor_frees [OF wide_sets, of 1 wide] by auto

end
