(* ===== verification/CA_Nodes.thy ===== *)
theory CA_Nodes
  imports Prelude
begin

text \<open>
  The nodes of the contention-adapting tree: \<open>winblad_catree/base_node.h\<close> and
  \<open>winblad_catree/route_node.h\<close>. A mutex is a flag; a thread that calls \<open>lock()\<close> on a mutex that
  is held waits, and a call that waits has no result in a run of one thread. What happens when
  the wait is over is \<open>base_lock_waited\<close>. The members of the two classes come first as functions
  on a node, the way the tree uses them; the last sections have those of base nodes statement
  by statement, for the interleavings of several threads.
\<close>

section \<open>Base nodes\<close>

text \<open>
  The statistics are an \<open>int\<close>; the sums have the wrap-around of the machine. Unlocking a mutex
  that is not locked is undefined and has no result.
\<close>

record base_node =
  b_set :: addr
  b_locked :: bool
  b_stat :: int
  b_owner :: int
  b_valid :: bool
  b_parent :: addr

definition STAT_LOCK_HIGH_CONTENTION_LIMIT :: int where
  "STAT_LOCK_HIGH_CONTENTION_LIMIT = 1000"

definition STAT_LOCK_LOW_CONTENTION_LIMIT :: int where
  "STAT_LOCK_LOW_CONTENTION_LIMIT = -1000"

definition STAT_LOCK_FAILURE_CONTRIB :: int where
  "STAT_LOCK_FAILURE_CONTRIB = 250"

definition STAT_LOCK_SUCCESS_CONTRIB :: int where
  "STAT_LOCK_SUCCESS_CONTRIB = 1"

text \<open>The constructor leaves the pointer to the set uninitialised; every caller sets it next.\<close>

definition new_BaseNode :: base_node where
  "new_BaseNode = \<lparr>b_set = NULL, b_locked = False, b_stat = 0, b_owner = -1, b_valid = True,
     b_parent = NULL\<rparr>"

definition base_invalidate :: "int \<Rightarrow> base_node \<Rightarrow> base_node option" where
  "base_invalidate tid n = do {
     _ \<leftarrow> assert_that (b_valid n);
     _ \<leftarrow> assert_that (b_owner n = tid);
     Some (n\<lparr>b_valid := False\<rparr>)
   }"

definition base_isValid :: "int \<Rightarrow> base_node \<Rightarrow> bool option" where
  "base_isValid tid n = do {
     _ \<leftarrow> assert_that (b_owner n = tid);
     Some (b_valid n)
   }"

definition base_tryLock :: "int \<Rightarrow> base_node \<Rightarrow> (bool \<times> base_node) option" where
  "base_tryLock tid n =
     (if \<not> b_locked n then do {
        _ \<leftarrow> assert_that (b_owner n = -1);
        Some (True, n\<lparr>b_locked := True, b_owner := tid\<rparr>)
      }
      else Some (False, n))"

text \<open>The part of \<open>lock\<close> after \<open>m.lock()\<close> has returned.\<close>

definition base_lock_waited :: "int \<Rightarrow> base_node \<Rightarrow> base_node option" where
  "base_lock_waited tid n =
     (if b_locked n then None
      else do {
        _ \<leftarrow> assert_that (b_owner n = -1);
        Some (n\<lparr>b_locked := True, b_owner := tid, b_stat := to_int32 (b_stat n + STAT_LOCK_FAILURE_CONTRIB)\<rparr>)
      })"

definition base_lock :: "int \<Rightarrow> base_node \<Rightarrow> base_node option" where
  "base_lock tid n =
     (if \<not> b_locked n then do {
        _ \<leftarrow> assert_that (b_owner n = -1);
        Some (n\<lparr>b_locked := True, b_owner := tid, b_stat := to_int32 (b_stat n - STAT_LOCK_SUCCESS_CONTRIB)\<rparr>)
      }
      else base_lock_waited tid n)"

definition base_unlock :: "int \<Rightarrow> base_node \<Rightarrow> base_node option" where
  "base_unlock tid n = do {
     _ \<leftarrow> assert_that (b_owner n = tid);
     _ \<leftarrow> assert_that (b_locked n);
     Some (n\<lparr>b_owner := -1, b_locked := False\<rparr>)
   }"

definition base_resetStatistics :: "base_node \<Rightarrow> base_node" where
  "base_resetStatistics n = n\<lparr>b_stat := 0\<rparr>"

definition isHighContentionLimitReached :: "base_node \<Rightarrow> bool" where
  "isHighContentionLimitReached n \<longleftrightarrow> b_stat n > STAT_LOCK_HIGH_CONTENTION_LIMIT"

definition isLowContentionLimitReached :: "base_node \<Rightarrow> bool" where
  "isLowContentionLimitReached n \<longleftrightarrow> b_stat n < STAT_LOCK_LOW_CONTENTION_LIMIT"

section \<open>Route nodes\<close>

record route_node =
  r_key :: key
  r_left :: addr
  r_right :: addr
  r_locked :: bool
  r_owner :: int
  r_valid :: bool

text \<open>The constructor leaves key and children uninitialised; the only caller sets them next.\<close>

definition new_RouteNode :: route_node where
  "new_RouteNode = \<lparr>r_key = 0, r_left = NULL, r_right = NULL, r_locked = False, r_owner = -1,
     r_valid = True\<rparr>"

definition route_invalidate :: "int \<Rightarrow> route_node \<Rightarrow> route_node option" where
  "route_invalidate tid n = do {
     _ \<leftarrow> assert_that (r_owner n = tid);
     _ \<leftarrow> assert_that (r_valid n);
     Some (n\<lparr>r_valid := False\<rparr>)
   }"

definition route_isValid :: "int \<Rightarrow> route_node \<Rightarrow> bool option" where
  "route_isValid tid n = do {
     _ \<leftarrow> assert_that (r_owner n = tid);
     Some (r_valid n)
   }"

definition route_lock :: "int \<Rightarrow> route_node \<Rightarrow> route_node option" where
  "route_lock tid n =
     (if r_locked n then None
      else do {
        _ \<leftarrow> assert_that (r_owner n = -1);
        Some (n\<lparr>r_locked := True, r_owner := tid\<rparr>)
      })"

definition route_unlock :: "int \<Rightarrow> route_node \<Rightarrow> route_node option" where
  "route_unlock tid n = do {
     _ \<leftarrow> assert_that (r_owner n = tid);
     _ \<leftarrow> assert_that (r_locked n);
     Some (n\<lparr>r_owner := -1, r_locked := False\<rparr>)
   }"

section \<open>The members of a base node, statement by statement\<close>

text \<open>
  What a client knows of a node: it is outside of its critical section, or inside, and then
  whether \<open>isValid\<close> has returned true in this critical section and the node was not invalidated
  since.
\<close>

datatype client = Outside | Inside bool

text \<open>
  The atomic statements. \<open>IfTryLock yes\<close> is \<open>if (m.try_lock()) { yes }\<close>; \<open>Return c\<close> leaves the
  member, and the client is \<open>c\<close> then; \<open>ReturnValid\<close> is \<open>return valid\<close>. The end of the list returns
  as well.
\<close>

datatype instr =
    IfTryLock "instr list"
  | MutexLock
  | MutexUnlock
  | AssertOwner int
  | AssertValid
  | SetOwner int
  | SetInvalid
  | AddStat int
  | ResetStat
  | Return client
  | ReturnValid

definition lock_code :: "int \<Rightarrow> instr list" where
  "lock_code tid =
     [IfTryLock
        [AssertOwner (-1),
         SetOwner tid,
         AddStat (- STAT_LOCK_SUCCESS_CONTRIB),
         Return (Inside False)],
      MutexLock,
      AssertOwner (-1),
      SetOwner tid,
      AddStat STAT_LOCK_FAILURE_CONTRIB,
      Return (Inside False)]"

definition tryLock_code :: "int \<Rightarrow> instr list" where
  "tryLock_code tid =
     [IfTryLock
        [AssertOwner (-1),
         SetOwner tid,
         Return (Inside False)],
      Return Outside]"

definition unlock_code :: "int \<Rightarrow> instr list" where
  "unlock_code tid =
     [AssertOwner tid,
      SetOwner (-1),
      MutexUnlock]"

definition isValid_code :: "int \<Rightarrow> instr list" where
  "isValid_code tid =
     [AssertOwner tid,
      ReturnValid]"

definition invalidate_code :: "int \<Rightarrow> instr list" where
  "invalidate_code tid =
     [AssertValid,
      AssertOwner tid,
      SetInvalid]"

definition resetStatistics_code :: "instr list" where
  "resetStatistics_code = [ResetStat]"

lemmas member_codes = lock_code_def tryLock_code_def unlock_code_def isValid_code_def
  invalidate_code_def resetStatistics_code_def

text \<open>
  One statement: the node, the client and the statements that remain. There is no result when
  an assertion fails and when a mutex is unlocked that is not locked.
\<close>

fun exec_instr :: "instr \<Rightarrow> instr list \<Rightarrow> client \<Rightarrow> base_node \<Rightarrow> (client \<times> instr list \<times> base_node) option" where
  "exec_instr (IfTryLock yes) rest c n =
     (if b_locked n then Some (c, rest, n) else Some (c, yes, n\<lparr>b_locked := True\<rparr>))"
| "exec_instr MutexLock rest c n = Some (c, rest, n\<lparr>b_locked := True\<rparr>)"
| "exec_instr MutexUnlock rest c n =
     (if b_locked n then Some (c, rest, n\<lparr>b_locked := False\<rparr>) else None)"
| "exec_instr (AssertOwner v) rest c n = (if b_owner n = v then Some (c, rest, n) else None)"
| "exec_instr AssertValid rest c n = (if b_valid n then Some (c, rest, n) else None)"
| "exec_instr (SetOwner v) rest c n = Some (c, rest, n\<lparr>b_owner := v\<rparr>)"
| "exec_instr SetInvalid rest c n = Some (Inside False, rest, n\<lparr>b_valid := False\<rparr>)"
| "exec_instr (AddStat d) rest c n = Some (c, rest, n\<lparr>b_stat := to_int32 (b_stat n + d)\<rparr>)"
| "exec_instr ResetStat rest c n = Some (c, rest, n\<lparr>b_stat := 0\<rparr>)"
| "exec_instr (Return c') rest c n = Some (c', [], n)"
| "exec_instr ReturnValid rest c n = Some (Inside (b_valid n), [], n)"

text \<open>The only statement that can wait is \<open>m.lock()\<close>.\<close>

fun ready :: "instr \<Rightarrow> base_node \<Rightarrow> bool" where
  "ready MutexLock n \<longleftrightarrow> \<not> b_locked n"
| "ready _ n \<longleftrightarrow> True"

text \<open>
  A member run by one thread alone: the statements, one after the other, are the functions
  above. (\<open>fuel\<close> is the number of statements; no member has more than six on a path.)
\<close>

fun alone :: "nat \<Rightarrow> instr list \<Rightarrow> client \<Rightarrow> base_node \<Rightarrow> (client \<times> base_node) option" where
  "alone fuel [] c n = Some (c, n)"
| "alone 0 (ins # rest) c n = None"
| "alone (Suc fuel) (ins # rest) c n =
     (if ready ins n then
        case exec_instr ins rest c n of None \<Rightarrow> None | Some (c', code, n') \<Rightarrow> alone fuel code c' n'
      else None)"

lemmas base_node_defs = base_lock_def base_lock_waited_def base_tryLock_def base_unlock_def
  base_isValid_def base_invalidate_def base_resetStatistics_def

lemma alone_members:
  "alone 6 (lock_code tid) Outside n = map_option (\<lambda>n'. (Inside False, n')) (base_lock tid n)"
  "alone 6 (tryLock_code tid) Outside n =
     map_option (\<lambda>(got, n'). (if got then Inside False else Outside, n')) (base_tryLock tid n)"
  "alone 6 (unlock_code tid) Outside n = map_option (\<lambda>n'. (Outside, n')) (base_unlock tid n)"
  "alone 6 (isValid_code tid) (Inside v) n = map_option (\<lambda>w. (Inside w, n)) (base_isValid tid n)"
  "alone 6 (invalidate_code tid) (Inside v) n =
     map_option (\<lambda>n'. (Inside False, n')) (base_invalidate tid n)"
  "alone 6 resetStatistics_code (Inside v) n = Some (Inside v, base_resetStatistics n)"
  by (simp_all add: member_codes base_node_defs assert_that_def numeral_eq_Suc)

section \<open>Threads on one base node\<close>

datatype member = M_lock | M_tryLock | M_unlock | M_isValid | M_invalidate | M_resetStatistics

fun code_of :: "member \<Rightarrow> int \<Rightarrow> instr list" where
  "code_of M_lock tid = lock_code tid"
| "code_of M_tryLock tid = tryLock_code tid"
| "code_of M_unlock tid = unlock_code tid"
| "code_of M_isValid tid = isValid_code tid"
| "code_of M_invalidate tid = invalidate_code tid"
| "code_of M_resetStatistics tid = resetStatistics_code"

text \<open>
  The calls the tree makes: \<open>lock\<close> and \<open>tryLock\<close> outside of a critical section, the others inside,
  and \<open>invalidate\<close> only after \<open>isValid\<close> has returned true in the same critical section and not
  twice.
\<close>

fun may_call :: "client \<Rightarrow> member \<Rightarrow> bool" where
  "may_call Outside m \<longleftrightarrow> m = M_lock \<or> m = M_tryLock"
| "may_call (Inside v) m \<longleftrightarrow> m = M_unlock \<or> m = M_isValid \<or> m = M_resetStatistics \<or> m = M_invalidate \<and> v"

text \<open>The critical section ends with the call of \<open>unlock\<close>.\<close>

definition calling :: "member \<Rightarrow> client \<Rightarrow> client" where
  "calling m c = (if m = M_unlock then Outside else c)"

text \<open>
  Any number of threads, each with the client's knowledge and the statements that remain of the
  member it is in (none: it is in the client's code). A step is a call or one statement of one
  thread; \<open>m.try_lock()\<close> may also fail on a free mutex, as the standard permits. A statement
  without a result leads to \<open>Crashed\<close>.
\<close>

type_synonym threads = "int \<Rightarrow> client \<times> instr list"

datatype bn_state = Crashed | Running base_node threads

definition after :: "(client \<times> instr list \<times> base_node) option \<Rightarrow> int \<Rightarrow> threads \<Rightarrow> bn_state" where
  "after r i th = (case r of None \<Rightarrow> Crashed | Some (c, code, n) \<Rightarrow> Running n (th(i := (c, code))))"

inductive bn_step :: "bn_state \<Rightarrow> bn_state \<Rightarrow> bool" where
  call: "th i = (c, []) \<Longrightarrow> may_call c m \<Longrightarrow>
    bn_step (Running n th) (Running n (th(i := (calling m c, code_of m i))))"
| exec: "th i = (c, ins # rest) \<Longrightarrow> ready ins n \<Longrightarrow>
    bn_step (Running n th) (after (exec_instr ins rest c n) i th)"
| try_lock_fails: "th i = (c, IfTryLock yes # rest) \<Longrightarrow>
    bn_step (Running n th) (Running n (th(i := (c, rest))))"

definition bn_init :: bn_state where
  "bn_init = Running new_BaseNode (\<lambda>_. (Outside, []))"

definition inside :: "threads \<Rightarrow> int \<Rightarrow> bool" where
  "inside th i \<longleftrightarrow> fst (th i) \<noteq> Outside"

text \<open>
  A check of the statements that remain, for a thread that does not hold the mutex (\<open>None\<close>) or
  holds it while the owner is \<open>ow\<close> (\<open>Some ow\<close>): the assertions on the owner hold, only the thread
  with the mutex writes, it gives the mutex back with the owner reset, and it is inside only
  as the owner.
\<close>

fun safe :: "int \<Rightarrow> int option \<Rightarrow> client \<Rightarrow> instr list \<Rightarrow> bool" where
  "safe i h c [] \<longleftrightarrow> (if c = Outside then h = None else h = Some i)"
| "safe i h c (ins # rest) \<longleftrightarrow> (case ins of
     IfTryLock yes \<Rightarrow> h = None \<and> safe i (Some (-1)) c yes \<and> safe i None c rest
   | MutexLock \<Rightarrow> h = None \<and> safe i (Some (-1)) c rest
   | MutexUnlock \<Rightarrow> h = Some (-1) \<and> c = Outside \<and> safe i None c rest
   | AssertOwner v \<Rightarrow> h = Some v \<and> safe i h c rest
   | AssertValid \<Rightarrow> c = Inside True \<and> safe i h c rest
   | SetOwner v \<Rightarrow> h \<noteq> None \<and> c = Outside \<and> safe i (Some v) c rest
   | SetInvalid \<Rightarrow> h = Some i \<and> safe i h (Inside False) rest
   | AddStat d \<Rightarrow> h \<noteq> None \<and> safe i h c rest
   | ResetStat \<Rightarrow> h \<noteq> None \<and> safe i h c rest
   | Return c' \<Rightarrow> c' \<noteq> Inside True \<and> (if c' = Outside then h = None else h = Some i)
   | ReturnValid \<Rightarrow> h = Some i)"

lemma safe_members:
  assumes "may_call c m" "if c = Outside then h = None else h = Some i"
  shows "safe i h (calling m c) (code_of m i)"
  using assms by (cases m; cases c) (auto simp: member_codes calling_def)

text \<open>
  The invariant: a thread \<open>k\<close> holds the mutex, or nobody does and the owner is \<open>-1\<close>; all threads
  are safe; a thread that is inside holds the mutex and is the owner, and what it knows of the
  validity is true.
\<close>

definition has_mutex :: "int option \<Rightarrow> base_node \<Rightarrow> int \<Rightarrow> int option" where
  "has_mutex k n i = (if k = Some i then Some (b_owner n) else None)"

definition thread_ok :: "int option \<Rightarrow> base_node \<Rightarrow> int \<Rightarrow> client \<Rightarrow> instr list \<Rightarrow> bool" where
  "thread_ok k n i c code \<longleftrightarrow> safe i (has_mutex k n i) c code \<and>
     (c \<noteq> Outside \<longrightarrow> k = Some i \<and> b_owner n = i) \<and> (c = Inside True \<longrightarrow> b_valid n)"

definition node_ok :: "int option \<Rightarrow> base_node \<Rightarrow> bool" where
  "node_ok k n \<longleftrightarrow> b_locked n = (k \<noteq> None) \<and> (k = None \<longrightarrow> b_owner n = -1)"

fun bn_inv :: "bn_state \<Rightarrow> bool" where
  "bn_inv Crashed = False"
| "bn_inv (Running n th) = (\<exists>k. node_ok k n \<and> (\<forall>i. thread_ok k n i (fst (th i)) (snd (th i))))"

lemmas bn_defs = has_mutex_def thread_ok_def node_ok_def

lemma bn_inv_init: "bn_inv bn_init"
  by (auto simp: bn_init_def new_BaseNode_def bn_defs intro!: exI [of _ None])

text \<open>The other threads do not notice what a thread does that starts or ends with the mutex.\<close>

lemma thread_ok_other:
  assumes "thread_ok k n j c code" "k = Some j \<longrightarrow> k' = k \<and> n' = n" "k' = Some j \<longrightarrow> k = k'"
  shows "thread_ok k' n' j c code"
  using assms by (auto simp: bn_defs)

lemma exec_ok:
  assumes "node_ok k n" "thread_ok k n i c (ins # rest)" "ready ins n"
  shows "\<exists>k' c' code n'. exec_instr ins rest c n = Some (c', code, n') \<and> node_ok k' n' \<and>
    thread_ok k' n' i c' code \<and> (k' \<noteq> k \<longrightarrow> k = None \<and> k' = Some i \<or> k = Some i \<and> k' = None) \<and>
    (k \<noteq> Some i \<and> k' \<noteq> Some i \<longrightarrow> n' = n)"
proof (cases ins)
  case (IfTryLock yes)
  show ?thesis
  proof (cases "b_locked n")
    case True
    with assms IfTryLock show ?thesis by (intro exI [of _ k]) (auto simp: bn_defs split: if_splits)
  next
    case False
    with assms IfTryLock show ?thesis by (intro exI [of _ "Some i"]) (auto simp: bn_defs split: if_splits)
  qed
next
  case MutexLock
  with assms show ?thesis by (intro exI [of _ "Some i"]) (auto simp: bn_defs split: if_splits)
next
  case MutexUnlock
  with assms show ?thesis by (intro exI [of _ None]) (auto simp: bn_defs split: if_splits)
qed (use assms in \<open>(intro exI [of _ k], auto simp: bn_defs split: if_splits)\<close>)+

lemma bn_inv_step: "bn_step s s' \<Longrightarrow> bn_inv s \<Longrightarrow> bn_inv s'"
proof (induction rule: bn_step.induct)
  case (call th i c m n)
  then obtain k where k: "node_ok k n" "\<And>j. thread_ok k n j (fst (th j)) (snd (th j))" by auto
  from k(2) [of i] call(1) have "if c = Outside then has_mutex k n i = None else has_mutex k n i = Some i"
    and "c \<noteq> Outside \<longrightarrow> k = Some i \<and> b_owner n = i" "c = Inside True \<longrightarrow> b_valid n"
    by (auto simp: bn_defs)
  with safe_members [OF call(2)] have "thread_ok k n i (calling m c) (code_of m i)"
    by (auto simp: thread_ok_def calling_def)
  with k show ?case by auto
next
  case (exec th i c ins rest n)
  then obtain k where k: "node_ok k n" "\<And>j. thread_ok k n j (fst (th j)) (snd (th j))" by auto
  from k(2) [of i] exec(1) have "thread_ok k n i c (ins # rest)" by simp
  from exec_ok [OF k(1) this exec(2)] obtain k' c' code n' where
    e: "exec_instr ins rest c n = Some (c', code, n')" "node_ok k' n'" "thread_ok k' n' i c' code"
      "k' \<noteq> k \<longrightarrow> k = None \<and> k' = Some i \<or> k = Some i \<and> k' = None" "k \<noteq> Some i \<and> k' \<noteq> Some i \<longrightarrow> n' = n"
    by blast
  have "thread_ok k' n' j (fst (th j)) (snd (th j))" if "j \<noteq> i" for j
    by (rule thread_ok_other [OF k(2)]) (use e(4,5) that in auto)
  with e show ?case by (auto simp: after_def)
next
  case (try_lock_fails th i c yes rest n)
  then obtain k where k: "node_ok k n" "\<And>j. thread_ok k n j (fst (th j)) (snd (th j))" by auto
  from k(2) [of i] try_lock_fails(1) have "thread_ok k n i c rest" by (auto simp: bn_defs split: if_splits)
  with k show ?case by auto
qed

lemma bn_inv_reachable: "bn_step\<^sup>*\<^sup>* bn_init s \<Longrightarrow> bn_inv s"
  by (induction rule: rtranclp_induct) (auto intro: bn_inv_init bn_inv_step)

text \<open>
  C14. Base nodes are mutually exclusive and their assertions never fire, with the members of
  any number of threads interleaved statement by statement: when the threads call \<open>lock\<close> and
  \<open>tryLock\<close> only outside of their critical sections, the other members only inside, and
  \<open>invalidate\<close> only after \<open>isValid\<close> has returned true in the same critical section, then no
  assertion fails and no free mutex is unlocked; at most one thread is inside, it is the
  recorded owner, the mutex is locked, and the validity it has read still holds.
\<close>

theorem base_node_exclusive:
  assumes "bn_step\<^sup>*\<^sup>* bn_init s"
  shows "\<exists>n th. s = Running n th \<and> (\<forall>i j. inside th i \<and> inside th j \<longrightarrow> i = j) \<and>
    (\<forall>i. inside th i \<longrightarrow> b_owner n = i \<and> b_locked n) \<and> (\<forall>i. fst (th i) = Inside True \<longrightarrow> b_valid n)"
proof (cases s)
  case Crashed
  with bn_inv_reachable [OF assms] show ?thesis by simp
next
  case (Running n th)
  with bn_inv_reachable [OF assms] obtain k where
    k: "node_ok k n" "\<And>j. thread_ok k n j (fst (th j)) (snd (th j))" by auto
  have "k = Some i \<and> b_owner n = i" if "inside th i" for i
    using k(2) [of i] that by (simp add: thread_ok_def inside_def)
  moreover have "b_valid n" if "fst (th i) = Inside True" for i
    using k(2) [of i] that by (simp add: thread_ok_def)
  ultimately show ?thesis using Running k(1) by (auto simp: node_ok_def)
qed

text \<open>
  Runs for the witness: what a thread does when it is scheduled, \<open>Some m\<close> being a call of \<open>m\<close>
  and \<open>None\<close> one statement.
\<close>

fun bn_move :: "int \<times> member option \<Rightarrow> bn_state \<Rightarrow> bn_state option" where
  "bn_move _ Crashed = None"
| "bn_move (i, Some m) (Running n th) = (case th i of (c, code) \<Rightarrow>
     if code = [] \<and> may_call c m then Some (Running n (th(i := (calling m c, code_of m i)))) else None)"
| "bn_move (i, None) (Running n th) = (case th i of
     (c, []) \<Rightarrow> None
   | (c, ins # rest) \<Rightarrow> if ready ins n then Some (after (exec_instr ins rest c n) i th) else None)"

fun bn_moves :: "(int \<times> member option) list \<Rightarrow> bn_state \<Rightarrow> bn_state option" where
  "bn_moves [] s = Some s"
| "bn_moves (x # xs) s = (case bn_move x s of None \<Rightarrow> None | Some s' \<Rightarrow> bn_moves xs s')"

lemma bn_move_step: "bn_move x s = Some s' \<Longrightarrow> bn_step s s'"
  by (induction x s rule: bn_move.induct)
    (auto split: prod.splits list.splits if_splits intro: bn_step.call bn_step.exec)

lemma bn_moves_steps: "bn_moves xs s = Some s' \<Longrightarrow> bn_step\<^sup>*\<^sup>* s s'"
  by (induction xs arbitrary: s)
    (auto split: option.splits intro: converse_rtranclp_into_rtranclp bn_move_step)

text \<open>
  Thread 1 takes the node, thread 2 has to wait, thread 1 finds the node valid, invalidates it
  and leaves; thread 2 gets in and finds the node invalid.
\<close>

definition handover :: "(int \<times> member option) list" where
  "handover = (1, Some M_lock) # replicate 5 (1, None) @ [(2, Some M_lock), (2, None)] @
     [(1, Some M_isValid), (1, None), (1, None)] @ (1, Some M_invalidate) # replicate 3 (1, None) @
     (1, Some M_unlock) # replicate 3 (1, None) @ replicate 5 (2, None) @
     [(2, Some M_isValid), (2, None), (2, None)]"

definition handover_end :: base_node where
  "handover_end = new_BaseNode\<lparr>b_locked := True, b_stat := 249, b_owner := 2, b_valid := False\<rparr>"

lemma handover_run: "\<exists>th. bn_moves handover bn_init = Some (Running handover_end th) \<and> inside th 2"
  by (simp add: handover_def bn_init_def after_def member_codes calling_def numeral_eq_Suc inside_def
      new_BaseNode_def handover_end_def STAT_LOCK_FAILURE_CONTRIB_def STAT_LOCK_SUCCESS_CONTRIB_def to_int32_def)

theorem base_node_exclusive_witness:
  "\<exists>th. bn_step\<^sup>*\<^sup>* bn_init (Running handover_end th) \<and> inside th 2 \<and> b_owner handover_end = 2 \<and>
     (\<forall>j. inside th j \<longrightarrow> j = 2)"
proof -
  from handover_run obtain th where
    "bn_moves handover bn_init = Some (Running handover_end th)" and 2: "inside th 2" by blast
  then have r: "bn_step\<^sup>*\<^sup>* bn_init (Running handover_end th)" by (blast intro: bn_moves_steps)
  from base_node_exclusive [OF r] 2 r show ?thesis by auto
qed

end
