(* ===== verification/Rec_Mgr.thy ===== *)
theory Rec_Mgr
  imports Prelude
begin

text \<open>
  The record manager, a memory reclamation service that is not part of the sources: the
  concurrent structures allocate, retire and deallocate their nodes through it. Its methods are
  a parameter of the models, and \<open>recmgr_ok\<close> states what the models rely on.
\<close>

record 'r recmgr_ops =
  rm_allocate :: "'r \<Rightarrow> addr \<times> 'r"
  rm_retire :: "'r \<Rightarrow> addr \<Rightarrow> 'r"
  rm_deallocate :: "'r \<Rightarrow> addr \<Rightarrow> 'r"

text \<open>
  \<open>live r\<close>: addresses that are handed out and will not be handed out again as long as they are not
  retired or deallocated. A retired node may stay in this set or leave it.
\<close>

definition recmgr_ok :: "'r recmgr_ops \<Rightarrow> ('r \<Rightarrow> addr set) \<Rightarrow> bool" where
  "recmgr_ok rm live \<longleftrightarrow>
     (\<forall>r a r'. rm_allocate rm r = (a, r') \<longrightarrow> a \<noteq> NULL \<and> a \<notin> live r \<and> live r' = insert a (live r)) \<and>
     (\<forall>r a. live r - {a} \<subseteq> live (rm_retire rm r a) \<and> live (rm_retire rm r a) \<subseteq> live r) \<and>
     (\<forall>r a. live (rm_deallocate rm r a) = live r - {a})"

lemma recmgr_okD:
  assumes "recmgr_ok rm live"
  shows "rm_allocate rm r = (a, r') \<Longrightarrow> a \<noteq> NULL \<and> a \<notin> live r \<and> live r' = insert a (live r)"
    and "live r - {a} \<subseteq> live (rm_retire rm r a)" "live (rm_deallocate rm r a) = live r - {a}"
  using assms unfolding recmgr_ok_def by blast+

text \<open>An instance: addresses are handed out in increasing order and nothing is reused.\<close>

definition bump_ops :: "(addr \<times> addr set) recmgr_ops" where
  "bump_ops = \<lparr>rm_allocate = \<lambda>(n, L). (Suc n, Suc n, insert (Suc n) L),
     rm_retire = \<lambda>r a. r, rm_deallocate = \<lambda>(n, L) a. (n, L - {a})\<rparr>"

definition bump_live :: "addr \<times> addr set \<Rightarrow> addr set" where
  "bump_live r = snd r \<inter> {0 <.. fst r}"

lemma bump_ok: "recmgr_ok bump_ops bump_live"
  by (auto simp: recmgr_ok_def bump_ops_def bump_live_def NULL_def)

end
