(* ===== verification/CA_Tree.thy ===== *)
theory CA_Tree
  imports CA_Nodes IOSet Rec_Mgr
begin

text \<open>
  The contention-adapting tree of \<open>winblad_catree/ca_tree.h\<close> (class \<open>CATree\<close>), operation by
  operation, for one thread \<open>tid\<close> in a memory in which other threads may hold locks. The sets in
  the base nodes are used through the methods \<open>ops\<close> of \<open>IOrderedSet\<close>. The record manager is not
  part of the sources: its allocation, retirement and deallocation are the methods \<open>rm\<close>, and
  \<open>recmgr_ok\<close> says what the tree relies on. The guards it hands out and the padding have no
  effect here.
\<close>

section \<open>State\<close>

datatype ca_node = BaseN base_node | RouteN route_node

record ('w, 'r) ca =
  ca_nodes :: "addr \<Rightarrow> ca_node option"
  ca_root :: addr
  ca_world :: 'w
  ca_rm :: 'r
  ca_minKey :: key
  ca_maxKey :: key

section \<open>Access to nodes\<close>

definition ca_deref :: "('w, 'r) ca \<Rightarrow> addr \<Rightarrow> ca_node option" where
  "ca_deref s p = (if p = NULL then None else ca_nodes s p)"

definition isBaseNode :: "('w, 'r) ca \<Rightarrow> addr \<Rightarrow> bool option" where
  "isBaseNode s p = do {
     n \<leftarrow> ca_deref s p;
     Some (case n of BaseN b \<Rightarrow> True | RouteN r \<Rightarrow> False)
   }"

text \<open>Using a pointer as one to the other class has no result.\<close>

definition ca_base :: "('w, 'r) ca \<Rightarrow> addr \<Rightarrow> base_node option" where
  "ca_base s p = do {
     n \<leftarrow> ca_deref s p;
     case n of BaseN b \<Rightarrow> Some b | RouteN r \<Rightarrow> None
   }"

definition ca_route :: "('w, 'r) ca \<Rightarrow> addr \<Rightarrow> route_node option" where
  "ca_route s p = do {
     n \<leftarrow> ca_deref s p;
     case n of BaseN b \<Rightarrow> None | RouteN r \<Rightarrow> Some r
   }"

definition put :: "('w, 'r) ca \<Rightarrow> addr \<Rightarrow> ca_node \<Rightarrow> ('w, 'r) ca" where
  "put s p n = s\<lparr>ca_nodes := (ca_nodes s)(p \<mapsto> n)\<rparr>"

definition on_base :: "('w, 'r) ca \<Rightarrow> addr \<Rightarrow> (base_node \<Rightarrow> base_node option) \<Rightarrow> ('w, 'r) ca option" where
  "on_base s p f = do {
     b \<leftarrow> ca_base s p;
     b \<leftarrow> f b;
     Some (put s p (BaseN b))
   }"

definition on_route :: "('w, 'r) ca \<Rightarrow> addr \<Rightarrow> (route_node \<Rightarrow> route_node option) \<Rightarrow> ('w, 'r) ca option" where
  "on_route s p f = do {
     r \<leftarrow> ca_route s p;
     r \<leftarrow> f r;
     Some (put s p (RouteN r))
   }"

definition getLeft :: "('w, 'r) ca \<Rightarrow> addr \<Rightarrow> addr option" where
  "getLeft s p = do { r \<leftarrow> ca_route s p; Some (r_left r) }"

definition getRight :: "('w, 'r) ca \<Rightarrow> addr \<Rightarrow> addr option" where
  "getRight s p = do { r \<leftarrow> ca_route s p; Some (r_right r) }"

definition getKey :: "('w, 'r) ca \<Rightarrow> addr \<Rightarrow> key option" where
  "getKey s p = do { r \<leftarrow> ca_route s p; Some (r_key r) }"

definition setLeft :: "('w, 'r) ca \<Rightarrow> addr \<Rightarrow> addr \<Rightarrow> ('w, 'r) ca option" where
  "setLeft s p c = on_route s p (\<lambda>r. Some (r\<lparr>r_left := c\<rparr>))"

definition setRight :: "('w, 'r) ca \<Rightarrow> addr \<Rightarrow> addr \<Rightarrow> ('w, 'r) ca option" where
  "setRight s p c = on_route s p (\<lambda>r. Some (r\<lparr>r_right := c\<rparr>))"

definition setKey :: "('w, 'r) ca \<Rightarrow> addr \<Rightarrow> key \<Rightarrow> ('w, 'r) ca option" where
  "setKey s p k = on_route s p (\<lambda>r. Some (r\<lparr>r_key := k\<rparr>))"

definition getParent :: "('w, 'r) ca \<Rightarrow> addr \<Rightarrow> addr option" where
  "getParent s p = do { b \<leftarrow> ca_base s p; Some (b_parent b) }"

definition setParent :: "('w, 'r) ca \<Rightarrow> addr \<Rightarrow> addr \<Rightarrow> ('w, 'r) ca option" where
  "setParent s p q = on_base s p (\<lambda>b. Some (b\<lparr>b_parent := q\<rparr>))"

definition getOrderedSet :: "('w, 'r) ca \<Rightarrow> addr \<Rightarrow> addr option" where
  "getOrderedSet s p = do { b \<leftarrow> ca_base s p; Some (b_set b) }"

definition setOrderedSet :: "('w, 'r) ca \<Rightarrow> addr \<Rightarrow> addr \<Rightarrow> ('w, 'r) ca option" where
  "setOrderedSet s p x = on_base s p (\<lambda>b. Some (b\<lparr>b_set := x\<rparr>))"

definition resetStatistics :: "('w, 'r) ca \<Rightarrow> addr \<Rightarrow> ('w, 'r) ca option" where
  "resetStatistics s p = on_base s p (\<lambda>b. Some (base_resetStatistics b))"

definition allocate_base :: "'r recmgr_ops \<Rightarrow> ('w, 'r) ca \<Rightarrow> addr \<times> ('w, 'r) ca" where
  "allocate_base rm s = (let (a, r) = rm_allocate rm (ca_rm s) in
     (a, put (s\<lparr>ca_rm := r\<rparr>) a (BaseN new_BaseNode)))"

definition allocate_route :: "'r recmgr_ops \<Rightarrow> ('w, 'r) ca \<Rightarrow> addr \<times> ('w, 'r) ca" where
  "allocate_route rm s = (let (a, r) = rm_allocate rm (ca_rm s) in
     (a, put (s\<lparr>ca_rm := r\<rparr>) a (RouteN new_RouteNode)))"

definition retire :: "'r recmgr_ops \<Rightarrow> ('w, 'r) ca \<Rightarrow> addr \<Rightarrow> ('w, 'r) ca" where
  "retire rm s a = s\<lparr>ca_rm := rm_retire rm (ca_rm s) a\<rparr>"

section \<open>Construction and destruction\<close>

datatype OrderedSetType = AVL | LINKEDLIST | REDBLACK

text \<open>\<open>ops\<close> are the methods of the AVL tree, the only class the constructor can make.\<close>

definition CATree :: "'w ioset_ops \<Rightarrow> 'r recmgr_ops \<Rightarrow> 'w \<Rightarrow> 'r \<Rightarrow> key \<Rightarrow> key \<Rightarrow> OrderedSetType
    \<Rightarrow> ('w, 'r) ca option" where
  "CATree ops rm w r mink maxk type = do {
     let s = \<lparr>ca_nodes = (\<lambda>_. None), ca_root = NULL, ca_world = w, ca_rm = r,
               ca_minKey = mink, ca_maxKey = maxk\<rparr>;
     let (baseRoot, s) = allocate_base rm s;
     (x, w) \<leftarrow> (case type of AVL \<Rightarrow> Some (io_new ops (ca_world s)) | _ \<Rightarrow> None);
     let s = s\<lparr>ca_world := w\<rparr>;
     s \<leftarrow> setOrderedSet s baseRoot x;
     Some (s\<lparr>ca_root := baseRoot\<rparr>)
   }"

text \<open>
  Deallocating a node runs its destructor. That of a base node deletes its set, as an AVL tree:
  \<open>del\<close> is the destructor of the set, which ends the object. A null pointer may be deleted.
\<close>

definition destroy_BaseNode :: "('w \<Rightarrow> addr \<Rightarrow> 'w option) \<Rightarrow> 'w \<Rightarrow> base_node \<Rightarrow> 'w option" where
  "destroy_BaseNode del w b = (if b_set b = NULL then Some w else del w (b_set b))"

definition ca_deallocate :: "('w \<Rightarrow> addr \<Rightarrow> 'w option) \<Rightarrow> 'r recmgr_ops \<Rightarrow> ('w, 'r) ca \<Rightarrow> addr
    \<Rightarrow> ('w, 'r) ca option" where
  "ca_deallocate del rm s p = do {
     n \<leftarrow> ca_deref s p;
     w \<leftarrow> (case n of BaseN b \<Rightarrow> destroy_BaseNode del (ca_world s) b | RouteN r \<Rightarrow> Some (ca_world s));
     Some (s\<lparr>ca_nodes := (ca_nodes s)(p := None), ca_world := w, ca_rm := rm_deallocate rm (ca_rm s) p\<rparr>)
   }"

partial_function (option) freeSubtree :: "('w \<Rightarrow> addr \<Rightarrow> 'w option) \<Rightarrow> 'r recmgr_ops \<Rightarrow> ('w, 'r) ca \<Rightarrow> addr
    \<Rightarrow> ('w, 'r) ca option" where
  "freeSubtree del rm s node =
     (if node = NULL then Some s
      else do {
        b \<leftarrow> isBaseNode s node;
        if \<not> b then do {
          l \<leftarrow> getLeft s node;
          s \<leftarrow> freeSubtree del rm s l;
          r \<leftarrow> getRight s node;
          s \<leftarrow> freeSubtree del rm s r;
          ca_deallocate del rm s node
        }
        else ca_deallocate del rm s node
      })"

definition destroy_CATree :: "('w \<Rightarrow> addr \<Rightarrow> 'w option) \<Rightarrow> 'r recmgr_ops \<Rightarrow> ('w, 'r) ca
    \<Rightarrow> ('w, 'r) ca option" where
  "destroy_CATree del rm s = freeSubtree del rm s (ca_root s)"

section \<open>Searching\<close>

partial_function (option) getBaseNode_loop :: "('w, 'r) ca \<Rightarrow> key \<Rightarrow> addr \<Rightarrow> addr option" where
  "getBaseNode_loop s key currNode = do {
     b \<leftarrow> isBaseNode s currNode;
     if \<not> b then do {
       k \<leftarrow> getKey s currNode;
       if key < k then do { l \<leftarrow> getLeft s currNode; getBaseNode_loop s key l }
       else do { r \<leftarrow> getRight s currNode; getBaseNode_loop s key r }
     }
     else Some currNode
   }"

definition getBaseNode :: "('w, 'r) ca \<Rightarrow> key \<Rightarrow> addr option" where
  "getBaseNode s key = getBaseNode_loop s key (ca_root s)"

partial_function (option) leftmostBaseNode :: "('w, 'r) ca \<Rightarrow> addr \<Rightarrow> addr option" where
  "leftmostBaseNode s currNode = do {
     b \<leftarrow> isBaseNode s currNode;
     if \<not> b then do { l \<leftarrow> getLeft s currNode; leftmostBaseNode s l }
     else Some currNode
   }"

partial_function (option) rightmostBaseNode :: "('w, 'r) ca \<Rightarrow> addr \<Rightarrow> addr option" where
  "rightmostBaseNode s currNode = do {
     b \<leftarrow> isBaseNode s currNode;
     if \<not> b then do { r \<leftarrow> getRight s currNode; rightmostBaseNode s r }
     else Some currNode
   }"

partial_function (option) parentOf_loop :: "('w, 'r) ca \<Rightarrow> addr \<Rightarrow> key \<Rightarrow> addr \<Rightarrow> addr \<Rightarrow> addr option" where
  "parentOf_loop s node targetKey prevNode currNode =
     (if currNode = node then Some prevNode
      else do {
        k \<leftarrow> getKey s currNode;
        if targetKey < k then do { l \<leftarrow> getLeft s currNode; parentOf_loop s node targetKey currNode l }
        else do { r \<leftarrow> getRight s currNode; parentOf_loop s node targetKey currNode r }
      })"

definition parentOf :: "('w, 'r) ca \<Rightarrow> addr \<Rightarrow> addr option" where
  "parentOf s node = do {
     b \<leftarrow> isBaseNode s (ca_root s);
     _ \<leftarrow> assert_that (\<not> b);
     targetKey \<leftarrow> getKey s node;
     parentOf_loop s node targetKey NULL (ca_root s)
   }"

section \<open>Adapting\<close>

text \<open>
  Replacing a child of a route node, or the root when there is none: the three-way branch that
  \<open>lowContentionJoin\<close> has four times and \<open>highContentionSplit\<close> once.
\<close>

definition replace_child :: "('w, 'r) ca \<Rightarrow> addr \<Rightarrow> addr \<Rightarrow> addr \<Rightarrow> ('w, 'r) ca option" where
  "replace_child s p old new =
     (if p = NULL then Some (s\<lparr>ca_root := new\<rparr>)
      else do {
        l \<leftarrow> getLeft s p;
        if l = old then setLeft s p new else setRight s p new
      })"

definition highContentionSplit :: "'w ioset_ops \<Rightarrow> 'r recmgr_ops \<Rightarrow> ('w, 'r) ca \<Rightarrow> int \<Rightarrow> addr
    \<Rightarrow> ('w, 'r) ca option" where
  "highContentionSplit ops rm s tid baseNode = do {
     parent \<leftarrow> getParent s baseNode;
     baseSet \<leftarrow> getOrderedSet s baseNode;
     (splitKey, halves, w) \<leftarrow> io_split ops (ca_world s) baseSet;
     let s = s\<lparr>ca_world := w\<rparr>;
     case halves of
       None \<Rightarrow> resetStatistics s baseNode
     | Some (leftSet, rightSet) \<Rightarrow> do {
         let (newLeftBase, s) = allocate_base rm s;
         let (newRightBase, s) = allocate_base rm s;
         s \<leftarrow> setOrderedSet s newLeftBase leftSet;
         s \<leftarrow> setOrderedSet s newRightBase rightSet;
         let (newRoute, s) = allocate_route rm s;
         s \<leftarrow> setKey s newRoute splitKey;
         s \<leftarrow> setLeft s newRoute newLeftBase;
         s \<leftarrow> setRight s newRoute newRightBase;
         s \<leftarrow> setParent s newLeftBase newRoute;
         s \<leftarrow> setParent s newRightBase newRoute;
         s \<leftarrow> replace_child s parent baseNode newRoute;
         s \<leftarrow> on_base s baseNode (base_invalidate tid);
         Some (retire rm s baseNode)
       }
   }"

text \<open>
  The \<open>do ... while\<close> loop that locks the grandparent, with its result \<open>gparent\<close>.
\<close>

partial_function (option) lock_gparent :: "('w, 'r) ca \<Rightarrow> int \<Rightarrow> addr \<Rightarrow> addr \<Rightarrow> (addr \<times> ('w, 'r) ca) option" where
  "lock_gparent s tid parent gparent = do {
     s \<leftarrow> (if gparent \<noteq> NULL then on_route s gparent (route_unlock tid) else Some s);
     gparent \<leftarrow> parentOf s parent;
     s \<leftarrow> (if gparent \<noteq> NULL then on_route s gparent (route_lock tid) else Some s);
     v \<leftarrow> (if gparent \<noteq> NULL then do { g \<leftarrow> ca_route s gparent; route_isValid tid g } else Some True);
     if \<not> v then lock_gparent s tid parent gparent else Some (gparent, s)
   }"

text \<open>
  The two symmetric halves of \<open>lowContentionJoin\<close> differ in the child of \<open>parent\<close> that is promoted
  (\<open>side\<close>: its right child when the base node is its left child) and in the order of the join.
\<close>

definition join_base :: "'w ioset_ops \<Rightarrow> 'r recmgr_ops \<Rightarrow> ('w, 'r) ca \<Rightarrow> int \<Rightarrow> addr \<Rightarrow> addr \<Rightarrow> addr
    \<Rightarrow> addr \<Rightarrow> addr \<Rightarrow> (('w, 'r) ca \<Rightarrow> addr \<Rightarrow> addr option) \<Rightarrow> ('w, 'r) ca option" where
  "join_base ops rm s tid parent baseNode neighborBase leftSet rightSet side = do {
     (joinedSet, w) \<leftarrow> io_join ops (ca_world s) leftSet rightSet;
     let s = s\<lparr>ca_world := w\<rparr>;
     let (newBase, s) = allocate_base rm s;
     s \<leftarrow> setOrderedSet s newBase joinedSet;
     s \<leftarrow> on_route s parent (route_lock tid);
     (gparent, s) \<leftarrow> lock_gparent s tid parent NULL;
     promoted \<leftarrow> side s parent;
     s \<leftarrow> replace_child s gparent parent promoted;
     s \<leftarrow> on_route s parent (route_invalidate tid);
     s \<leftarrow> on_route s parent (route_unlock tid);
     s \<leftarrow> (if gparent \<noteq> NULL then on_route s gparent (route_unlock tid) else Some s);
     promoted \<leftarrow> side s parent;
     neighborBaseParent \<leftarrow> (if promoted = neighborBase then Some gparent else getParent s neighborBase);
     s \<leftarrow> setParent s newBase neighborBaseParent;
     s \<leftarrow> replace_child s neighborBaseParent neighborBase newBase;
     s \<leftarrow> on_base s neighborBase (base_invalidate tid);
     s \<leftarrow> on_base s neighborBase (base_unlock tid);
     s \<leftarrow> on_base s baseNode (base_invalidate tid);
     Some (retire rm (retire rm (retire rm s baseNode) neighborBase) parent)
   }"

definition lowContentionJoin_left :: "'w ioset_ops \<Rightarrow> 'r recmgr_ops \<Rightarrow> ('w, 'r) ca \<Rightarrow> int \<Rightarrow> addr \<Rightarrow> addr
    \<Rightarrow> ('w, 'r) ca option" where
  "lowContentionJoin_left ops rm s tid parent baseNode = do {
     pr \<leftarrow> getRight s parent;
     neighborBase \<leftarrow> leftmostBaseNode s pr;
     nb \<leftarrow> ca_base s neighborBase;
     (got, nb) \<leftarrow> base_tryLock tid nb;
     let s = put s neighborBase (BaseN nb);
     if \<not> got then resetStatistics s baseNode
     else do {
       v \<leftarrow> base_isValid tid nb;
       if \<not> v then do {
         s \<leftarrow> on_base s neighborBase (base_unlock tid);
         resetStatistics s baseNode
       }
       else do {
         baseSet \<leftarrow> getOrderedSet s baseNode;
         neighborSet \<leftarrow> getOrderedSet s neighborBase;
         join_base ops rm s tid parent baseNode neighborBase baseSet neighborSet getRight
       }
     }
   }"

definition lowContentionJoin_right :: "'w ioset_ops \<Rightarrow> 'r recmgr_ops \<Rightarrow> ('w, 'r) ca \<Rightarrow> int \<Rightarrow> addr \<Rightarrow> addr
    \<Rightarrow> ('w, 'r) ca option" where
  "lowContentionJoin_right ops rm s tid parent baseNode = do {
     pl \<leftarrow> getLeft s parent;
     neighborBase \<leftarrow> rightmostBaseNode s pl;
     nb \<leftarrow> ca_base s neighborBase;
     (got, nb) \<leftarrow> base_tryLock tid nb;
     let s = put s neighborBase (BaseN nb);
     if \<not> got then resetStatistics s baseNode
     else do {
       v \<leftarrow> base_isValid tid nb;
       if \<not> v then do {
         s \<leftarrow> on_base s neighborBase (base_unlock tid);
         resetStatistics s baseNode
       }
       else do {
         baseSet \<leftarrow> getOrderedSet s baseNode;
         neighborSet \<leftarrow> getOrderedSet s neighborBase;
         join_base ops rm s tid parent baseNode neighborBase neighborSet baseSet getLeft
       }
     }
   }"

definition lowContentionJoin :: "'w ioset_ops \<Rightarrow> 'r recmgr_ops \<Rightarrow> ('w, 'r) ca \<Rightarrow> int \<Rightarrow> addr
    \<Rightarrow> ('w, 'r) ca option" where
  "lowContentionJoin ops rm s tid baseNode = do {
     parent \<leftarrow> getParent s baseNode;
     if parent = NULL then resetStatistics s baseNode
     else do {
       l \<leftarrow> getLeft s parent;
       if l = baseNode then lowContentionJoin_left ops rm s tid parent baseNode
       else lowContentionJoin_right ops rm s tid parent baseNode
     }
   }"

definition adaptIfNeeded :: "'w ioset_ops \<Rightarrow> 'r recmgr_ops \<Rightarrow> ('w, 'r) ca \<Rightarrow> int \<Rightarrow> addr
    \<Rightarrow> ('w, 'r) ca option" where
  "adaptIfNeeded ops rm s tid baseNode = do {
     b \<leftarrow> ca_base s baseNode;
     if isHighContentionLimitReached b then highContentionSplit ops rm s tid baseNode
     else if isLowContentionLimitReached b then lowContentionJoin ops rm s tid baseNode
     else Some s
   }"

section \<open>The dictionary operations\<close>

text \<open>
  \<open>find\<close>, \<open>insert\<close> and \<open>erase\<close> are the same loop around one method of the set. The loop starts
  over when the base node it has locked is no longer part of the tree. \<open>waited\<close> is the choice of
  the schedule: whether the thread finds the mutex of the base node taken in the first round
  and goes on when the other thread has released it.
\<close>

partial_function (option) ca_loop :: "'w ioset_ops \<Rightarrow> 'r recmgr_ops \<Rightarrow> ('w, 'r) ca \<Rightarrow> int \<Rightarrow> bool \<Rightarrow> key
    \<Rightarrow> ('w \<Rightarrow> addr \<Rightarrow> (val \<times> 'w) option) \<Rightarrow> (val \<times> ('w, 'r) ca) option" where
  "ca_loop ops rm s tid waited key method = do {
     baseNode \<leftarrow> getBaseNode s key;
     s \<leftarrow> on_base s baseNode (if waited then base_lock_waited tid else base_lock tid);
     b \<leftarrow> ca_base s baseNode;
     v \<leftarrow> base_isValid tid b;
     if \<not> v then do {
       s \<leftarrow> on_base s baseNode (base_unlock tid);
       ca_loop ops rm s tid False key method
     }
     else do {
       x \<leftarrow> getOrderedSet s baseNode;
       (result, w) \<leftarrow> method (ca_world s) x;
       let s = s\<lparr>ca_world := w\<rparr>;
       s \<leftarrow> adaptIfNeeded ops rm s tid baseNode;
       s \<leftarrow> on_base s baseNode (base_unlock tid);
       Some (result, s)
     }
   }"

definition ca_find :: "'w ioset_ops \<Rightarrow> 'r recmgr_ops \<Rightarrow> ('w, 'r) ca \<Rightarrow> int \<Rightarrow> bool \<Rightarrow> key
    \<Rightarrow> (val \<times> ('w, 'r) ca) option" where
  "ca_find ops rm s tid waited key =
     ca_loop ops rm s tid waited key (\<lambda>w x. do { v \<leftarrow> io_find ops w x key; Some (v, w) })"

definition ca_insert :: "'w ioset_ops \<Rightarrow> 'r recmgr_ops \<Rightarrow> ('w, 'r) ca \<Rightarrow> int \<Rightarrow> bool \<Rightarrow> key \<Rightarrow> val
    \<Rightarrow> (val \<times> ('w, 'r) ca) option" where
  "ca_insert ops rm s tid waited key v = do {
     _ \<leftarrow> assert_that (key \<ge> ca_minKey s \<and> key \<le> ca_maxKey s);
     ca_loop ops rm s tid waited key (\<lambda>w x. io_insert ops w x key v)
   }"

definition ca_erase :: "'w ioset_ops \<Rightarrow> 'r recmgr_ops \<Rightarrow> ('w, 'r) ca \<Rightarrow> int \<Rightarrow> bool \<Rightarrow> key
    \<Rightarrow> (val \<times> ('w, 'r) ca) option" where
  "ca_erase ops rm s tid waited key = do {
     _ \<leftarrow> assert_that (key \<ge> ca_minKey s \<and> key \<le> ca_maxKey s);
     ca_loop ops rm s tid waited key (\<lambda>w x. io_erase ops w x key)
   }"

declare freeSubtree.simps [code] getBaseNode_loop.simps [code] leftmostBaseNode.simps [code]
  rightmostBaseNode.simps [code] parentOf_loop.simps [code] lock_gparent.simps [code]
  ca_loop.simps [code]

end
