(* ===== verification/RB_Tree.thy ===== *)
theory RB_Tree
  imports AVL_Tree
begin

text \<open>
  The sequential red-black tree of \<open>src/cpp/ds/winblad_catree/redblack_tree.h\<close> (class
  \<open>RedBlackTree\<close>), operation by operation. It lives in the same store as the AVL tree, with the
  colour as the tag of a node; a tree object has the fields \<open>root\<close> and \<open>blackHeight\<close>. The steps
  the two classes share statement by statement (redirecting the link to a node, setting the
  parent of a child that exists, walking down a spine, counting and adding up the keys) are
  those of the theory on the AVL tree. The code between \<open>#if 0\<close> and \<open>#else\<close> is not compiled and
  not modelled.
\<close>

section \<open>Fields\<close>

datatype color = RED | BLACK

record rb_mem = "color mem" +
  blackHeights :: "addr \<Rightarrow> int"

type_synonym rb_ptree = "color ptree"

definition rb_Node :: "key \<Rightarrow> val \<Rightarrow> addr \<Rightarrow> addr \<Rightarrow> addr \<Rightarrow> color \<Rightarrow> color pnode" where
  "rb_Node k v p l r c = \<lparr>nkey = k, nval = v, nleft = l, nright = r, nparent = p, ntag = c\<rparr>"

definition isBlack :: "color pnode \<Rightarrow> bool" where
  "isBlack n = (ntag n = BLACK)"

definition get_blackHeight :: "rb_mem \<Rightarrow> addr \<Rightarrow> int option" where
  [heap_defs]: "get_blackHeight s this = map_option (\<lambda>_. blackHeights s this) (roots s this)"

definition set_blackHeight :: "rb_mem \<Rightarrow> addr \<Rightarrow> int \<Rightarrow> rb_mem option" where
  [heap_defs]: "set_blackHeight s this n =
     map_option (\<lambda>_. s\<lparr>blackHeights := (blackHeights s)(this := n)\<rparr>) (roots s this)"

definition RedBlackTree :: "rb_mem \<Rightarrow> addr \<times> rb_mem" where
  "RedBlackTree s = (let (this, s) = new_tree s in
     (this, s\<lparr>blackHeights := (blackHeights s)(this := 0)\<rparr>))"

text \<open>The destructor has an empty body: the nodes stay allocated.\<close>

definition destroy_RedBlackTree :: "rb_mem \<Rightarrow> addr \<Rightarrow> rb_mem option" where
  "destroy_RedBlackTree s this = map_option (\<lambda>_. s\<lparr>roots := (roots s)(this := None)\<rparr>) (roots s this)"

section \<open>Lookup\<close>

partial_function (option) rb_find_loop :: "rb_mem \<Rightarrow> key \<Rightarrow> addr \<Rightarrow> val option" where
  "rb_find_loop s key currNode =
     (if currNode = NULL then Some NO_VALUE
      else do {
        nodeKey \<leftarrow> get_key s currNode;
        if key < nodeKey then do {
          l \<leftarrow> get_left s currNode;
          rb_find_loop s key l
        }
        else if key > nodeKey then do {
          r \<leftarrow> get_right s currNode;
          rb_find_loop s key r
        }
        else get_val s currNode
      })"

definition rb_find :: "rb_mem \<Rightarrow> addr \<Rightarrow> key \<Rightarrow> val option" where
  "rb_find s this key = do {
     root \<leftarrow> get_root s this;
     rb_find_loop s key root
   }"

section \<open>Rotations and colours\<close>

definition leftRotate :: "rb_mem \<Rightarrow> addr \<Rightarrow> addr \<Rightarrow> rb_mem option" where
  "leftRotate s this x = do {
     _ \<leftarrow> assert_that (x \<noteq> NULL);
     y \<leftarrow> get_right s x;
     _ \<leftarrow> assert_that (y \<noteq> NULL);
     yl \<leftarrow> get_left s y;
     s \<leftarrow> set_right s x yl;
     s \<leftarrow> adopt s yl x;
     p \<leftarrow> get_parent s x;
     s \<leftarrow> set_parent s y p;
     s \<leftarrow> relink s this p x y;
     s \<leftarrow> set_left s y x;
     set_parent s x y
   }"

definition rightRotate :: "rb_mem \<Rightarrow> addr \<Rightarrow> addr \<Rightarrow> rb_mem option" where
  "rightRotate s this x = do {
     _ \<leftarrow> assert_that (x \<noteq> NULL);
     y \<leftarrow> get_left s x;
     _ \<leftarrow> assert_that (y \<noteq> NULL);
     yr \<leftarrow> get_right s y;
     s \<leftarrow> set_left s x yr;
     s \<leftarrow> adopt s yr x;
     p \<leftarrow> get_parent s x;
     s \<leftarrow> set_parent s y p;
     s \<leftarrow> relink s this p x y;
     s \<leftarrow> set_right s y x;
     set_parent s x y
   }"

definition getColor :: "rb_mem \<Rightarrow> addr \<Rightarrow> color option" where
  "getColor s node = (if node = NULL then Some BLACK else get_tag s node)"

definition setColor :: "rb_mem \<Rightarrow> addr \<Rightarrow> color \<Rightarrow> rb_mem option" where
  "setColor s node newColor = (if node \<noteq> NULL then set_tag s node newColor else Some s)"

section \<open>Insertion\<close>

text \<open>
  The body of the loop of \<open>insertFixup\<close> for a parent \<open>p\<close> that is the left child of the
  grandparent \<open>g\<close>, and the symmetric one; the new \<open>z\<close> and the new memory.
\<close>

definition insertFixup_left :: "rb_mem \<Rightarrow> addr \<Rightarrow> addr \<Rightarrow> addr \<Rightarrow> addr \<Rightarrow> (addr \<times> rb_mem) option" where
  "insertFixup_left s this z p g = do {
     y \<leftarrow> get_right s g;
     yc \<leftarrow> getColor s y;
     if yc = RED then do {
       s \<leftarrow> setColor s p BLACK;
       s \<leftarrow> setColor s y BLACK;
       s \<leftarrow> setColor s g RED;
       Some (g, s)
     }
     else do {
       pr \<leftarrow> get_right s p;
       (z, s) \<leftarrow> (if z = pr then do {
           s \<leftarrow> leftRotate s this p;
           Some (p, s)
         } else Some (z, s));
       p \<leftarrow> get_parent s z;
       s \<leftarrow> setColor s p BLACK;
       g \<leftarrow> get_parent s p;
       s \<leftarrow> setColor s g RED;
       s \<leftarrow> rightRotate s this g;
       Some (z, s)
     }
   }"

definition insertFixup_right :: "rb_mem \<Rightarrow> addr \<Rightarrow> addr \<Rightarrow> addr \<Rightarrow> addr \<Rightarrow> (addr \<times> rb_mem) option" where
  "insertFixup_right s this z p g = do {
     y \<leftarrow> get_left s g;
     yc \<leftarrow> getColor s y;
     if yc = RED then do {
       s \<leftarrow> setColor s p BLACK;
       s \<leftarrow> setColor s y BLACK;
       s \<leftarrow> setColor s g RED;
       Some (g, s)
     }
     else do {
       pl \<leftarrow> get_left s p;
       (z, s) \<leftarrow> (if z = pl then do {
           s \<leftarrow> rightRotate s this p;
           Some (p, s)
         } else Some (z, s));
       p \<leftarrow> get_parent s z;
       s \<leftarrow> setColor s p BLACK;
       g \<leftarrow> get_parent s p;
       s \<leftarrow> setColor s g RED;
       s \<leftarrow> leftRotate s this g;
       Some (z, s)
     }
   }"

partial_function (option) insertFixup_loop :: "rb_mem \<Rightarrow> addr \<Rightarrow> addr \<Rightarrow> rb_mem option" where
  "insertFixup_loop s this z = do {
     root \<leftarrow> get_root s this;
     if z = root then Some s
     else do {
       p \<leftarrow> get_parent s z;
       c \<leftarrow> getColor s p;
       if c = RED then do {
         g \<leftarrow> get_parent s p;
         gl \<leftarrow> get_left s g;
         (z, s) \<leftarrow> (if p = gl then insertFixup_left s this z p g
                   else insertFixup_right s this z p g);
         insertFixup_loop s this z
       }
       else Some s
     }
   }"

text \<open>The root becomes black; if it was red, every path has one more black node.\<close>

definition blacken_root :: "rb_mem \<Rightarrow> addr \<Rightarrow> rb_mem option" where
  "blacken_root s this = do {
     root \<leftarrow> get_root s this;
     c \<leftarrow> getColor s root;
     if c = RED then do {
       s \<leftarrow> setColor s root BLACK;
       n \<leftarrow> get_blackHeight s this;
       set_blackHeight s this (n + 1)
     }
     else Some s
   }"

definition insertFixup :: "rb_mem \<Rightarrow> addr \<Rightarrow> addr \<Rightarrow> rb_mem option" where
  "insertFixup s this z = do {
     s \<leftarrow> insertFixup_loop s this z;
     blacken_root s this
   }"

partial_function (option) rb_insert_search :: "rb_mem \<Rightarrow> key \<Rightarrow> addr \<Rightarrow> addr \<Rightarrow> (addr \<times> addr) option" where
  "rb_insert_search s key prevNode currNode =
     (if currNode = NULL then Some (prevNode, currNode)
      else do {
        nodeKey \<leftarrow> get_key s currNode;
        if key < nodeKey then do {
          l \<leftarrow> get_left s currNode;
          rb_insert_search s key currNode l
        }
        else if key > nodeKey then do {
          r \<leftarrow> get_right s currNode;
          rb_insert_search s key currNode r
        }
        else Some (prevNode, currNode)
      })"

definition rb_insert :: "rb_mem \<Rightarrow> addr \<Rightarrow> key \<Rightarrow> val \<Rightarrow> (val \<times> rb_mem) option" where
  "rb_insert s this key val = do {
     root \<leftarrow> get_root s this;
     (prevNode, currNode) \<leftarrow> rb_insert_search s key NULL root;
     if currNode \<noteq> NULL then do {
       v \<leftarrow> get_val s currNode;
       Some (v, s)
     }
     else do {
       let (newNode, s) = new_node s (rb_Node key val prevNode NULL NULL RED);
       s \<leftarrow> (if prevNode = NULL then set_root s this newNode
            else do {
              prevKey \<leftarrow> get_key s prevNode;
              if key < prevKey then set_left s prevNode newNode
              else set_right s prevNode newNode
            });
       s \<leftarrow> insertFixup s this newNode;
       Some (NO_VALUE, s)
     }
   }"

section \<open>Removal\<close>

text \<open>
  \<open>transplant\<close> exchanges the positions and the colours of the nodes \<open>u\<close> and \<open>v\<close>: first \<open>u\<close> takes
  the place of \<open>v\<close>, then \<open>v\<close> takes the place \<open>u\<close> had. The two may be neighbours.
\<close>

definition transplant_u :: "rb_mem \<Rightarrow> addr \<Rightarrow> addr \<Rightarrow> addr \<Rightarrow> rb_mem option" where
  "transplant_u s this u v = do {
     vColor \<leftarrow> get_tag s v;
     s \<leftarrow> set_tag s u vColor;
     vp \<leftarrow> get_parent s v;
     s \<leftarrow> (if u \<noteq> vp then do {
         s \<leftarrow> relink s this vp v u;
         set_parent s u vp
       } else set_parent s u v);
     vr \<leftarrow> get_right s v;
     s \<leftarrow> (if u \<noteq> vr then do {
         s \<leftarrow> adopt s vr u;
         set_right s u vr
       } else set_right s u v);
     vl \<leftarrow> get_left s v;
     if u \<noteq> vl then do {
       s \<leftarrow> adopt s vl u;
       set_left s u vl
     } else set_left s u v
   }"

definition transplant :: "rb_mem \<Rightarrow> addr \<Rightarrow> addr \<Rightarrow> addr \<Rightarrow> rb_mem option" where
  "transplant s this u v = do {
     uColor \<leftarrow> get_tag s u;
     uParent \<leftarrow> get_parent s u;
     uRight \<leftarrow> get_right s u;
     uLeft \<leftarrow> get_left s u;
     s \<leftarrow> transplant_u s this u v;
     s \<leftarrow> set_tag s v uColor;
     s \<leftarrow> (if v \<noteq> uParent then do {
         s \<leftarrow> relink s this uParent u v;
         set_parent s v uParent
       } else set_parent s v u);
     s \<leftarrow> (if v \<noteq> uRight then do {
         s \<leftarrow> adopt s uRight v;
         set_right s v uRight
       } else set_right s v u);
     if v \<noteq> uLeft then do {
       s \<leftarrow> adopt s uLeft v;
       set_left s v uLeft
     } else set_left s v u
   }"

definition tree_minimum :: "rb_mem \<Rightarrow> addr \<Rightarrow> addr option" where
  "tree_minimum s node = leftmost s node"

definition tree_maximum :: "rb_mem \<Rightarrow> addr \<Rightarrow> addr option" where
  "tree_maximum s node = rightmost s node"

text \<open>
  The body of the loop of \<open>eraseFixup\<close> for a node that is the left child of \<open>currParent\<close>, and
  the symmetric one; the new \<open>curr\<close>, the new \<open>currParent\<close> and the new memory. The node itself
  may be null, so the loop carries its parent along.
\<close>

definition red_up :: "rb_mem \<Rightarrow> addr \<Rightarrow> addr \<Rightarrow> addr \<Rightarrow> (addr \<times> addr \<times> rb_mem) option" where
  "red_up s this currParent sibling = do {
     s \<leftarrow> setColor s sibling RED;
     pp \<leftarrow> get_parent s currParent;
     root \<leftarrow> get_root s this;
     s \<leftarrow> (if currParent = root then do {
         n \<leftarrow> get_blackHeight s this;
         set_blackHeight s this (n - 1)
       } else Some s);
     Some (currParent, pp, s)
   }"

definition eraseFixup_left :: "rb_mem \<Rightarrow> addr \<Rightarrow> addr \<Rightarrow> (addr \<times> addr \<times> rb_mem) option" where
  "eraseFixup_left s this currParent = do {
     sibling \<leftarrow> get_right s currParent;
     c \<leftarrow> getColor s sibling;
     (sibling, s) \<leftarrow> (if c = RED then do {
         s \<leftarrow> setColor s sibling BLACK;
         s \<leftarrow> setColor s currParent RED;
         s \<leftarrow> leftRotate s this currParent;
         sibling \<leftarrow> get_right s currParent;
         Some (sibling, s)
       } else Some (sibling, s));
     _ \<leftarrow> assert_that (sibling \<noteq> NULL);
     sl \<leftarrow> get_left s sibling;
     cl \<leftarrow> getColor s sl;
     sr \<leftarrow> get_right s sibling;
     cr \<leftarrow> getColor s sr;
     if cl = BLACK \<and> cr = BLACK then red_up s this currParent sibling
     else do {
       (sibling, s) \<leftarrow> (if cr = BLACK then do {
           s \<leftarrow> setColor s sl BLACK;
           s \<leftarrow> setColor s sibling RED;
           s \<leftarrow> rightRotate s this sibling;
           sibling \<leftarrow> get_right s currParent;
           Some (sibling, s)
         } else Some (sibling, s));
       cp \<leftarrow> getColor s currParent;
       s \<leftarrow> setColor s sibling cp;
       s \<leftarrow> setColor s currParent BLACK;
       sr \<leftarrow> get_right s sibling;
       s \<leftarrow> setColor s sr BLACK;
       s \<leftarrow> leftRotate s this currParent;
       root \<leftarrow> get_root s this;
       Some (root, currParent, s)
     }
   }"

definition eraseFixup_right :: "rb_mem \<Rightarrow> addr \<Rightarrow> addr \<Rightarrow> (addr \<times> addr \<times> rb_mem) option" where
  "eraseFixup_right s this currParent = do {
     sibling \<leftarrow> get_left s currParent;
     c \<leftarrow> getColor s sibling;
     (sibling, s) \<leftarrow> (if c = RED then do {
         s \<leftarrow> setColor s sibling BLACK;
         s \<leftarrow> setColor s currParent RED;
         s \<leftarrow> rightRotate s this currParent;
         sibling \<leftarrow> get_left s currParent;
         Some (sibling, s)
       } else Some (sibling, s));
     _ \<leftarrow> assert_that (sibling \<noteq> NULL);
     sl \<leftarrow> get_left s sibling;
     cl \<leftarrow> getColor s sl;
     sr \<leftarrow> get_right s sibling;
     cr \<leftarrow> getColor s sr;
     if cl = BLACK \<and> cr = BLACK then red_up s this currParent sibling
     else do {
       (sibling, s) \<leftarrow> (if cl = BLACK then do {
           s \<leftarrow> setColor s sr BLACK;
           s \<leftarrow> setColor s sibling RED;
           s \<leftarrow> leftRotate s this sibling;
           sibling \<leftarrow> get_left s currParent;
           Some (sibling, s)
         } else Some (sibling, s));
       cp \<leftarrow> getColor s currParent;
       s \<leftarrow> setColor s sibling cp;
       s \<leftarrow> setColor s currParent BLACK;
       sl \<leftarrow> get_left s sibling;
       s \<leftarrow> setColor s sl BLACK;
       s \<leftarrow> rightRotate s this currParent;
       root \<leftarrow> get_root s this;
       Some (root, currParent, s)
     }
   }"

partial_function (option) eraseFixup_loop :: "rb_mem \<Rightarrow> addr \<Rightarrow> addr \<Rightarrow> addr \<Rightarrow> (addr \<times> rb_mem) option" where
  "eraseFixup_loop s this cur currParent = do {
     root \<leftarrow> get_root s this;
     if cur = root then Some (cur, s)
     else do {
       c \<leftarrow> getColor s cur;
       if c = BLACK then do {
         l \<leftarrow> get_left s currParent;
         (cur, currParent, s) \<leftarrow> (if cur = l then eraseFixup_left s this currParent
                                  else eraseFixup_right s this currParent);
         eraseFixup_loop s this cur currParent
       }
       else Some (cur, s)
     }
   }"

definition eraseFixup :: "rb_mem \<Rightarrow> addr \<Rightarrow> addr \<Rightarrow> addr \<Rightarrow> rb_mem option" where
  "eraseFixup s this node parent = do {
     (cur, s) \<leftarrow> eraseFixup_loop s this node parent;
     c \<leftarrow> getColor s cur;
     if c = RED then do {
       s \<leftarrow> setColor s cur BLACK;
       root \<leftarrow> get_root s this;
       if cur = root then do {
         n \<leftarrow> get_blackHeight s this;
         set_blackHeight s this (n + 1)
       }
       else Some s
     }
     else Some s
   }"

partial_function (option) rb_erase_search :: "rb_mem \<Rightarrow> key \<Rightarrow> addr \<Rightarrow> addr option" where
  "rb_erase_search s key node =
     (if node = NULL then Some NULL
      else do {
        nodeKey \<leftarrow> get_key s node;
        if key < nodeKey then do {
          l \<leftarrow> get_left s node;
          rb_erase_search s key l
        }
        else if key > nodeKey then do {
          r \<leftarrow> get_right s node;
          rb_erase_search s key r
        }
        else Some node
      })"

text \<open>
  A node with at most one child leaves the tree; it is not freed. Its parent pointer and its
  colour are read again afterwards.
\<close>

definition rb_unlink :: "rb_mem \<Rightarrow> addr \<Rightarrow> addr \<Rightarrow> rb_mem option" where
  "rb_unlink s this node = do {
     l \<leftarrow> get_left s node;
     r \<leftarrow> get_right s node;
     let child = (if l \<noteq> NULL then l else r);
     p \<leftarrow> get_parent s node;
     s \<leftarrow> adopt s child p;
     c \<leftarrow> getColor s node;
     s \<leftarrow> (if p = NULL then do {
         s \<leftarrow> set_root s this child;
         if c = BLACK then do {
           n \<leftarrow> get_blackHeight s this;
           set_blackHeight s this (n - 1)
         } else Some s
       }
       else do {
         pl \<leftarrow> get_left s p;
         if node = pl then set_left s p child else set_right s p child
       });
     if c = BLACK then eraseFixup s this child p else Some s
   }"

definition rb_erase :: "rb_mem \<Rightarrow> addr \<Rightarrow> key \<Rightarrow> (val \<times> rb_mem) option" where
  "rb_erase s this key = do {
     root \<leftarrow> get_root s this;
     node \<leftarrow> rb_erase_search s key root;
     if node = NULL then Some (NO_VALUE, s)
     else do {
       retval \<leftarrow> get_val s node;
       l \<leftarrow> get_left s node;
       r \<leftarrow> get_right s node;
       if node = root \<and> l = NULL \<and> r = NULL then do {
         s \<leftarrow> set_root s this NULL;
         s \<leftarrow> set_blackHeight s this 0;
         Some (retval, s)
       }
       else do {
         s \<leftarrow> (if l \<noteq> NULL \<and> r \<noteq> NULL then do {
             succ \<leftarrow> tree_minimum s r;
             transplant s this node succ
           } else Some s);
         s \<leftarrow> rb_unlink s this node;
         Some (retval, s)
       }
     }
   }"

section \<open>Join\<close>

text \<open>Taking the greatest node off the left tree, or the least one off the right tree.\<close>

definition detach_max :: "rb_mem \<Rightarrow> addr \<Rightarrow> addr \<Rightarrow> rb_mem option" where
  "detach_max s this maxT1 = do {
     p \<leftarrow> get_parent s maxT1;
     l \<leftarrow> get_left s maxT1;
     s \<leftarrow> set_right s p l;
     s \<leftarrow> adopt s l p;
     c \<leftarrow> getColor s maxT1;
     if c = BLACK then eraseFixup s this l p else Some s
   }"

definition detach_min :: "rb_mem \<Rightarrow> addr \<Rightarrow> addr \<Rightarrow> rb_mem option" where
  "detach_min s rightTree minT2 = do {
     p \<leftarrow> get_parent s minT2;
     r \<leftarrow> get_right s minT2;
     s \<leftarrow> set_left s p r;
     s \<leftarrow> adopt s r p;
     c \<leftarrow> getColor s minT2;
     if c = BLACK then eraseFixup s rightTree r p else Some s
   }"

text \<open>When both extreme nodes are roots, the right root becomes the right child of the left one.\<close>

definition join_roots :: "rb_mem \<Rightarrow> addr \<Rightarrow> addr \<Rightarrow> addr \<Rightarrow> rb_mem option" where
  "join_roots s this root minT2 = do {
     s \<leftarrow> set_right s root minT2;
     s \<leftarrow> set_parent s minT2 root;
     s \<leftarrow> setColor s minT2 RED;
     s \<leftarrow> set_left s minT2 NULL;
     r \<leftarrow> get_right s minT2;
     if r \<noteq> NULL then insertFixup s this r else Some s
   }"

partial_function (option) spine_left :: "rb_mem \<Rightarrow> addr \<Rightarrow> int \<Rightarrow> int \<Rightarrow> addr option" where
  "spine_left s node2 currBHeight blackHeight =
     (if currBHeight > blackHeight then do {
        c \<leftarrow> getColor s node2;
        l \<leftarrow> get_left s node2;
        spine_left s l (if c = BLACK then currBHeight - 1 else currBHeight) blackHeight
      }
      else Some node2)"

partial_function (option) spine_right :: "rb_mem \<Rightarrow> addr \<Rightarrow> int \<Rightarrow> int \<Rightarrow> addr option" where
  "spine_right s node1 currBHeight blackHeight =
     (if currBHeight > blackHeight then do {
        c \<leftarrow> getColor s node1;
        r \<leftarrow> get_right s node1;
        spine_right s r (if c = BLACK then currBHeight - 1 else currBHeight) blackHeight
      }
      else Some node1)"

text \<open>The two nodes of equal black height between which \<open>aux\<close> goes.\<close>

definition join_nodes :: "rb_mem \<Rightarrow> addr \<Rightarrow> addr \<Rightarrow> (addr \<times> addr) option" where
  "join_nodes s this rightTree = do {
     root \<leftarrow> get_root s this;
     rroot \<leftarrow> get_root s rightTree;
     bh \<leftarrow> get_blackHeight s this;
     rbh \<leftarrow> get_blackHeight s rightTree;
     if bh \<le> rbh then do {
       node2 \<leftarrow> spine_left s rroot rbh bh;
       c \<leftarrow> getColor s node2;
       node2 \<leftarrow> (if c = RED then get_left s node2 else Some node2);
       Some (root, node2)
     }
     else do {
       node1 \<leftarrow> spine_right s root bh rbh;
       c \<leftarrow> getColor s node1;
       node1 \<leftarrow> (if c = RED then get_right s node1 else Some node1);
       Some (node1, rroot)
     }
   }"

definition join_aux :: "rb_mem \<Rightarrow> addr \<Rightarrow> addr \<Rightarrow> addr \<Rightarrow> rb_mem option" where
  "join_aux s this rightTree aux = do {
     (node1, node2) \<leftarrow> join_nodes s this rightTree;
     root \<leftarrow> get_root s this;
     rroot \<leftarrow> get_root s rightTree;
     (parent, newRoot, s) \<leftarrow> (if node1 = root then do {
         parent \<leftarrow> get_parent s node2;
         if parent = NULL then Some (parent, aux, s)
         else do {
           s \<leftarrow> set_left s parent aux;
           Some (parent, rroot, s)
         }
       }
       else do {
         parent \<leftarrow> get_parent s node1;
         _ \<leftarrow> assert_that (parent \<noteq> NULL);
         s \<leftarrow> set_right s parent aux;
         Some (parent, root, s)
       });
     s \<leftarrow> set_parent s aux parent;
     s \<leftarrow> setColor s aux RED;
     s \<leftarrow> set_left s aux node1;
     s \<leftarrow> set_right s aux node2;
     s \<leftarrow> set_parent s node1 aux;
     s \<leftarrow> set_parent s node2 aux;
     s \<leftarrow> (if root \<noteq> newRoot then do {
         rbh \<leftarrow> get_blackHeight s rightTree;
         s \<leftarrow> set_blackHeight s this rbh;
         set_root s this newRoot
       } else Some s);
     insertFixup s this aux
   }"

definition rb_join :: "rb_mem \<Rightarrow> addr \<Rightarrow> addr \<Rightarrow> (addr \<times> rb_mem) option" where
  "rb_join s this rightTree = do {
     rroot \<leftarrow> get_root s rightTree;
     root \<leftarrow> get_root s this;
     if rroot = NULL then Some (this, s)
     else if root = NULL then Some (rightTree, s)
     else do {
       maxT1 \<leftarrow> tree_maximum s root;
       minT2 \<leftarrow> tree_minimum s rroot;
       k1 \<leftarrow> get_key s maxT1;
       k2 \<leftarrow> get_key s minT2;
       _ \<leftarrow> assert_that (k1 < k2);
       if maxT1 \<noteq> root then do {
         s \<leftarrow> detach_max s this maxT1;
         s \<leftarrow> join_aux s this rightTree maxT1;
         Some (this, s)
       }
       else if minT2 \<noteq> rroot then do {
         s \<leftarrow> detach_min s rightTree minT2;
         s \<leftarrow> join_aux s this rightTree minT2;
         Some (this, s)
       }
       else do {
         s \<leftarrow> join_roots s this root minT2;
         Some (this, s)
       }
     }
   }"

section \<open>Split\<close>

text \<open>Two nodes only, the root and its child \<open>c\<close>: both pairs go into new trees.\<close>

definition split_two :: "rb_mem \<Rightarrow> addr \<Rightarrow> addr \<Rightarrow> addr \<Rightarrow> addr
    \<Rightarrow> (key \<times> (addr \<times> addr) option \<times> rb_mem) option" where
  "split_two s leftNode rightNode root child = do {
     leftRootKey \<leftarrow> get_key s leftNode;
     leftRootVal \<leftarrow> get_val s leftNode;
     rightRootKey \<leftarrow> get_key s rightNode;
     rightRootVal \<leftarrow> get_val s rightNode;
     let (leftTree, s) = RedBlackTree s;
     let (rightTree, s) = RedBlackTree s;
     (_, s) \<leftarrow> rb_insert s leftTree leftRootKey leftRootVal;
     (_, s) \<leftarrow> rb_insert s rightTree rightRootKey rightRootVal;
     s \<leftarrow> delete_node s child;
     s \<leftarrow> delete_node s root;
     Some (rightRootKey, Some (leftTree, rightTree), s)
   }"

text \<open>A subtree of the root becomes a tree object of its own.\<close>

definition install_tree :: "rb_mem \<Rightarrow> addr \<Rightarrow> addr \<Rightarrow> int \<Rightarrow> rb_mem option" where
  "install_tree s tr child bh = do {
     s \<leftarrow> set_root s tr child;
     s \<leftarrow> set_blackHeight s tr bh;
     s \<leftarrow> set_parent s child NULL;
     blacken_root s tr
   }"

definition split_inner :: "rb_mem \<Rightarrow> addr \<Rightarrow> addr \<Rightarrow> (key \<times> (addr \<times> addr) option \<times> rb_mem) option" where
  "split_inner s this splitNode = do {
     let (leftTree, s) = RedBlackTree s;
     let (rightTree, s) = RedBlackTree s;
     bh \<leftarrow> get_blackHeight s this;
     splitKey \<leftarrow> get_key s splitNode;
     c \<leftarrow> getColor s splitNode;
     _ \<leftarrow> assert_that (c = BLACK);
     r \<leftarrow> get_right s splitNode;
     s \<leftarrow> install_tree s rightTree r (bh - 1);
     l \<leftarrow> get_left s splitNode;
     s \<leftarrow> install_tree s leftTree l (bh - 1);
     spineRight \<leftarrow> leftmost s r;
     s \<leftarrow> set_parent s splitNode spineRight;
     s \<leftarrow> setColor s splitNode RED;
     s \<leftarrow> set_right s splitNode NULL;
     s \<leftarrow> set_left s splitNode NULL;
     s \<leftarrow> set_left s spineRight splitNode;
     s \<leftarrow> insertFixup s rightTree splitNode;
     Some (splitKey, Some (leftTree, rightTree), s)
   }"

definition rb_split :: "rb_mem \<Rightarrow> addr \<Rightarrow> (key \<times> (addr \<times> addr) option \<times> rb_mem) option" where
  "rb_split s this = do {
     root \<leftarrow> get_root s this;
     if root = NULL then Some (INVALID_KEY, None, s)
     else do {
       l \<leftarrow> get_left s root;
       r \<leftarrow> get_right s root;
       if l = NULL \<and> r = NULL then Some (INVALID_KEY, None, s)
       else if l = NULL then split_two s root r root r
       else if r = NULL then split_two s l root root l
       else split_inner s this root
     }
   }"

section \<open>Remaining members\<close>

definition rb_sumOfKeys :: "rb_mem \<Rightarrow> addr \<Rightarrow> int option" where
  "rb_sumOfKeys s this = do {
     root \<leftarrow> get_root s this;
     sumOfKeysHelper s root
   }"

definition rb_numKeys :: "rb_mem \<Rightarrow> addr \<Rightarrow> int option" where
  "rb_numKeys s this = do {
     root \<leftarrow> get_root s this;
     numKeysHelper s root
   }"

definition rb_getSize :: "rb_mem \<Rightarrow> addr \<Rightarrow> int" where
  "rb_getSize s this = 0"

partial_function (option) calcBlackHeight :: "rb_mem \<Rightarrow> addr \<Rightarrow> int option" where
  "calcBlackHeight s node =
     (if node = NULL then Some 1
      else do {
        l \<leftarrow> get_left s node;
        leftBlackHeight \<leftarrow> calcBlackHeight s l;
        if leftBlackHeight = 0 then Some leftBlackHeight
        else do {
          r \<leftarrow> get_right s node;
          rightBlackHeight \<leftarrow> calcBlackHeight s r;
          if rightBlackHeight = 0 then Some rightBlackHeight
          else if leftBlackHeight \<noteq> rightBlackHeight then Some 0
          else do {
            n \<leftarrow> deref s node;
            Some (leftBlackHeight + (if isBlack n then 1 else 0))
          }
        }
      })"

definition verifyBlackHeight :: "rb_mem \<Rightarrow> addr \<Rightarrow> int option" where
  "verifyBlackHeight s this = do {
     root \<leftarrow> get_root s this;
     calcBlackHeight s root
   }"

text \<open>For every node in the order of the queue: its key, its colour and the key of its parent.\<close>

partial_function (option) rb_printBFS_loop :: "rb_mem \<Rightarrow> addr list \<Rightarrow> (int \<times> char \<times> int) list option" where
  "rb_printBFS_loop s q = (case q of
     [] \<Rightarrow> Some []
   | cur # q \<Rightarrow> do {
       p \<leftarrow> get_parent s cur;
       parentKey \<leftarrow> (if p = NULL then Some INVALID_KEY else get_key s p);
       color \<leftarrow> get_tag s cur;
       k \<leftarrow> get_key s cur;
       l \<leftarrow> get_left s cur;
       r \<leftarrow> get_right s cur;
       out \<leftarrow> rb_printBFS_loop s (push_child (push_child q l) r);
       Some ((printf_d k, (if color = BLACK then CHR ''b'' else CHR ''r''), printf_d parentKey) # out)
     })"

definition rb_printBFSOrder :: "rb_mem \<Rightarrow> addr \<Rightarrow> (int \<times> char \<times> int) list option" where
  "rb_printBFSOrder s this = do {
     root \<leftarrow> get_root s this;
     if root \<noteq> NULL then rb_printBFS_loop s [root] else Some []
   }"

section \<open>Code equations of the loops\<close>

declare rb_find_loop.simps [code] insertFixup_loop.simps [code] rb_insert_search.simps [code]
  eraseFixup_loop.simps [code] rb_erase_search.simps [code] spine_left.simps [code]
  spine_right.simps [code] calcBlackHeight.simps [code] rb_printBFS_loop.simps [code]

end
