(* ===== verification/Dict.thy ===== *)
theory Dict
  imports Prelude "HOL-Library.Word"
begin

unbundle bit_operations_syntax

text \<open>
  The hash table with incremental rehashing of \<open>src/cpp/common/dict.h\<close> (class \<open>Dict\<close>), which the
  sorted sets of \<open>ds/redis_zset\<close> and \<open>common/gsat.h\<close> keep beside their ordered index. A bucket is
  the chain of its entries as a list, a null table is the empty list, and a pointer to an entry
  is the triple of table, bucket and position in the chain. The template parameters \<open>Hash\<close> and
  \<open>KeyEqual\<close> are arguments of the operations; the deleters are empty functions in every
  instance (\<open>DummyDeleter\<close>). The counters \<open>ht_used_\<close> count entries in memory and do not wrap.
\<close>

section \<open>State\<close>

record ('k, 'v) ht =
  ht_table :: "('k \<times> 'v) list list"
  ht_used :: int
  ht_size_exp :: int

record ('k, 'v) dict =
  ht0 :: "('k, 'v) ht"
  ht1 :: "('k, 'v) ht"
  rehash_idx :: int

type_synonym entry_ref = "nat \<times> nat \<times> nat"

definition kHtInitialExp :: nat where
  "kHtInitialExp = 2"

definition kHtInitialSize :: nat where
  "kHtInitialSize = 2 ^ kHtInitialExp"

definition kRehashMultiplier :: int where
  "kRehashMultiplier = 10"

definition kHtMinFill :: int where
  "kHtMinFill = 10"

definition kHtResizeFactor :: int where
  "kHtResizeFactor = 100"

definition ResetHt :: "('k, 'v) ht" where
  "ResetHt = \<lparr>ht_table = [], ht_used = 0, ht_size_exp = -1\<rparr>"

definition new_Dict :: "('k, 'v) dict" where
  "new_Dict = \<lparr>ht0 = ResetHt, ht1 = ResetHt, rehash_idx = -1\<rparr>"

definition CalculateSize :: "int \<Rightarrow> nat" where
  "CalculateSize e = (if e = -1 then 0 else 2 ^ nat e)"

definition CalculateSizeMask :: "int \<Rightarrow> nat" where
  "CalculateSizeMask e = (if e = -1 then 0 else CalculateSize e - 1)"

definition GetSlots :: "('k, 'v) dict \<Rightarrow> nat" where
  "GetSlots d = CalculateSize (ht_size_exp (ht0 d)) + CalculateSize (ht_size_exp (ht1 d))"

definition GetSize :: "('k, 'v) dict \<Rightarrow> int" where
  "GetSize d = ht_used (ht0 d) + ht_used (ht1 d)"

definition IsRehashing :: "('k, 'v) dict \<Rightarrow> bool" where
  "IsRehashing d = (rehash_idx d \<noteq> -1)"

text \<open>Indexing a table outside of its bounds has no result.\<close>

definition bucket :: "'a list \<Rightarrow> nat \<Rightarrow> 'a option" where
  "bucket t i = (if i < length t then Some (t ! i) else None)"

definition get_ht :: "('k, 'v) dict \<Rightarrow> nat \<Rightarrow> ('k, 'v) ht" where
  "get_ht d i = (if i = 0 then ht0 d else ht1 d)"

definition put_ht :: "('k, 'v) dict \<Rightarrow> nat \<Rightarrow> ('k, 'v) ht \<Rightarrow> ('k, 'v) dict" where
  "put_ht d i h = (if i = 0 then d\<lparr>ht0 := h\<rparr> else d\<lparr>ht1 := h\<rparr>)"

text \<open>
  The comparison and the hash of members through pointers, from \<open>common/dict_helpers.h\<close>; a pointer
  to a member stands for the member.
\<close>

definition PtrMemberEqual :: "('m \<Rightarrow> 'm \<Rightarrow> bool) \<Rightarrow> 'm \<Rightarrow> 'm \<Rightarrow> bool" where
  "PtrMemberEqual mc m1 m2 \<longleftrightarrow> \<not> (mc m1 m2 \<or> mc m2 m1)"

definition PtrMemberHash :: "('m \<Rightarrow> nat) \<Rightarrow> 'm \<Rightarrow> nat" where
  "PtrMemberHash mh m = mh m"

section \<open>Incremental rehashing\<close>

text \<open>
  The inner loop skips empty buckets of the old table, but not more than \<open>empty_visits\<close> of them;
  the new index, whether the visits are used up, and how many are left.
\<close>

partial_function (option) skip_empty :: "'a list list \<Rightarrow> nat \<Rightarrow> int \<Rightarrow> (nat \<times> bool \<times> int) option" where
  "skip_empty t i empty_visits = do {
     b \<leftarrow> bucket t i;
     if b = [] then
       (if empty_visits - 1 = 0 then Some (i + 1, True, 0)
        else skip_empty t (i + 1) (empty_visits - 1))
     else Some (i, False, empty_visits)
   }"

text \<open>Moving the entries of one chain to the new table, each to the front of its bucket.\<close>

fun move_chain :: "('k \<Rightarrow> nat) \<Rightarrow> ('k \<times> 'v) list \<Rightarrow> ('k, 'v) dict \<Rightarrow> ('k, 'v) dict option" where
  "move_chain hash [] d = Some d"
| "move_chain hash ((k, v) # he) d = do {
     let h = hash k AND CalculateSizeMask (ht_size_exp (ht1 d));
     b \<leftarrow> bucket (ht_table (ht1 d)) h;
     move_chain hash he (d\<lparr>ht0 := (ht0 d)\<lparr>ht_used := ht_used (ht0 d) - 1\<rparr>,
       ht1 := (ht1 d)\<lparr>ht_table := (ht_table (ht1 d))[h := (k, v) # b], ht_used := ht_used (ht1 d) + 1\<rparr>\<rparr>)
   }"

text \<open>The outer loop; the flag tells whether it returned early.\<close>

fun rehash_loop :: "('k \<Rightarrow> nat) \<Rightarrow> nat \<Rightarrow> int \<Rightarrow> ('k, 'v) dict \<Rightarrow> (bool \<times> ('k, 'v) dict) option" where
  "rehash_loop hash 0 empty_visits d = Some (False, d)"
| "rehash_loop hash (Suc steps) empty_visits d =
     (if ht_used (ht0 d) = 0 then Some (False, d)
      else do {
        _ \<leftarrow> assert_that (int (CalculateSize (ht_size_exp (ht0 d))) > to_size_t (rehash_idx d));
        (i, early, empty_visits) \<leftarrow> skip_empty (ht_table (ht0 d)) (nat (rehash_idx d)) empty_visits;
        let d = d\<lparr>rehash_idx := int i\<rparr>;
        if early then Some (True, d)
        else do {
          he \<leftarrow> bucket (ht_table (ht0 d)) i;
          d \<leftarrow> move_chain hash he d;
          rehash_loop hash steps empty_visits
            (d\<lparr>ht0 := (ht0 d)\<lparr>ht_table := (ht_table (ht0 d))[i := []]\<rparr>, rehash_idx := int i + 1\<rparr>)
        }
      })"

definition Rehash :: "('k \<Rightarrow> nat) \<Rightarrow> nat \<Rightarrow> ('k, 'v) dict \<Rightarrow> (bool \<times> ('k, 'v) dict) option" where
  "Rehash hash steps d = do {
     (early, d) \<leftarrow> rehash_loop hash steps (int steps * kRehashMultiplier) d;
     if early then Some (True, d)
     else if ht_used (ht0 d) = 0 then Some (False, d\<lparr>ht0 := ht1 d, ht1 := ResetHt, rehash_idx := -1\<rparr>)
     else Some (True, d)
   }"

text \<open>\<open>if (IsRehashing()) Rehash();\<close>\<close>

definition rehash_step :: "('k \<Rightarrow> nat) \<Rightarrow> ('k, 'v) dict \<Rightarrow> ('k, 'v) dict option" where
  "rehash_step hash d = (if IsRehashing d then map_option snd (Rehash hash 1 d) else Some d)"

section \<open>Resizing\<close>

function NextExp_loop :: "nat \<Rightarrow> nat \<Rightarrow> nat" where
  "NextExp_loop e n = (if 2 ^ e < n then NextExp_loop (e + 1) n else e)"
  by auto
termination
  by (relation "measure (\<lambda>(e, n :: nat). n - 2 ^ e)") (auto intro: diff_less_mono2)

declare NextExp_loop.simps [simp del]

definition NextExp :: "nat \<Rightarrow> nat" where
  "NextExp n = (if n \<ge> 2 ^ 63 - 1 then 63 else NextExp_loop kHtInitialExp n)"

lemma NextExp_code [code]:
  "NextExp n = (if int n \<ge> 2 ^ 63 - 1 then 63 else NextExp_loop kHtInitialExp n)"
proof -
  have "int n \<ge> 2 ^ 63 - 1 \<longleftrightarrow> n \<ge> 2 ^ 63 - 1" by simp
  then show ?thesis by (simp add: NextExp_def)
qed

definition Expand :: "nat \<Rightarrow> ('k, 'v) dict \<Rightarrow> bool \<times> ('k, 'v) dict" where
  "Expand n d =
     (if IsRehashing d \<or> ht_used (ht0 d) > int n then (False, d)
      else
        let e = NextExp n; new_size = 2 ^ e in
        if new_size < n \<or> int e = ht_size_exp (ht0 d) then (False, d)
        else
          let h = \<lparr>ht_table = replicate new_size [], ht_used = 0, ht_size_exp = int e\<rparr> in
          if ht_table (ht0 d) = [] then (True, d\<lparr>ht0 := h\<rparr>)
          else (True, d\<lparr>ht1 := h, rehash_idx := 0\<rparr>))"

definition ExpandIfNeeded :: "('k, 'v) dict \<Rightarrow> bool \<times> ('k, 'v) dict" where
  "ExpandIfNeeded d =
     (if IsRehashing d then (True, d)
      else if CalculateSize (ht_size_exp (ht0 d)) = 0 then Expand kHtInitialSize d
      else if ht_used (ht0 d) \<ge> int (CalculateSize (ht_size_exp (ht0 d)))
        then Expand (nat (ht_used (ht0 d)) + 1) d
      else (True, d))"

definition Resize :: "('k, 'v) dict \<Rightarrow> bool \<times> ('k, 'v) dict" where
  "Resize d = (if IsRehashing d then (False, d)
     else Expand (max (nat (ht_used (ht0 d))) kHtInitialSize) d)"

definition IsNeedResize :: "('k, 'v) dict \<Rightarrow> bool" where
  "IsNeedResize d = (GetSlots d > kHtInitialSize \<and>
     GetSize d * kHtResizeFactor div int (GetSlots d) < kHtMinFill)"

section \<open>Searching\<close>

text \<open>The loop along a chain: the position of the first entry whose key is equal.\<close>

fun chain_find :: "('k \<Rightarrow> 'k \<Rightarrow> bool) \<Rightarrow> 'k \<Rightarrow> ('k \<times> 'v) list \<Rightarrow> nat \<Rightarrow> nat option" where
  "chain_find key_equal key [] n = None"
| "chain_find key_equal key ((k, v) # he) n =
     (if key_equal key k then Some n else chain_find key_equal key he (n + 1))"

text \<open>
  One pass of the loop over the two tables: the bucket index of the key in the table, and the
  entry if there is one.
\<close>

definition table_find :: "('k \<Rightarrow> nat) \<Rightarrow> ('k \<Rightarrow> 'k \<Rightarrow> bool) \<Rightarrow> ('k, 'v) dict \<Rightarrow> nat \<Rightarrow> 'k
    \<Rightarrow> (nat \<times> entry_ref option) option" where
  "table_find hash key_equal d table key = do {
     let idx = hash key AND CalculateSizeMask (ht_size_exp (get_ht d table));
     he \<leftarrow> bucket (ht_table (get_ht d table)) idx;
     Some (idx, map_option (\<lambda>pos. (table, idx, pos)) (chain_find key_equal key he 0))
   }"

definition dict_Find :: "('k \<Rightarrow> nat) \<Rightarrow> ('k \<Rightarrow> 'k \<Rightarrow> bool) \<Rightarrow> 'k \<Rightarrow> ('k, 'v) dict
    \<Rightarrow> (entry_ref option \<times> ('k, 'v) dict) option" where
  "dict_Find hash key_equal key d =
     (if GetSize d = 0 then Some (None, d)
      else do {
        d \<leftarrow> rehash_step hash d;
        (_, he) \<leftarrow> table_find hash key_equal d 0 key;
        if he \<noteq> None \<or> \<not> IsRehashing d then Some (he, d)
        else do {
          (_, he) \<leftarrow> table_find hash key_equal d 1 key;
          Some (he, d)
        }
      })"

text \<open>The entry a pointer refers to, and writing its value.\<close>

definition entry_at :: "('k, 'v) dict \<Rightarrow> entry_ref \<Rightarrow> ('k \<times> 'v) option" where
  "entry_at d r = (case r of (table, idx, pos) \<Rightarrow> do {
     he \<leftarrow> bucket (ht_table (get_ht d table)) idx;
     bucket he pos
   })"

definition set_entry_value :: "('k, 'v) dict \<Rightarrow> entry_ref \<Rightarrow> 'v \<Rightarrow> ('k, 'v) dict option" where
  "set_entry_value d r v = (case r of (table, idx, pos) \<Rightarrow> do {
     let h = get_ht d table;
     he \<leftarrow> bucket (ht_table h) idx;
     (k, _) \<leftarrow> bucket he pos;
     Some (put_ht d table (h\<lparr>ht_table := (ht_table h)[idx := he[pos := (k, v)]]\<rparr>))
   })"

definition dict_Get :: "('k \<Rightarrow> nat) \<Rightarrow> ('k \<Rightarrow> 'k \<Rightarrow> bool) \<Rightarrow> 'k \<Rightarrow> ('k, 'v) dict
    \<Rightarrow> ('v option \<times> ('k, 'v) dict) option" where
  "dict_Get hash key_equal key d = do {
     (he, d) \<leftarrow> dict_Find hash key_equal key d;
     case he of
       None \<Rightarrow> Some (None, d)
     | Some r \<Rightarrow> do {
         (_, v) \<leftarrow> entry_at d r;
         Some (Some v, d)
       }
   }"

section \<open>Insertion\<close>

text \<open>
  The result of \<open>KeyIndex\<close>: \<open>Inr idx\<close> for an index, \<open>Inl existing\<close> for -1 with the output
  parameter, which is null when the table could not be expanded.
\<close>

definition KeyIndex :: "('k \<Rightarrow> nat) \<Rightarrow> ('k \<Rightarrow> 'k \<Rightarrow> bool) \<Rightarrow> 'k \<Rightarrow> ('k, 'v) dict
    \<Rightarrow> ((entry_ref option + nat) \<times> ('k, 'v) dict) option" where
  "KeyIndex hash key_equal key d = (case ExpandIfNeeded d of
     (False, d) \<Rightarrow> Some (Inl None, d)
   | (True, d) \<Rightarrow> do {
       (idx, he) \<leftarrow> table_find hash key_equal d 0 key;
       if he \<noteq> None then Some (Inl he, d)
       else if \<not> IsRehashing d then Some (Inr idx, d)
       else do {
         (idx, he) \<leftarrow> table_find hash key_equal d 1 key;
         if he \<noteq> None then Some (Inl he, d) else Some (Inr idx, d)
       }
     })"

text \<open>The new entry goes to the front of its bucket; \<open>v0\<close> is the value of a fresh \<open>Entry\<close>.\<close>

definition AddRaw :: "'v \<Rightarrow> ('k \<Rightarrow> nat) \<Rightarrow> ('k \<Rightarrow> 'k \<Rightarrow> bool) \<Rightarrow> 'k \<Rightarrow> ('k, 'v) dict
    \<Rightarrow> ((entry_ref option + entry_ref) \<times> ('k, 'v) dict) option" where
  "AddRaw v0 hash key_equal key d = do {
     d \<leftarrow> rehash_step hash d;
     (index, d) \<leftarrow> KeyIndex hash key_equal key d;
     case index of
       Inl existing \<Rightarrow> Some (Inl existing, d)
     | Inr idx \<Rightarrow> do {
         let ht_idx = (if IsRehashing d then 1 else 0);
         let h = get_ht d ht_idx;
         b \<leftarrow> bucket (ht_table h) idx;
         Some (Inr (ht_idx, idx, 0), put_ht d ht_idx
           (h\<lparr>ht_table := (ht_table h)[idx := (key, v0) # b], ht_used := ht_used h + 1\<rparr>))
       }
   }"

definition dict_Add :: "'v \<Rightarrow> ('k \<Rightarrow> nat) \<Rightarrow> ('k \<Rightarrow> 'k \<Rightarrow> bool) \<Rightarrow> 'k \<Rightarrow> 'v \<Rightarrow> ('k, 'v) dict
    \<Rightarrow> (bool \<times> ('k, 'v) dict) option" where
  "dict_Add v0 hash key_equal key val d = do {
     (he, d) \<leftarrow> AddRaw v0 hash key_equal key d;
     case he of
       Inl existing \<Rightarrow> Some (False, d)
     | Inr r \<Rightarrow> do {
         d \<leftarrow> set_entry_value d r val;
         Some (True, d)
       }
   }"

definition dict_Replace :: "'v \<Rightarrow> ('k \<Rightarrow> nat) \<Rightarrow> ('k \<Rightarrow> 'k \<Rightarrow> bool) \<Rightarrow> 'k \<Rightarrow> 'v \<Rightarrow> ('k, 'v) dict
    \<Rightarrow> (bool \<times> ('k, 'v) dict) option" where
  "dict_Replace v0 hash key_equal key val d = do {
     (he, d) \<leftarrow> AddRaw v0 hash key_equal key d;
     case he of
       Inr r \<Rightarrow> do {
         d \<leftarrow> set_entry_value d r val;
         Some (True, d)
       }
     | Inl None \<Rightarrow> None
     | Inl (Some existing) \<Rightarrow> do {
         d \<leftarrow> set_entry_value d existing val;
         Some (False, d)
       }
   }"

section \<open>Removal\<close>

text \<open>Unlinking an entry from its chain; the entry and the new state.\<close>

definition unlink_at :: "('k, 'v) dict \<Rightarrow> entry_ref \<Rightarrow> (('k \<times> 'v) \<times> ('k, 'v) dict) option" where
  "unlink_at d r = (case r of (table, idx, pos) \<Rightarrow> do {
     let h = get_ht d table;
     he \<leftarrow> bucket (ht_table h) idx;
     e \<leftarrow> bucket he pos;
     Some (e, put_ht d table
       (h\<lparr>ht_table := (ht_table h)[idx := take pos he @ drop (pos + 1) he], ht_used := ht_used h - 1\<rparr>))
   })"

definition GenericDelete :: "('k \<Rightarrow> nat) \<Rightarrow> ('k \<Rightarrow> 'k \<Rightarrow> bool) \<Rightarrow> 'k \<Rightarrow> ('k, 'v) dict
    \<Rightarrow> (('k \<times> 'v) option \<times> ('k, 'v) dict) option" where
  "GenericDelete hash key_equal key d =
     (if GetSize d = 0 then Some (None, d)
      else do {
        d \<leftarrow> rehash_step hash d;
        (_, he) \<leftarrow> table_find hash key_equal d 0 key;
        (case he of
           Some r \<Rightarrow> do { (e, d) \<leftarrow> unlink_at d r; Some (Some e, d) }
         | None \<Rightarrow>
             if \<not> IsRehashing d then Some (None, d)
             else do {
               (_, he) \<leftarrow> table_find hash key_equal d 1 key;
               (case he of
                  Some r \<Rightarrow> do { (e, d) \<leftarrow> unlink_at d r; Some (Some e, d) }
                | None \<Rightarrow> Some (None, d))
             })
      })"

definition dict_Unlink :: "('k \<Rightarrow> nat) \<Rightarrow> ('k \<Rightarrow> 'k \<Rightarrow> bool) \<Rightarrow> 'k \<Rightarrow> ('k, 'v) dict
    \<Rightarrow> (('k \<times> 'v) option \<times> ('k, 'v) dict) option" where
  "dict_Unlink hash key_equal key d = GenericDelete hash key_equal key d"

definition dict_Delete :: "('k \<Rightarrow> nat) \<Rightarrow> ('k \<Rightarrow> 'k \<Rightarrow> bool) \<Rightarrow> 'k \<Rightarrow> ('k, 'v) dict
    \<Rightarrow> (bool \<times> ('k, 'v) dict) option" where
  "dict_Delete hash key_equal key d =
     map_option (\<lambda>(e, d). (e \<noteq> None, d)) (GenericDelete hash key_equal key d)"

text \<open>The destructor: the entries it frees, table by table.\<close>

fun clear_loop :: "('k \<times> 'v) list list \<Rightarrow> int \<Rightarrow> ('k \<times> 'v) list" where
  "clear_loop [] used = []"
| "clear_loop (he # t) used = (if used > 0 then he @ clear_loop t (used - int (length he)) else [])"

definition ClearHt :: "('k, 'v) ht \<Rightarrow> ('k \<times> 'v) list \<times> ('k, 'v) ht" where
  "ClearHt h = (clear_loop (ht_table h) (ht_used h), ResetHt)"

definition destroy_Dict :: "('k, 'v) dict \<Rightarrow> ('k \<times> 'v) list" where
  "destroy_Dict d = fst (ClearHt (ht0 d)) @ fst (ClearHt (ht1 d))"

declare skip_empty.simps [code]

end
