(* ===== verification/Dict_Proof.thy ===== *)
theory Dict_Proof
  imports Dict "HOL-Library.Multiset"
begin

text \<open>
  The hash table is a finite map: the invariant of the two tables, that every operation keeps
  it, and what every operation does to the entries. Rehashing moves entries between the tables
  and leaves the collection of entries as it is.
\<close>

section \<open>Tables\<close>

definition ht_ok :: "('k \<Rightarrow> nat) \<Rightarrow> ('k, 'v) ht \<Rightarrow> bool" where
  "ht_ok hash h \<longleftrightarrow>
     (if ht_table h = [] then h = ResetHt
      else 0 \<le> ht_size_exp h \<and> length (ht_table h) = 2 ^ nat (ht_size_exp h) \<and>
        ht_used h = int (length (concat (ht_table h))) \<and>
        (\<forall>i < length (ht_table h). \<forall>x \<in> set (ht_table h ! i). hash (fst x) mod length (ht_table h) = i))"

definition entries :: "('k, 'v) dict \<Rightarrow> ('k \<times> 'v) list" where
  "entries d = concat (ht_table (ht0 d)) @ concat (ht_table (ht1 d))"

definition dict_inv :: "('k \<Rightarrow> nat) \<Rightarrow> ('k, 'v) dict \<Rightarrow> bool" where
  "dict_inv hash d \<longleftrightarrow> ht_ok hash (ht0 d) \<and> ht_ok hash (ht1 d) \<and> distinct (map fst (entries d)) \<and>
     (if rehash_idx d = -1 then ht1 d = ResetHt
      else 0 \<le> rehash_idx d \<and> rehash_idx d \<le> int (length (ht_table (ht0 d))) \<and>
        ht_table (ht0 d) \<noteq> [] \<and> ht_table (ht1 d) \<noteq> [] \<and>
        (\<forall>i < nat (rehash_idx d). ht_table (ht0 d) ! i = []))"

text \<open>The finite map a state stands for.\<close>

definition dict_map :: "('k, 'v) dict \<Rightarrow> 'k \<Rightarrow> 'v option" where
  "dict_map d = map_of (entries d)"

lemma ht_ok_Reset [simp]: "ht_ok hash ResetHt"
  by (simp add: ht_ok_def ResetHt_def)

lemma ht_okD:
  assumes "ht_ok hash h" "ht_table h \<noteq> []"
  shows "0 \<le> ht_size_exp h" "length (ht_table h) = 2 ^ nat (ht_size_exp h)"
    "ht_used h = int (length (concat (ht_table h)))"
    "\<And>i x. i < length (ht_table h) \<Longrightarrow> x \<in> set (ht_table h ! i) \<Longrightarrow>
       hash (fst x) mod length (ht_table h) = i"
proof -
  have *: "0 \<le> ht_size_exp h \<and> length (ht_table h) = 2 ^ nat (ht_size_exp h) \<and>
    ht_used h = int (length (concat (ht_table h))) \<and>
    (\<forall>i < length (ht_table h). \<forall>x \<in> set (ht_table h ! i). hash (fst x) mod length (ht_table h) = i)"
    using assms(1) unfolding ht_ok_def if_not_P [OF assms(2)] .
  then show "0 \<le> ht_size_exp h" "length (ht_table h) = 2 ^ nat (ht_size_exp h)"
    "ht_used h = int (length (concat (ht_table h)))" by blast+
  show "hash (fst x) mod length (ht_table h) = i"
    if "i < length (ht_table h)" "x \<in> set (ht_table h ! i)" for i x
    using * that by blast
qed

lemma ht_ok_used: "ht_ok hash h \<Longrightarrow> ht_used h = int (length (concat (ht_table h)))"
  by (auto simp: ht_ok_def ResetHt_def split: if_splits)

lemma mask_mod: "0 \<le> e \<Longrightarrow> n AND CalculateSizeMask e = n mod 2 ^ nat e"
  using take_bit_eq_mask [of "nat e" n] take_bit_eq_mod [of "nat e" n]
  by (simp add: CalculateSizeMask_def CalculateSize_def mask_eq_exp_minus_1)

lemma ht_index:
  "ht_ok hash h \<Longrightarrow> ht_table h \<noteq> [] \<Longrightarrow>
     n AND CalculateSizeMask (ht_size_exp h) = n mod length (ht_table h)"
  by (simp add: ht_okD mask_mod)

lemma CalculateSize_ht: "ht_ok hash h \<Longrightarrow> CalculateSize (ht_size_exp h) = length (ht_table h)"
  by (auto simp: ht_ok_def CalculateSize_def ResetHt_def split: if_splits)

lemma bucket_in: "i < length t \<Longrightarrow> bucket t i = Some (t ! i)"
  by (simp add: bucket_def)

lemma index_less: "t \<noteq> [] \<Longrightarrow> n mod length t < length t"
  by simp

lemma mset_concat_update:
  "i < length t \<Longrightarrow> mset (concat (t[i := b])) + mset (t ! i) = mset (concat t) + mset b"
proof (induction t arbitrary: i)
  case (Cons a t)
  show ?case
  proof (cases i)
    case 0
    then show ?thesis by (simp add: ac_simps)
  next
    case (Suc j)
    with Cons.IH [of j] Cons.prems show ?thesis by (simp add: add.assoc)
  qed
qed simp

lemma length_concat_update:
  "i < length t \<Longrightarrow> length (concat (t[i := b])) + length (t ! i) = length (concat t) + length b"
  using arg_cong [OF mset_concat_update, of i t size b] by simp

lemma set_concat_nth: "x \<in> set (concat t) \<longleftrightarrow> (\<exists>i < length t. x \<in> set (t ! i))"
  unfolding set_concat by (metis UN_E UN_I in_set_conv_nth)

lemma in_bucket:
  assumes "ht_ok hash h" "x \<in> set (concat (ht_table h))"
  shows "x \<in> set (ht_table h ! (hash (fst x) mod length (ht_table h)))"
proof -
  from assms(2) have ne: "ht_table h \<noteq> []" by auto
  from assms(2) obtain i where i: "i < length (ht_table h)" "x \<in> set (ht_table h ! i)"
    unfolding set_concat_nth by blast
  with ht_okD(4) [OF assms(1) ne] show ?thesis by simp
qed

text \<open>Changing one bucket, by entries that belong there.\<close>

lemma ht_ok_update:
  assumes ok: "ht_ok hash h" and i: "i < length (ht_table h)"
    and b: "\<And>x. x \<in> set b \<Longrightarrow> hash (fst x) mod length (ht_table h) = i"
    and u: "u = ht_used h + int (length b) - int (length (ht_table h ! i))"
  shows "ht_ok hash (h\<lparr>ht_table := (ht_table h)[i := b], ht_used := u\<rparr>)"
proof -
  from i have ne: "ht_table h \<noteq> []" by auto
  note D = ht_okD [OF ok ne]
  have "\<forall>j < length (ht_table h). \<forall>x \<in> set ((ht_table h)[i := b] ! j). hash (fst x) mod length (ht_table h) = j"
  proof (intro allI impI ballI)
    fix j x
    assume "j < length (ht_table h)" "x \<in> set ((ht_table h)[i := b] ! j)"
    then show "hash (fst x) mod length (ht_table h) = j"
      using b [of x] D(4) [of j x] by (cases "i = j") (simp_all add: nth_list_update)
  qed
  moreover have "u = int (length (concat ((ht_table h)[i := b])))"
    using length_concat_update [OF i, of b] D(3) u by simp
  ultimately show ?thesis using D(1,2) ne by (simp add: ht_ok_def)
qed

lemma map_of_mset:
  assumes "mset xs = mset ys" "distinct (map fst xs)"
  shows "map_of xs = map_of ys"
proof -
  have "mset (map fst xs) = mset (map fst ys)" using assms(1) by (metis mset_map)
  then have "distinct (map fst ys)" using assms(2) by (metis mset_eq_imp_distinct_iff)
  then show ?thesis using assms map_of_inject_set mset_eq_setD by metis
qed

lemma distinct_fst_mset:
  "mset xs = mset ys \<Longrightarrow> distinct (map fst xs) = distinct (map fst ys)"
  by (metis mset_map mset_eq_imp_distinct_iff)

section \<open>Rehashing\<close>

lemma move_chain_ok:
  assumes "ht_ok hash (ht1 d)" "ht_table (ht1 d) \<noteq> []"
  shows "\<exists>h. move_chain hash he d =
      Some (d\<lparr>ht0 := (ht0 d)\<lparr>ht_used := ht_used (ht0 d) - int (length he)\<rparr>, ht1 := h\<rparr>) \<and>
    ht_ok hash h \<and> ht_table h \<noteq> [] \<and>
    mset (concat (ht_table h)) = mset (concat (ht_table (ht1 d))) + mset he"
  using assms
proof (induction hash he d rule: move_chain.induct)
  case (1 hash d)
  then show ?case by (intro exI [of _ "ht1 d"]) simp
next
  case (2 hash k v he d)
  let ?h = "ht1 d" and ?t = "ht_table (ht1 d)"
  let ?i = "hash k mod length ?t"
  have i: "?i < length ?t" using 2(3) by simp
  let ?h' = "?h\<lparr>ht_table := ?t[?i := (k, v) # ?t ! ?i], ht_used := ht_used ?h + 1\<rparr>"
  let ?d = "d\<lparr>ht0 := (ht0 d)\<lparr>ht_used := ht_used (ht0 d) - 1\<rparr>, ht1 := ?h'\<rparr>"
  have ok: "ht_ok hash ?h'"
    by (rule ht_ok_update [OF 2(2) i]) (use ht_okD(4) [OF 2(2,3) i] in auto)
  have "mset (concat (ht_table ?h')) = mset (concat ?t) + {#(k, v)#}"
    using mset_concat_update [OF i, of "(k, v) # ?t ! ?i"] by simp
  moreover have step: "move_chain hash ((k, v) # he) d = move_chain hash he ?d"
    using i by (simp add: ht_index [OF 2(2,3)] bucket_in Let_def)
  moreover from 2(1) [of ?i "?t ! ?i"] ok 2(3) i obtain h where
    "move_chain hash he ?d = Some (?d\<lparr>ht0 := (ht0 ?d)\<lparr>ht_used := ht_used (ht0 ?d) - int (length he)\<rparr>, ht1 := h\<rparr>)"
    "ht_ok hash h" "ht_table h \<noteq> []" "mset (concat (ht_table h)) = mset (concat (ht_table ?h')) + mset he"
    by (auto simp: ht_index [OF 2(2,3)] bucket_in)
  ultimately show ?case by (intro exI [of _ h]) (simp add: algebra_simps)
qed

lemma skip_empty_ok:
  assumes "0 < n" "concat (drop i t) \<noteq> []"
  shows "\<exists>j early m. skip_empty t i n = Some (j, early, m) \<and> i \<le> j \<and> j \<le> length t \<and>
    (\<forall>x. i \<le> x \<longrightarrow> x < j \<longrightarrow> t ! x = []) \<and> (if early then i < j else j < length t \<and> t ! j \<noteq> [])"
  using assms
proof (induction "length t - i" arbitrary: i n)
  case 0
  then show ?case by simp
next
  case (Suc m)
  then have i: "i < length t" by simp
  show ?case
  proof (cases "t ! i = []")
    case False
    then have "skip_empty t i n = Some (i, False, n)"
      using i by (subst skip_empty.simps) (simp add: bucket_in)
    then show ?thesis using i False by auto
  next
    case True
    show ?thesis
    proof (cases "n = 1")
      case n: True
      then have "skip_empty t i n = Some (i + 1, True, 0)"
        using i True by (subst skip_empty.simps) (simp add: bucket_in)
      then show ?thesis using i True by (auto simp: less_Suc_eq)
    next
      case n: False
      then have e: "skip_empty t i n = skip_empty t (i + 1) (n - 1)"
        using i True by (subst skip_empty.simps) (simp add: bucket_in)
      have "concat (drop (i + 1) t) \<noteq> []"
        using Suc.prems(2) True i by (simp flip: Cons_nth_drop_Suc)
      moreover have "m = length t - (i + 1)" "0 < n - 1" using Suc.hyps(2) Suc.prems(1) n by auto
      ultimately obtain j early m where
        j: "skip_empty t (i + 1) (n - 1) = Some (j, early, m)" "i + 1 \<le> j" "j \<le> length t"
        "\<forall>x. i + 1 \<le> x \<longrightarrow> x < j \<longrightarrow> t ! x = []" "if early then i + 1 < j else j < length t \<and> t ! j \<noteq> []"
        using Suc.hyps(1) [of "i + 1" "n - 1"] by blast
      have "t ! x = []" if "i \<le> x" "x < j" for x
        using that j(4) True by (cases "x = i") auto
      with j show ?thesis unfolding e by (intro exI [of _ j] exI [of _ early] exI [of _ m]) (auto split: if_splits)
    qed
  qed
qed

lemma concat_drop_empty:
  "\<forall>i < n. t ! i = [] \<Longrightarrow> n \<le> length t \<Longrightarrow> concat (drop n t) = concat t"
proof (induction n)
  case (Suc n)
  then show ?case by (simp flip: Cons_nth_drop_Suc)
qed simp

lemma dict_inv_swap:
  assumes "dict_inv hash d" "ht_used (ht0 d) = 0"
  shows "dict_inv hash (d\<lparr>ht0 := ht1 d, ht1 := ResetHt, rehash_idx := -1\<rparr>)"
    "entries (d\<lparr>ht0 := ht1 d, ht1 := ResetHt, rehash_idx := -1\<rparr>) = entries d"
proof -
  have "concat (ht_table (ht0 d)) = []"
    using assms ht_ok_used [of hash "ht0 d"] by (simp add: dict_inv_def)
  then show e: "entries (d\<lparr>ht0 := ht1 d, ht1 := ResetHt, rehash_idx := -1\<rparr>) = entries d"
    by (simp add: entries_def ResetHt_def)
  show "dict_inv hash (d\<lparr>ht0 := ht1 d, ht1 := ResetHt, rehash_idx := -1\<rparr>)"
    using assms e by (simp add: dict_inv_def)
qed

text \<open>One chain of the old table moves over.\<close>

lemma rehash_move:
  assumes inv: "dict_inv hash d" and re: "IsRehashing d"
    and j: "rehash_idx d \<le> int j" "j < length (ht_table (ht0 d))"
    and empty: "\<forall>x. nat (rehash_idx d) \<le> x \<longrightarrow> x < j \<longrightarrow> ht_table (ht0 d) ! x = []"
  shows "\<exists>h d'. move_chain hash (ht_table (ht0 d) ! j) (d\<lparr>rehash_idx := int j\<rparr>) =
      Some (d\<lparr>rehash_idx := int j, ht0 := (ht0 d)\<lparr>ht_used := ht_used (ht0 d) - int (length (ht_table (ht0 d) ! j))\<rparr>, ht1 := h\<rparr>) \<and>
    d' = d\<lparr>ht0 := (ht0 d)\<lparr>ht_table := (ht_table (ht0 d))[j := []],
        ht_used := ht_used (ht0 d) - int (length (ht_table (ht0 d) ! j))\<rparr>, ht1 := h, rehash_idx := int j + 1\<rparr> \<and>
    dict_inv hash d' \<and> mset (entries d') = mset (entries d)"
proof -
  let ?t = "ht_table (ht0 d)"
  have ok: "ht_ok hash (ht0 d)" "ht_ok hash (ht1 d)" "ht_table (ht1 d) \<noteq> []" "0 \<le> rehash_idx d"
    "\<forall>i < nat (rehash_idx d). ?t ! i = []" "distinct (map fst (entries d))"
    using inv re by (simp_all add: dict_inv_def IsRehashing_def)
  from move_chain_ok [of hash "d\<lparr>rehash_idx := int j\<rparr>" "?t ! j"] ok(2,3) obtain h where
    h: "move_chain hash (?t ! j) (d\<lparr>rehash_idx := int j\<rparr>) =
      Some (d\<lparr>rehash_idx := int j, ht0 := (ht0 d)\<lparr>ht_used := ht_used (ht0 d) - int (length (?t ! j))\<rparr>, ht1 := h\<rparr>)"
    "ht_ok hash h" "ht_table h \<noteq> []" "mset (concat (ht_table h)) = mset (concat (ht_table (ht1 d))) + mset (?t ! j)"
    by auto
  define d' where "d' = d\<lparr>ht0 := (ht0 d)\<lparr>ht_table := ?t[j := []],
      ht_used := ht_used (ht0 d) - int (length (?t ! j))\<rparr>, ht1 := h, rehash_idx := int j + 1\<rparr>"
  have m: "mset (entries d') = mset (entries d)"
    using mset_concat_update [OF j(2), of "[]"] h(4) by (simp add: entries_def d'_def ac_simps)
  have "?t[j := []] ! i = []" if "i < Suc j" for i
    using that ok(5) empty j(2) by (cases "i = j"; cases "i < nat (rehash_idx d)") auto
  moreover have "ht_ok hash (ht0 d')"
    using ht_ok_update [OF ok(1) j(2), of "[]"] by (simp add: d'_def)
  ultimately have "dict_inv hash d'"
    using h(2,3) j distinct_fst_mset [OF m] ok(6) by (auto simp: dict_inv_def d'_def nat_add_distrib)
  with h(1) m d'_def show ?thesis by blast
qed

lemma rehash_step_ok:
  assumes inv: "dict_inv hash d"
  shows "\<exists>d'. rehash_step hash d = Some d' \<and> dict_inv hash d' \<and> mset (entries d') = mset (entries d) \<and>
    (IsRehashing d' \<longrightarrow> IsRehashing d \<and> rehash_idx d < rehash_idx d' \<and>
       length (ht_table (ht0 d')) = length (ht_table (ht0 d)) \<and> ht_used (ht0 d') \<noteq> 0)"
proof (cases "IsRehashing d")
  case False
  then show ?thesis using inv by (simp add: rehash_step_def)
next
  case re: True
  let ?t = "ht_table (ht0 d)"
  have ok: "ht_ok hash (ht0 d)" "0 \<le> rehash_idx d" "nat (rehash_idx d) \<le> length ?t"
    "\<forall>i < nat (rehash_idx d). ?t ! i = []" "?t \<noteq> []"
    using inv re by (auto simp: dict_inv_def IsRehashing_def)
  show ?thesis
  proof (cases "ht_used (ht0 d) = 0")
    case True
    then show ?thesis using re dict_inv_swap [OF inv True]
      by (simp add: rehash_step_def Rehash_def IsRehashing_def)
  next
    case False
    have ne: "concat (drop (nat (rehash_idx d)) ?t) \<noteq> []"
      using False ok concat_drop_empty [OF ok(4,3)] by (simp add: ht_ok_used)
    then have "rehash_idx d < int (CalculateSize (ht_size_exp (ht0 d)))"
      using ok(2,3) CalculateSize_ht [OF ok(1)] by (cases "nat (rehash_idx d) = length ?t") auto
    then have lt: "to_size_t (rehash_idx d) < int (CalculateSize (ht_size_exp (ht0 d)))"
      using zmod_le_nonneg_dividend [OF ok(2), of "2 ^ 64"] by (simp add: to_size_t_def)
    from skip_empty_ok [OF _ ne, of 10] obtain j early m where
      j: "skip_empty ?t (nat (rehash_idx d)) 10 = Some (j, early, m)" "nat (rehash_idx d) \<le> j" "j \<le> length ?t"
      "\<forall>x. nat (rehash_idx d) \<le> x \<longrightarrow> x < j \<longrightarrow> ?t ! x = []"
      "if early then nat (rehash_idx d) < j else j < length ?t \<and> ?t ! j \<noteq> []" by auto
    show ?thesis
    proof (cases early)
      case True
      have "rehash_step hash d = Some (d\<lparr>rehash_idx := int j\<rparr>)"
        using re False lt j(1) True by (simp add: rehash_step_def Rehash_def kRehashMultiplier_def)
      moreover have "?t ! i = []" if "i < j" for i
        using that ok(4) j(4) by (cases "i < nat (rehash_idx d)") auto
      then have "dict_inv hash (d\<lparr>rehash_idx := int j\<rparr>)"
        using inv re ok j(3) by (auto simp: dict_inv_def IsRehashing_def entries_def)
      moreover have "rehash_idx d < int j" using j(5) True ok(2) by auto
      ultimately show ?thesis using re False by (simp add: entries_def)
    next
      case e: False
      have ij: "rehash_idx d \<le> int j" "j < length ?t" using j(2,5) e by auto
      from rehash_move [OF inv re ij j(4)] obtain h d' where
        h: "move_chain hash (?t ! j) (d\<lparr>rehash_idx := int j\<rparr>) =
          Some (d\<lparr>rehash_idx := int j, ht0 := (ht0 d)\<lparr>ht_used := ht_used (ht0 d) - int (length (?t ! j))\<rparr>, ht1 := h\<rparr>)"
        "d' = d\<lparr>ht0 := (ht0 d)\<lparr>ht_table := ?t[j := []],
          ht_used := ht_used (ht0 d) - int (length (?t ! j))\<rparr>, ht1 := h, rehash_idx := int j + 1\<rparr>"
        "dict_inv hash d'" "mset (entries d') = mset (entries d)" by blast
      have step: "rehash_step hash d = Some (if ht_used (ht0 d') = 0
          then d'\<lparr>ht0 := ht1 d', ht1 := ResetHt, rehash_idx := -1\<rparr> else d')"
        using re False lt j e h(1) unfolding h(2)
        by (auto simp: rehash_step_def Rehash_def kRehashMultiplier_def bucket_in)
      show ?thesis
      proof (cases "ht_used (ht0 d') = 0")
        case True
        then show ?thesis using step dict_inv_swap [OF h(3) True] h(4) by (simp add: IsRehashing_def)
      next
        case False
        then show ?thesis using step h(2-4) re ij(1) by (simp add: h(2))
      qed
    qed
  qed
qed

text \<open>While the old table has entries, the index is inside it.\<close>

lemma rehash_idx_less:
  assumes "dict_inv hash d" "IsRehashing d" "ht_used (ht0 d) \<noteq> 0"
  shows "rehash_idx d < int (length (ht_table (ht0 d)))"
proof (rule ccontr)
  assume "\<not> ?thesis"
  with assms(1,2) have "\<forall>i < length (ht_table (ht0 d)). ht_table (ht0 d) ! i = []" "ht_ok hash (ht0 d)"
    by (auto simp: dict_inv_def IsRehashing_def)
  then have "concat (ht_table (ht0 d)) = []" by (auto simp: in_set_conv_nth)
  with assms(3) ht_ok_used [OF \<open>ht_ok hash (ht0 d)\<close>] show False by simp
qed

section \<open>Resizing\<close>

lemma NextExp_loop_ge: "n \<le> 2 ^ NextExp_loop e n"
proof (induction e n rule: NextExp_loop.induct)
  case (1 e n)
  then show ?case by (subst NextExp_loop.simps) auto
qed

lemma NextExp_ge: "n \<le> 2 ^ 63 \<Longrightarrow> n \<le> 2 ^ NextExp n"
  by (simp add: NextExp_def NextExp_loop_ge)

definition fresh_ht :: "nat \<Rightarrow> ('k, 'v) ht" where
  "fresh_ht e = \<lparr>ht_table = replicate (2 ^ e) [], ht_used = 0, ht_size_exp = int e\<rparr>"

lemma fresh_ht [simp]:
  "ht_ok hash (fresh_ht e)" "ht_table (fresh_ht e) \<noteq> []" "concat (ht_table (fresh_ht e)) = []"
  by (simp_all add: ht_ok_def fresh_ht_def)

lemma Expand_cases:
  "Expand n d = (False, d) \<or>
   \<not> IsRehashing d \<and> ht_table (ht0 d) = [] \<and> Expand n d = (True, d\<lparr>ht0 := fresh_ht (NextExp n)\<rparr>) \<or>
   \<not> IsRehashing d \<and> ht_table (ht0 d) \<noteq> [] \<and>
     Expand n d = (True, d\<lparr>ht1 := fresh_ht (NextExp n), rehash_idx := 0\<rparr>)"
  by (simp add: Expand_def Let_def fresh_ht_def)

lemma Expand_ok:
  assumes inv: "dict_inv hash d" and e: "Expand n d = (b, d')"
  shows "dict_inv hash d'" "mset (entries d') = mset (entries d)" "b \<Longrightarrow> ht_table (ht0 d') \<noteq> []"
proof -
  have r: "ht1 d = ResetHt" "ht_table (ht1 d) = []" if "\<not> IsRehashing d"
    using that inv by (simp_all add: dict_inv_def IsRehashing_def ResetHt_def)
  consider (no) "b = False" "d' = d"
    | (first) "\<not> IsRehashing d" "ht_table (ht0 d) = []" "d' = d\<lparr>ht0 := fresh_ht (NextExp n)\<rparr>"
    | (second) "\<not> IsRehashing d" "ht_table (ht0 d) \<noteq> []" "d' = d\<lparr>ht1 := fresh_ht (NextExp n), rehash_idx := 0\<rparr>"
    using Expand_cases [of n d] unfolding e by blast
  note cs = this
  have ent: "entries d' = entries d" by (rule cs) (simp_all add: entries_def r ResetHt_def)
  then show "mset (entries d') = mset (entries d)" by simp
  have D: "distinct (map fst (entries d'))" using inv ent by (simp add: dict_inv_def)
  show "dict_inv hash d'"
  proof (rule cs)
    assume "\<not> IsRehashing d" "ht_table (ht0 d) = []" "d' = d\<lparr>ht0 := fresh_ht (NextExp n)\<rparr>"
    then show ?thesis using inv D by (simp add: dict_inv_def IsRehashing_def)
  next
    assume "\<not> IsRehashing d" "ht_table (ht0 d) \<noteq> []" "d' = d\<lparr>ht1 := fresh_ht (NextExp n), rehash_idx := 0\<rparr>"
    then show ?thesis using inv D by (simp add: dict_inv_def)
  qed (use inv in simp)
  show "ht_table (ht0 d') \<noteq> []" if b
    by (rule cs) (use that in simp_all)
qed

lemma ExpandIfNeeded_ok:
  assumes inv: "dict_inv hash d" and small: "length (entries d) < 2 ^ 63"
  shows "\<exists>d'. ExpandIfNeeded d = (True, d') \<and> dict_inv hash d' \<and> mset (entries d') = mset (entries d) \<and>
    ht_table (ht0 d') \<noteq> []"
proof -
  have ok: "ht_ok hash (ht0 d)" using inv by (simp add: dict_inv_def)
  note sz = CalculateSize_ht [OF ok] and us = ht_ok_used [OF ok]
  consider "IsRehashing d" | "\<not> IsRehashing d" "ht_table (ht0 d) = []"
    | "\<not> IsRehashing d" "ht_table (ht0 d) \<noteq> []" "length (ht_table (ht0 d)) \<le> length (concat (ht_table (ht0 d)))"
    | "\<not> IsRehashing d" "ht_table (ht0 d) \<noteq> []" "length (concat (ht_table (ht0 d))) < length (ht_table (ht0 d))"
    by linarith
  then show ?thesis
  proof cases
    case 1
    then show ?thesis using inv by (simp add: ExpandIfNeeded_def dict_inv_def IsRehashing_def)
  next
    case 2
    have "fst (Expand kHtInitialSize d)"
      using 2 us ok NextExp_ge [of kHtInitialSize]
      by (simp add: Expand_def Let_def kHtInitialSize_def kHtInitialExp_def ht_ok_def ResetHt_def)
    then show ?thesis using 2 sz Expand_ok [OF inv, of kHtInitialSize]
      by (cases "Expand kHtInitialSize d") (auto simp: ExpandIfNeeded_def)
  next
    case 3
    let ?u = "length (concat (ht_table (ht0 d)))"
    have u: "?u + 1 \<le> 2 ^ NextExp (?u + 1)"
      using small by (intro NextExp_ge) (simp add: entries_def)
    have "int (NextExp (?u + 1)) \<noteq> ht_size_exp (ht0 d)"
    proof
      assume "int (NextExp (?u + 1)) = ht_size_exp (ht0 d)"
      then have "length (ht_table (ht0 d)) = 2 ^ NextExp (?u + 1)" using ht_okD(2) [OF ok 3(2)] by (metis nat_int)
      then show False using u 3(3) by linarith
    qed
    then have "fst (Expand (?u + 1) d)" using 3 u us by (simp add: Expand_def Let_def)
    then show ?thesis using 3 sz us Expand_ok [OF inv, of "?u + 1"]
      by (cases "Expand (?u + 1) d") (auto simp: ExpandIfNeeded_def)
  next
    case 4
    then show ?thesis using inv sz us by (simp add: ExpandIfNeeded_def)
  qed
qed

section \<open>Searching\<close>

text \<open>
  The comparison of members through pointers: two members are equal when neither is smaller. On
  a linear order this is equality.
\<close>

lemma PtrMemberEqual_eq [simp]: "PtrMemberEqual (<) = ((=) :: 'k :: linorder \<Rightarrow> 'k \<Rightarrow> bool)"
  by (auto simp: PtrMemberEqual_def fun_eq_iff)

lemma chain_find_Some:
  "chain_find (=) k xs n = Some p \<Longrightarrow> n \<le> p \<and> p - n < length xs \<and> fst (xs ! (p - n)) = k"
proof (induction xs arbitrary: n)
  case (Cons x xs)
  obtain a b where x: "x = (a, b)" by force
  show ?case
  proof (cases "k = a")
    case True
    then show ?thesis using Cons.prems x by simp
  next
    case False
    then have "n + 1 \<le> p \<and> p - (n + 1) < length xs \<and> fst (xs ! (p - (n + 1))) = k"
      using Cons x by (intro Cons.IH) simp
    then show ?thesis by (auto simp: nth_Cons split: nat.splits) (metis Suc_diff_Suc diff_Suc_1' le_simps(3))
  qed
qed simp

lemma chain_find_None: "chain_find (=) k xs n = None \<longleftrightarrow> k \<notin> fst ` set xs"
proof (induction xs arbitrary: n)
  case (Cons x xs)
  then show ?case by (cases x) simp
qed simp

definition found_at :: "('k, 'v) dict \<Rightarrow> nat \<Rightarrow> entry_ref \<Rightarrow> 'k \<Rightarrow> 'v \<Rightarrow> bool" where
  "found_at d table r k v \<longleftrightarrow> (\<exists>idx pos. r = (table, idx, pos) \<and> idx < length (ht_table (get_ht d table)) \<and>
     pos < length (ht_table (get_ht d table) ! idx) \<and> ht_table (get_ht d table) ! idx ! pos = (k, v))"

lemma table_find_ok:
  assumes ok: "ht_ok hash (get_ht d table)" and ne: "ht_table (get_ht d table) \<noteq> []"
  shows "\<exists>r. table_find hash (=) d table k = Some (hash k mod length (ht_table (get_ht d table)), r) \<and>
    (case r of None \<Rightarrow> k \<notin> fst ` set (concat (ht_table (get_ht d table))) | Some r \<Rightarrow> \<exists>v. found_at d table r k v)"
proof -
  let ?t = "ht_table (get_ht d table)"
  let ?i = "hash k mod length ?t"
  have i: "?i < length ?t" using ne by simp
  have e: "table_find hash (=) d table k =
      Some (?i, map_option (\<lambda>pos. (table, ?i, pos)) (chain_find (=) k (?t ! ?i) 0))"
    using i by (simp add: table_find_def ht_index [OF ok ne] bucket_in Let_def)
  show ?thesis
  proof (cases "chain_find (=) k (?t ! ?i) 0")
    case None
    have "k \<notin> fst ` set (concat ?t)"
    proof
      assume "k \<in> fst ` set (concat ?t)"
      then obtain x where x: "x \<in> set (concat ?t)" "fst x = k" by blast
      with in_bucket [OF ok x(1)] None show False unfolding chain_find_None by blast
    qed
    with None e show ?thesis by simp
  next
    case (Some p)
    with chain_find_Some [OF Some] have p: "p < length (?t ! ?i)" "fst (?t ! ?i ! p) = k" by simp_all
    then obtain v where "?t ! ?i ! p = (k, v)" by (metis prod.collapse)
    with Some e i p show ?thesis by (auto simp: found_at_def)
  qed
qed

lemma found_at_set:
  "found_at d table r k v \<Longrightarrow> (k, v) \<in> set (concat (ht_table (get_ht d table)))"
  unfolding found_at_def set_concat_nth by (metis nth_mem)

lemma found_at_entry: "found_at d table r k v \<Longrightarrow> entry_at d r = Some (k, v)"
  by (auto simp: found_at_def entry_at_def bucket_in)

lemma set_entries: "set (entries d) = set (concat (ht_table (get_ht d 0))) \<union> set (concat (ht_table (get_ht d 1)))"
  by (simp add: entries_def get_ht_def)

text \<open>Searching the tables in turn, as \<open>Find\<close>, \<open>KeyIndex\<close> and \<open>GenericDelete\<close> do.\<close>

definition search_tables :: "('k \<Rightarrow> nat) \<Rightarrow> 'k \<Rightarrow> ('k, 'v) dict \<Rightarrow> (nat \<times> entry_ref option) option" where
  "search_tables hash k d = do {
     (idx, r) \<leftarrow> table_find hash (=) d 0 k;
     if r \<noteq> None \<or> \<not> IsRehashing d then Some (idx, r) else table_find hash (=) d 1 k
   }"

lemma search_tables_ok:
  assumes inv: "dict_inv hash d" and ne: "ht_table (ht0 d) \<noteq> []"
  shows "\<exists>idx r. search_tables hash k d = Some (idx, r) \<and>
    (case r of
       None \<Rightarrow> k \<notin> fst ` set (entries d) \<and>
         idx = hash k mod length (ht_table (get_ht d (if IsRehashing d then 1 else 0)))
     | Some r \<Rightarrow> \<exists>v table. table \<le> 1 \<and> found_at d table r k v)"
proof -
  have ok: "ht_ok hash (get_ht d 0)" "ht_table (get_ht d 0) \<noteq> []" "ht_ok hash (get_ht d 1)"
    using inv ne by (simp_all add: dict_inv_def get_ht_def)
  from table_find_ok [OF ok(1,2), of k] obtain r where
    r: "table_find hash (=) d 0 k = Some (hash k mod length (ht_table (get_ht d 0)), r)"
    "case r of None \<Rightarrow> k \<notin> fst ` set (concat (ht_table (get_ht d 0))) | Some r \<Rightarrow> \<exists>v. found_at d 0 r k v" by blast
  show ?thesis
  proof (cases "r \<noteq> None \<or> \<not> IsRehashing d")
    case True
    have "ht_table (ht1 d) = []" if "\<not> IsRehashing d"
      using that inv by (simp add: dict_inv_def IsRehashing_def ResetHt_def)
    then show ?thesis using True r by (auto simp: search_tables_def set_entries get_ht_def split: option.splits)
  next
    case False
    then have "ht_table (get_ht d 1) \<noteq> []" using inv by (simp add: dict_inv_def IsRehashing_def get_ht_def)
    from table_find_ok [OF ok(3) this, of k] False r show ?thesis
      by (fastforce simp: search_tables_def set_entries split: option.splits)
  qed
qed

section \<open>Changing one bucket\<close>

definition change_bucket :: "('k, 'v) dict \<Rightarrow> nat \<Rightarrow> nat \<Rightarrow> ('k \<times> 'v) list \<Rightarrow> int \<Rightarrow> ('k, 'v) dict" where
  "change_bucket d table idx b u = put_ht d table ((get_ht d table)\<lparr>
     ht_table := (ht_table (get_ht d table))[idx := b], ht_used := u\<rparr>)"

lemma change_bucket_mset:
  assumes "table \<le> 1" "idx < length (ht_table (get_ht d table))"
  shows "mset (entries (change_bucket d table idx b u)) + mset (ht_table (get_ht d table) ! idx) =
    mset (entries d) + mset b"
  using assms mset_concat_update [OF assms(2), of b]
  by (cases "table = 0") (simp_all add: change_bucket_def put_ht_def get_ht_def entries_def ac_simps)

lemma change_bucket_inv:
  assumes inv: "dict_inv hash d" and tb: "table \<le> 1" and i: "idx < length (ht_table (get_ht d table))"
    and keep: "table = 0 \<Longrightarrow> IsRehashing d \<Longrightarrow> ht_table (get_ht d table) ! idx \<noteq> []"
    and b: "\<And>x. x \<in> set b \<Longrightarrow> hash (fst x) mod length (ht_table (get_ht d table)) = idx"
    and u: "u = ht_used (get_ht d table) + int (length b) - int (length (ht_table (get_ht d table) ! idx))"
    and D: "distinct (map fst (entries (change_bucket d table idx b u)))"
  shows "dict_inv hash (change_bucket d table idx b u)"
proof (cases "table = 0")
  case True
  have ok: "ht_ok hash (ht0 d)" using inv by (simp add: dict_inv_def)
  have i0: "idx < length (ht_table (ht0 d))" using i True by (simp add: get_ht_def)
  have new: "ht_ok hash ((ht0 d)\<lparr>ht_table := (ht_table (ht0 d))[idx := b], ht_used := u\<rparr>)"
    by (rule ht_ok_update [OF ok i0]) (use b u True in \<open>simp_all add: get_ht_def\<close>)
  have "(ht_table (ht0 d))[idx := b] ! j = []" if "IsRehashing d" "j < nat (rehash_idx d)" for j
    using that keep inv True i0 by (cases "j = idx") (auto simp: dict_inv_def IsRehashing_def get_ht_def)
  with new inv D True show ?thesis
    by (auto simp: dict_inv_def change_bucket_def put_ht_def get_ht_def IsRehashing_def)
next
  case False
  with tb i have i1: "idx < length (ht_table (ht1 d))" by (simp add: get_ht_def)
  then have ne: "ht_table (ht1 d) \<noteq> []" by auto
  with inv have re: "rehash_idx d \<noteq> -1" by (auto simp: dict_inv_def ResetHt_def)
  have ok: "ht_ok hash (ht1 d)" using inv by (simp add: dict_inv_def)
  have "ht_ok hash ((ht1 d)\<lparr>ht_table := (ht_table (ht1 d))[idx := b], ht_used := u\<rparr>)"
    by (rule ht_ok_update [OF ok i1]) (use b u False in \<open>simp_all add: get_ht_def\<close>)
  with inv D False re ne show ?thesis
    by (auto simp: dict_inv_def change_bucket_def put_ht_def get_ht_def)
qed

text \<open>What replacing, adding and removing one entry does to the map.\<close>

lemma map_of_exchange:
  assumes "mset ys + {#(k, v)#} = mset xs + {#(k, w)#}" "distinct (map fst xs)" "(k, v) \<in> set xs"
  shows "distinct (map fst ys)" "map_of ys = (map_of xs)(k \<mapsto> w)"
proof -
  from assms(3) obtain M where "mset xs = add_mset (k, v) M"
    by (metis insert_DiffM set_mset_mset)
  then obtain zs where x: "mset xs = mset ((k, v) # zs)" by (metis ex_mset mset.simps(2))
  then have y: "mset ys = mset ((k, w) # zs)" using assms(1) by simp
  have D: "distinct (map fst ((k, v) # zs))" using distinct_fst_mset [OF x] assms(2) by simp
  then have D': "distinct (map fst ((k, w) # zs))" by simp
  show 1: "distinct (map fst ys)" using distinct_fst_mset [OF y] D' by simp
  show "map_of ys = (map_of xs)(k \<mapsto> w)"
    using map_of_mset [OF x assms(2)] map_of_mset [OF y 1] by simp
qed

lemma map_of_add:
  assumes "mset ys = mset xs + {#(k, v)#}" "distinct (map fst xs)" "k \<notin> fst ` set xs"
  shows "distinct (map fst ys)" "map_of ys = (map_of xs)(k \<mapsto> v)"
proof -
  have y: "mset ys = mset ((k, v) # xs)" using assms(1) by simp
  have D: "distinct (map fst ((k, v) # xs))" using assms(2,3) by simp
  show 1: "distinct (map fst ys)" using distinct_fst_mset [OF y] D by simp
  show "map_of ys = (map_of xs)(k \<mapsto> v)" using map_of_mset [OF y 1] by simp
qed

lemma map_of_remove:
  assumes "mset ys + {#(k, v)#} = mset xs" "distinct (map fst xs)"
  shows "distinct (map fst ys)" "map_of ys = (map_of xs)(k := None)"
proof -
  have x: "mset xs = mset ((k, v) # ys)" using assms(1) by simp
  have D: "distinct (map fst ((k, v) # ys))" using distinct_fst_mset [OF x] assms(2) by simp
  then show "distinct (map fst ys)" by simp
  have "map_of ys k = None" using D by (simp add: map_of_eq_None_iff)
  then show "map_of ys = (map_of xs)(k := None)"
    using map_of_mset [OF x assms(2)] by (simp add: fun_upd_idem)
qed

section \<open>The operations\<close>

lemma GetSize_entries: "dict_inv hash d \<Longrightarrow> GetSize d = int (length (entries d))"
  using ht_ok_used [of hash "ht0 d"] ht_ok_used [of hash "ht1 d"]
  by (simp add: dict_inv_def GetSize_def entries_def)

lemma entries_table: "dict_inv hash d \<Longrightarrow> entries d \<noteq> [] \<Longrightarrow> ht_table (ht0 d) \<noteq> []"
  by (auto simp: dict_inv_def entries_def ResetHt_def split: if_splits)

lemma dict_map_mset:
  "dict_inv hash d \<Longrightarrow> mset (entries d') = mset (entries d) \<Longrightarrow> dict_map d' = dict_map d"
  unfolding dict_map_def dict_inv_def by (metis map_of_mset)

lemma dict_map_None: "dict_map d k = None \<longleftrightarrow> k \<notin> fst ` set (entries d)"
  by (simp add: dict_map_def map_of_eq_None_iff)

lemma dict_map_found:
  "dict_inv hash d \<Longrightarrow> table \<le> 1 \<Longrightarrow> found_at d table r k v \<Longrightarrow> dict_map d k = Some v"
proof -
  assume a: "dict_inv hash d" "table \<le> 1" "found_at d table r k v"
  then consider "table = 0" | "table = 1" by linarith
  then have "(k, v) \<in> set (entries d)"
    using found_at_set [OF a(3)] unfolding set_entries by cases simp_all
  then show ?thesis using a(1) by (simp add: dict_map_def dict_inv_def)
qed

text \<open>A lookup: one step of rehashing, then the search of the tables.\<close>

lemma dict_Find_search:
  "dict_Find hash (=) k d = (if GetSize d = 0 then Some (None, d)
     else do { d \<leftarrow> rehash_step hash d; (_, r) \<leftarrow> search_tables hash k d; Some (r, d) })"
  by (cases "rehash_step hash d"; cases "table_find hash (=) (the (rehash_step hash d)) 0 k")
     (simp_all add: dict_Find_def search_tables_def split_beta)

lemma GenericDelete_search:
  "GenericDelete hash (=) k d = (if GetSize d = 0 then Some (None, d)
     else do { d \<leftarrow> rehash_step hash d; (_, r) \<leftarrow> search_tables hash k d;
       case r of None \<Rightarrow> Some (None, d) | Some r \<Rightarrow> do { (e, d) \<leftarrow> unlink_at d r; Some (Some e, d) } })"
  by (cases "rehash_step hash d"; cases "table_find hash (=) (the (rehash_step hash d)) 0 k")
     (auto simp: GenericDelete_def search_tables_def split: option.split)

lemma KeyIndex_search:
  "KeyIndex hash (=) k d = (case ExpandIfNeeded d of (False, d) \<Rightarrow> Some (Inl None, d)
     | (True, d) \<Rightarrow> do { (idx, r) \<leftarrow> search_tables hash k d;
         Some (if r \<noteq> None then Inl r else Inr idx, d) })"
  by (cases "table_find hash (=) (snd (ExpandIfNeeded d)) 0 k";
      cases "table_find hash (=) (snd (ExpandIfNeeded d)) 1 k")
     (auto simp: KeyIndex_def search_tables_def split: prod.split bool.split)

lemma searched:
  assumes inv: "dict_inv hash d" and ne: "entries d \<noteq> []"
  shows "\<exists>d' idx r. rehash_step hash d = Some d' \<and> dict_inv hash d' \<and> mset (entries d') = mset (entries d) \<and>
    search_tables hash k d' = Some (idx, r) \<and>
    (case r of None \<Rightarrow> k \<notin> fst ` set (entries d) | Some r \<Rightarrow> \<exists>v table. table \<le> 1 \<and> found_at d' table r k v)"
proof -
  from rehash_step_ok [OF inv] obtain d' where
    d': "rehash_step hash d = Some d'" "dict_inv hash d'" "mset (entries d') = mset (entries d)" by blast
  then have "entries d' \<noteq> []" "set (entries d') = set (entries d)"
    using ne by (auto dest: mset_eq_setD)
  with search_tables_ok [OF d'(2) entries_table [OF d'(2)], of k] d' show ?thesis
    by (fastforce split: option.splits)
qed

lemma dict_Find_ok:
  assumes inv: "dict_inv hash d"
  shows "\<exists>r d'. dict_Find hash (=) k d = Some (r, d') \<and> dict_inv hash d' \<and> dict_map d' = dict_map d \<and>
    (case r of None \<Rightarrow> dict_map d k = None
     | Some r \<Rightarrow> \<exists>v. entry_at d' r = Some (k, v) \<and> dict_map d k = Some v)"
proof (cases "entries d = []")
  case True
  then show ?thesis using inv GetSize_entries [OF inv] by (simp add: dict_Find_def dict_map_def)
next
  case False
  from searched [OF inv False, of k] obtain d' idx r where
    s: "rehash_step hash d = Some d'" "dict_inv hash d'" "mset (entries d') = mset (entries d)"
      "search_tables hash k d' = Some (idx, r)"
      "case r of None \<Rightarrow> k \<notin> fst ` set (entries d) | Some r \<Rightarrow> \<exists>v table. table \<le> 1 \<and> found_at d' table r k v"
    by blast
  have "dict_Find hash (=) k d = Some (r, d')"
    using False GetSize_entries [OF inv] s(1,4) by (simp add: dict_Find_search)
  moreover have "dict_map d' = dict_map d" by (rule dict_map_mset [OF inv s(3)])
  moreover have "case r of None \<Rightarrow> dict_map d k = None
     | Some r \<Rightarrow> \<exists>v. entry_at d' r = Some (k, v) \<and> dict_map d k = Some v"
  proof (cases r)
    case None
    then show ?thesis using s(5) by (simp add: dict_map_None)
  next
    case (Some q)
    with s(5) obtain v table where f: "table \<le> 1" "found_at d' table q k v" by auto
    from found_at_entry [OF f(2)] dict_map_found [OF s(2) f] Some calculation(2) show ?thesis by auto
  qed
  ultimately show ?thesis using s(2) by blast
qed

lemma GenericDelete_ok:
  assumes inv: "dict_inv hash d"
  shows "\<exists>d'. GenericDelete hash (=) k d = Some (map_option (Pair k) (dict_map d k), d') \<and>
    dict_inv hash d' \<and> dict_map d' = (dict_map d)(k := None)"
proof (cases "entries d = []")
  case True
  then show ?thesis using inv GetSize_entries [OF inv] by (simp add: GenericDelete_def dict_map_def)
next
  case False
  from searched [OF inv False, of k] obtain d1 idx r where
    s: "rehash_step hash d = Some d1" "dict_inv hash d1" "mset (entries d1) = mset (entries d)"
      "search_tables hash k d1 = Some (idx, r)"
      "case r of None \<Rightarrow> k \<notin> fst ` set (entries d) | Some r \<Rightarrow> \<exists>v table. table \<le> 1 \<and> found_at d1 table r k v"
    by blast
  have m1: "dict_map d1 = dict_map d" by (rule dict_map_mset [OF inv s(3)])
  have g: "GenericDelete hash (=) k d = (case r of None \<Rightarrow> Some (None, d1)
      | Some r \<Rightarrow> do { (e, d) \<leftarrow> unlink_at d1 r; Some (Some e, d) })"
    using False GetSize_entries [OF inv] s(1,4) by (simp add: GenericDelete_search)
  show ?thesis
  proof (cases r)
    case None
    then show ?thesis using g s(2,5) m1 dict_map_None [of d k] by (simp add: fun_upd_idem)
  next
    case (Some q)
    with s(5) obtain v table where f: "table \<le> 1" "found_at d1 table q k v" by auto
    then obtain i p where q: "q = (table, i, p)" "i < length (ht_table (get_ht d1 table))"
      "p < length (ht_table (get_ht d1 table) ! i)" "ht_table (get_ht d1 table) ! i ! p = (k, v)"
      by (auto simp: found_at_def)
    let ?he = "ht_table (get_ht d1 table) ! i"
    let ?b = "take p ?he @ drop (p + 1) ?he" and ?u = "ht_used (get_ht d1 table) - 1"
    let ?d = "change_bucket d1 table i ?b ?u"
    have he: "?he = take p ?he @ (k, v) # drop (p + 1) ?he"
      using q(3,4) id_take_nth_drop [OF q(3)] by simp
    have "mset ?he = mset ?b + {#(k, v)#}" using arg_cong [OF he, of mset] by simp
    then have ms: "mset (entries ?d) + {#(k, v)#} = mset (entries d1)"
      using change_bucket_mset [OF f(1) q(2), of ?b ?u] by simp
    have D: "distinct (map fst (entries d1))" using s(2) by (simp add: dict_inv_def)
    have ok: "ht_ok hash (get_ht d1 table)" using s(2) by (simp add: dict_inv_def get_ht_def)
    have sb: "set ?b \<subseteq> set ?he" by (auto dest: in_set_takeD in_set_dropD)
    have tn: "ht_table (get_ht d1 table) \<noteq> []" using q(2) by auto
    have len: "length ?he = length ?b + 1" using q(3) by simp
    have inv': "dict_inv hash ?d"
    proof (rule change_bucket_inv [OF s(2) f(1) q(2)])
      show "?u = ht_used (get_ht d1 table) + int (length ?b) - int (length ?he)" using len by simp
      show "hash (fst x) mod length (ht_table (get_ht d1 table)) = i" if "x \<in> set ?b" for x
        using ht_okD(4) [OF ok tn q(2)] sb that by blast
    qed (use q(3) map_of_remove(1) [OF ms D] in auto)
    have "unlink_at d1 q = Some ((k, v), ?d)"
      using q by (simp add: unlink_at_def bucket_in change_bucket_def Let_def)
    with g Some have "GenericDelete hash (=) k d = Some (Some (k, v), ?d)" by simp
    moreover have "dict_map ?d = (dict_map d)(k := None)"
      using map_of_remove(2) [OF ms D] m1 by (simp add: dict_map_def)
    ultimately show ?thesis using inv' dict_map_found [OF s(2) f] m1 by simp
  qed
qed

lemma mset_shift:
  fixes A :: "'a multiset"
  assumes "A + H = E + B" "B + V = H + W"
  shows "A + V = E + W"
proof -
  have "A + V + H = (A + H) + V" by (simp add: ac_simps)
  also have "\<dots> = E + (B + V)" using assms(1) by (simp add: ac_simps)
  also have "\<dots> = E + W + H" using assms(2) by (simp add: ac_simps)
  finally show ?thesis by simp
qed

lemma set_entry_ok:
  assumes inv: "dict_inv hash d" and f: "table \<le> 1" "found_at d table r k v"
  shows "\<exists>d'. set_entry_value d r w = Some d' \<and> dict_inv hash d' \<and> dict_map d' = (dict_map d)(k \<mapsto> w)"
proof -
  from f obtain i p where q: "r = (table, i, p)" "i < length (ht_table (get_ht d table))"
    "p < length (ht_table (get_ht d table) ! i)" "ht_table (get_ht d table) ! i ! p = (k, v)"
    by (auto simp: found_at_def)
  let ?he = "ht_table (get_ht d table) ! i"
  let ?b = "?he[p := (k, w)]" and ?u = "ht_used (get_ht d table)"
  let ?d = "change_bucket d table i ?b ?u"
  have ok: "ht_ok hash (get_ht d table)" using inv by (simp add: dict_inv_def get_ht_def)
  have tn: "ht_table (get_ht d table) \<noteq> []" using q(2) by auto
  have kv: "(k, v) \<in> set ?he" using q(3,4) by (metis nth_mem)
  have "mset ?b + {#(k, v)#} = mset ?he + {#(k, w)#}"
    using q(3,4) kv by (simp add: mset_update)
  then have ms: "mset (entries ?d) + {#(k, v)#} = mset (entries d) + {#(k, w)#}"
    by (rule mset_shift [OF change_bucket_mset [OF f(1) q(2)]])
  have D: "distinct (map fst (entries d))" using inv by (simp add: dict_inv_def)
  from f(1) consider "table = 0" | "table = 1" by linarith
  then have kvs: "(k, v) \<in> set (entries d)"
    using found_at_set [OF f(2)] unfolding set_entries by cases simp_all
  have "dict_inv hash ?d"
  proof (rule change_bucket_inv [OF inv f(1) q(2)])
    show "hash (fst x) mod length (ht_table (get_ht d table)) = i" if "x \<in> set ?b" for x
      using ht_okD(4) [OF ok tn q(2)] kv that set_update_subset_insert [of ?he p "(k, w)"] by fastforce
  qed (use q(3) map_of_exchange(1) [OF ms D kvs] in auto)
  moreover have "set_entry_value d r w = Some ?d"
    using q by (simp add: set_entry_value_def bucket_in change_bucket_def Let_def)
  moreover have "dict_map ?d = (dict_map d)(k \<mapsto> w)"
    using map_of_exchange(2) [OF ms D kvs] by (simp add: dict_map_def)
  ultimately show ?thesis by blast
qed

lemma put_entry_ok:
  assumes inv: "dict_inv hash d" and ne: "ht_table (ht0 d) \<noteq> []" and new: "k \<notin> fst ` set (entries d)"
    and tb: "table = (if IsRehashing d then 1 else 0)"
    and idx: "idx = hash k mod length (ht_table (get_ht d table))"
    and d': "d' = change_bucket d table idx ((k, v) # ht_table (get_ht d table) ! idx) (ht_used (get_ht d table) + 1)"
  shows "idx < length (ht_table (get_ht d table))" "dict_inv hash d'"
    "dict_map d' = (dict_map d)(k \<mapsto> v)" "found_at d' table (table, idx, 0) k v"
proof -
  let ?t = "ht_table (get_ht d table)"
  have tn: "?t \<noteq> []" using inv ne tb by (auto simp: dict_inv_def get_ht_def IsRehashing_def)
  then show i: "idx < length ?t" unfolding idx by simp
  have t1: "table \<le> 1" using tb by simp
  have ok: "ht_ok hash (get_ht d table)" using inv by (simp add: dict_inv_def get_ht_def)
  have D: "distinct (map fst (entries d))" using inv by (simp add: dict_inv_def)
  have ms: "mset (entries d') = mset (entries d) + {#(k, v)#}"
    using change_bucket_mset [OF t1 i, of "(k, v) # ?t ! idx"] unfolding d' by simp
  show "dict_map d' = (dict_map d)(k \<mapsto> v)" using map_of_add(2) [OF ms D new] by (simp add: dict_map_def)
  show "dict_inv hash d'"
    unfolding d'
  proof (rule change_bucket_inv [OF inv t1 i])
    show "hash (fst x) mod length ?t = idx" if "x \<in> set ((k, v) # ?t ! idx)" for x
      using ht_okD(4) [OF ok tn i, of x] that idx by (cases "x = (k, v)") simp_all
    show "distinct (map fst (entries (change_bucket d table idx ((k, v) # ?t ! idx) (ht_used (get_ht d table) + 1))))"
      using map_of_add(1) [OF ms D new] unfolding d' .
  qed (use tb in auto)
  show "found_at d' table (table, idx, 0) k v"
    using i by (cases "table = 0") (simp_all add: found_at_def d' change_bucket_def put_ht_def get_ht_def)
qed

lemma AddRaw_ok:
  assumes inv: "dict_inv hash d" and small: "length (entries d) < 2 ^ 63"
  shows "\<exists>res d'. AddRaw v0 hash (=) k d = Some (res, d') \<and> dict_inv hash d' \<and>
    (case res of
       Inl q \<Rightarrow> dict_map d' = dict_map d \<and> (\<exists>r v table. q = Some r \<and> table \<le> 1 \<and> found_at d' table r k v)
     | Inr r \<Rightarrow> dict_map d k = None \<and> dict_map d' = (dict_map d)(k \<mapsto> v0) \<and>
         (\<exists>table \<le> 1. found_at d' table r k v0))"
proof -
  from rehash_step_ok [OF inv] obtain d1 where
    d1: "rehash_step hash d = Some d1" "dict_inv hash d1" "mset (entries d1) = mset (entries d)" by blast
  have "length (entries d1) < 2 ^ 63" using small d1(3) by (metis size_mset)
  from ExpandIfNeeded_ok [OF d1(2) this] obtain d2 where
    d2: "ExpandIfNeeded d1 = (True, d2)" "dict_inv hash d2" "mset (entries d2) = mset (entries d1)"
      "ht_table (ht0 d2) \<noteq> []" by blast
  have m2: "mset (entries d2) = mset (entries d)" using d1(3) d2(3) by simp
  then have dm: "dict_map d2 = dict_map d" "fst ` set (entries d2) = fst ` set (entries d)"
    using dict_map_mset [OF inv] mset_eq_setD by (blast, metis)
  from search_tables_ok [OF d2(2,4), of k] obtain idx r where
    s: "search_tables hash k d2 = Some (idx, r)"
      "case r of None \<Rightarrow> k \<notin> fst ` set (entries d2) \<and>
           idx = hash k mod length (ht_table (get_ht d2 (if IsRehashing d2 then 1 else 0)))
       | Some r \<Rightarrow> \<exists>v table. table \<le> 1 \<and> found_at d2 table r k v" by blast
  have K: "KeyIndex hash (=) k d1 = Some (if r \<noteq> None then Inl r else Inr idx, d2)"
    using d2(1) s(1) by (simp add: KeyIndex_search)
  show ?thesis
  proof (cases r)
    case (Some q)
    then have "AddRaw v0 hash (=) k d = Some (Inl r, d2)" using d1(1) K by (simp add: AddRaw_def)
    then show ?thesis using d2(2) dm(1) s(2) Some by fastforce
  next
    case None
    let ?table = "if IsRehashing d2 then 1 else 0 :: nat"
    let ?h = "get_ht d2 ?table"
    define d3 where "d3 = change_bucket d2 ?table idx ((k, v0) # ht_table ?h ! idx) (ht_used ?h + 1)"
    from s(2) None have new: "k \<notin> fst ` set (entries d2)" "idx = hash k mod length (ht_table ?h)" by auto
    note p = put_entry_ok [OF d2(2,4) new(1) refl new(2) d3_def]
    have "AddRaw v0 hash (=) k d = Some (Inr (?table, idx, 0), d3)"
      using d1(1) K None p(1) by (simp add: AddRaw_def bucket_in change_bucket_def d3_def Let_def)
    moreover have "dict_map d k = None" using new(1) dm(2) by (simp add: dict_map_None)
    moreover have "\<exists>table \<le> 1. found_at d3 table (?table, idx, 0) k v0"
      using p(4) by (intro exI [of _ ?table]) simp
    ultimately show ?thesis using p(2,3) dm(1)
      by (intro exI [of _ "Inr (?table, idx, 0)"] exI [of _ d3]) simp
  qed
qed

lemma dict_Add_ok:
  assumes inv: "dict_inv hash d" and small: "length (entries d) < 2 ^ 63"
  shows "\<exists>d'. dict_Add v0 hash (=) k v d = Some (dict_map d k = None, d') \<and> dict_inv hash d' \<and>
    dict_map d' = (if dict_map d k = None then (dict_map d)(k \<mapsto> v) else dict_map d)"
proof -
  from AddRaw_ok [OF assms, of v0 k] obtain res d1 where
    a: "AddRaw v0 hash (=) k d = Some (res, d1)" "dict_inv hash d1"
      "case res of
         Inl q \<Rightarrow> dict_map d1 = dict_map d \<and> (\<exists>r v table. q = Some r \<and> table \<le> 1 \<and> found_at d1 table r k v)
       | Inr r \<Rightarrow> dict_map d k = None \<and> dict_map d1 = (dict_map d)(k \<mapsto> v0) \<and>
           (\<exists>table \<le> 1. found_at d1 table r k v0)" by blast
  show ?thesis
  proof (cases res)
    case (Inl q)
    with a(3) obtain r u table where f: "table \<le> 1" "found_at d1 table r k u" "dict_map d1 = dict_map d" by auto
    from dict_map_found [OF a(2) f(1,2)] f(3) have "dict_map d k \<noteq> None" by simp
    then show ?thesis using a(1,2) Inl f(3) by (auto simp: dict_Add_def)
  next
    case (Inr r)
    with a(3) obtain table where f: "table \<le> 1" "found_at d1 table r k v0" "dict_map d k = None"
      "dict_map d1 = (dict_map d)(k \<mapsto> v0)" by auto
    from set_entry_ok [OF a(2) f(1,2), of v] a(1) f(3,4) Inr show ?thesis by (auto simp: dict_Add_def)
  qed
qed

lemma dict_Replace_ok:
  assumes inv: "dict_inv hash d" and small: "length (entries d) < 2 ^ 63"
  shows "\<exists>d'. dict_Replace v0 hash (=) k v d = Some (dict_map d k = None, d') \<and> dict_inv hash d' \<and>
    dict_map d' = (dict_map d)(k \<mapsto> v)"
proof -
  from AddRaw_ok [OF assms, of v0 k] obtain res d1 where
    a: "AddRaw v0 hash (=) k d = Some (res, d1)" "dict_inv hash d1"
      "case res of
         Inl q \<Rightarrow> dict_map d1 = dict_map d \<and> (\<exists>r v table. q = Some r \<and> table \<le> 1 \<and> found_at d1 table r k v)
       | Inr r \<Rightarrow> dict_map d k = None \<and> dict_map d1 = (dict_map d)(k \<mapsto> v0) \<and>
           (\<exists>table \<le> 1. found_at d1 table r k v0)" by blast
  show ?thesis
  proof (cases res)
    case (Inl q)
    with a(3) obtain r u table where f: "table \<le> 1" "found_at d1 table r k u" "dict_map d1 = dict_map d"
      "q = Some r" by auto
    from dict_map_found [OF a(2) f(1,2)] f(3) have "dict_map d k \<noteq> None" by simp
    then show ?thesis using set_entry_ok [OF a(2) f(1,2), of v] a(1) f(3,4) Inl
      by (auto simp: dict_Replace_def)
  next
    case (Inr r)
    with a(3) obtain table where f: "table \<le> 1" "found_at d1 table r k v0" "dict_map d k = None"
      "dict_map d1 = (dict_map d)(k \<mapsto> v0)" by auto
    from set_entry_ok [OF a(2) f(1,2), of v] a(1) f(3,4) Inr show ?thesis by (auto simp: dict_Replace_def)
  qed
qed

lemma dict_Get_ok:
  assumes "dict_inv hash d"
  shows "\<exists>d'. dict_Get hash (=) k d = Some (dict_map d k, d') \<and> dict_inv hash d' \<and> dict_map d' = dict_map d"
proof -
  from dict_Find_ok [OF assms, of k] obtain r d' where
    f: "dict_Find hash (=) k d = Some (r, d')" "dict_inv hash d'" "dict_map d' = dict_map d"
      "case r of None \<Rightarrow> dict_map d k = None
       | Some r \<Rightarrow> \<exists>v. entry_at d' r = Some (k, v) \<and> dict_map d k = Some v" by blast
  then show ?thesis by (cases r) (auto simp: dict_Get_def)
qed

lemma Resize_ok:
  assumes inv: "dict_inv hash d" and r: "Resize d = (b, d')"
  shows "dict_inv hash d'" "dict_map d' = dict_map d"
  using Expand_ok(1,2) [OF inv] r inv dict_map_mset [OF inv, of d']
  by (auto simp: Resize_def split: if_splits)

text \<open>The number of entries is the number of keys of the map.\<close>

lemma length_entries: "dict_inv hash d \<Longrightarrow> length (entries d) = card (dom (dict_map d))"
  by (simp add: dict_inv_def dict_map_def dom_map_of_conv_image_fst distinct_card flip: set_map)

lemma clear_loop_all: "used = int (length (concat t)) \<Longrightarrow> clear_loop t used = concat t"
proof (induction t arbitrary: used)
  case (Cons he t)
  show ?case
  proof (cases "used > 0")
    case True
    then show ?thesis using Cons by simp
  next
    case False
    then have "length (concat (he # t)) = 0" using Cons.prems by linarith
    then have "concat (he # t) = []" unfolding length_0_conv .
    then show ?thesis using False by simp
  qed
qed simp

end
