(* ===== verification/Dict_Properties.thy ===== *)
theory Dict_Properties
  imports Dict_Proof
begin

text \<open>The properties of the hash table.\<close>

section \<open>Sequences of calls\<close>

datatype ('k, 'v) dict_op = DGet 'k | DAdd 'k 'v | DReplace 'k 'v | DDelete 'k | DResize

text \<open>What a call returns: the value bound to the key, or a truth value.\<close>

datatype 'v dict_answer = Val "'v option" | Flag bool

definition dict_call :: "'v \<Rightarrow> ('k :: linorder \<Rightarrow> nat) \<Rightarrow> ('k, 'v) dict_op \<Rightarrow> ('k, 'v) dict
    \<Rightarrow> ('v dict_answer \<times> ('k, 'v) dict) option" where
  "dict_call v0 mh c d = (let hash = PtrMemberHash mh; eq = PtrMemberEqual (<) in case c of
     DGet k \<Rightarrow> map_option (apfst Val) (dict_Get hash eq k d)
   | DAdd k v \<Rightarrow> map_option (apfst Flag) (dict_Add v0 hash eq k v d)
   | DReplace k v \<Rightarrow> map_option (apfst Flag) (dict_Replace v0 hash eq k v d)
   | DDelete k \<Rightarrow> map_option (apfst Flag) (dict_Delete hash eq k d)
   | DResize \<Rightarrow> Some (Flag True, snd (Resize d)))"

fun dict_calls :: "'v \<Rightarrow> ('k :: linorder \<Rightarrow> nat) \<Rightarrow> ('k, 'v) dict_op list \<Rightarrow> ('k, 'v) dict
    \<Rightarrow> ('v dict_answer list \<times> ('k, 'v) dict) option" where
  "dict_calls v0 mh [] d = Some ([], d)"
| "dict_calls v0 mh (c # cs) d = do {
     (a, d) \<leftarrow> dict_call v0 mh c d;
     (as, d) \<leftarrow> dict_calls v0 mh cs d;
     Some (a # as, d)
   }"

text \<open>The same calls on a finite map.\<close>

fun fmap_call :: "('k, 'v) dict_op \<Rightarrow> ('k \<Rightarrow> 'v option) \<Rightarrow> 'v dict_answer \<times> ('k \<Rightarrow> 'v option)" where
  "fmap_call (DGet k) m = (Val (m k), m)"
| "fmap_call (DAdd k v) m = (Flag (m k = None), if m k = None then m(k \<mapsto> v) else m)"
| "fmap_call (DReplace k v) m = (Flag (m k = None), m(k \<mapsto> v))"
| "fmap_call (DDelete k) m = (Flag (m k \<noteq> None), m(k := None))"
| "fmap_call DResize m = (Flag True, m)"

fun fmap_calls :: "('k, 'v) dict_op list \<Rightarrow> ('k \<Rightarrow> 'v option) \<Rightarrow> 'v dict_answer list \<times> ('k \<Rightarrow> 'v option)" where
  "fmap_calls [] m = ([], m)"
| "fmap_calls (c # cs) m = (let (a, m) = fmap_call c m; (as, m) = fmap_calls cs m in (a # as, m))"

lemma PtrMemberHash_eq [simp]: "PtrMemberHash mh = mh"
  by (simp add: PtrMemberHash_def fun_eq_iff)

lemma dict_call_ok:
  assumes inv: "dict_inv mh d" and small: "card (dom (dict_map d)) < 2 ^ 63"
  shows "\<exists>d'. dict_call v0 mh c d = Some (fst (fmap_call c (dict_map d)), d') \<and> dict_inv mh d' \<and>
    dict_map d' = snd (fmap_call c (dict_map d))"
proof (cases c)
  case (DGet k)
  then show ?thesis using dict_Get_ok [OF inv, of k] by (auto simp: dict_call_def)
next
  case (DAdd k v)
  then show ?thesis using dict_Add_ok [OF inv, of v0 k v] small length_entries [OF inv]
    by (auto simp: dict_call_def)
next
  case (DReplace k v)
  then show ?thesis using dict_Replace_ok [OF inv, of v0 k v] small length_entries [OF inv]
    by (auto simp: dict_call_def)
next
  case (DDelete k)
  then show ?thesis using GenericDelete_ok [OF inv, of k] by (auto simp: dict_call_def dict_Delete_def)
next
  case DResize
  then show ?thesis using Resize_ok [OF inv] by (cases "Resize d") (auto simp: dict_call_def)
qed

lemma card_dom_call:
  assumes "finite (dom m)"
  shows "finite (dom (snd (fmap_call c m))) \<and> card (dom (snd (fmap_call c m))) \<le> Suc (card (dom m))"
proof -
  have "dom (snd (fmap_call c m)) \<subseteq> (case c of DAdd k v \<Rightarrow> insert k (dom m)
      | DReplace k v \<Rightarrow> insert k (dom m) | _ \<Rightarrow> dom m)"
    by (cases c) (auto split: if_splits)
  moreover have "finite (case c of DAdd k v \<Rightarrow> insert k (dom m) | DReplace k v \<Rightarrow> insert k (dom m) | _ \<Rightarrow> dom m)"
    "card (case c of DAdd k v \<Rightarrow> insert k (dom m) | DReplace k v \<Rightarrow> insert k (dom m) | _ \<Rightarrow> dom m)
      \<le> Suc (card (dom m))"
    using assms by (auto simp: card_insert_if split: dict_op.splits)
  ultimately show ?thesis by (meson card_mono finite_subset le_trans)
qed

lemma dict_calls_ok:
  assumes "dict_inv mh d" "card (dom (dict_map d)) + length cs \<le> 2 ^ 63" "finite (dom (dict_map d))"
  shows "\<exists>d'. dict_calls v0 mh cs d = Some (fst (fmap_calls cs (dict_map d)), d') \<and> dict_inv mh d' \<and>
    dict_map d' = snd (fmap_calls cs (dict_map d))"
  using assms
proof (induction cs arbitrary: d)
  case (Cons c cs)
  have "card (dom (dict_map d)) < 2 ^ 63" using Cons.prems(2) by simp
  from dict_call_ok [OF Cons.prems(1) this, of v0 c] obtain d1 where
    1: "dict_call v0 mh c d = Some (fst (fmap_call c (dict_map d)), d1)" "dict_inv mh d1"
      "dict_map d1 = snd (fmap_call c (dict_map d))" by blast
  with card_dom_call [OF Cons.prems(3), of c] Cons.prems(2)
  have "card (dom (dict_map d1)) + length cs \<le> 2 ^ 63" "finite (dom (dict_map d1))" by auto
  from Cons.IH [OF 1(2) this] 1 show ?case by (auto simp: split_beta Let_def)
qed simp

lemma new_Dict_inv: "dict_inv hash new_Dict" "dict_map new_Dict = Map.empty"
  by (simp_all add: dict_inv_def new_Dict_def dict_map_def entries_def ResetHt_def ht_ok_def)

section \<open>Properties\<close>

text \<open>
  C15. The hash table is a finite map. Whatever sequence of lookups, insertions, replacements,
  removals and resizes is called on a new table, every call returns, touches no bucket outside
  of a table and fires no assertion, and the answers are those of a finite map; the incremental
  moves between the old and the new table are not visible. The hash function is arbitrary, the
  members are compared as through \<open>PtrMemberEqual\<close>.
\<close>

theorem dict_refines_map:
  assumes "length cs \<le> 2 ^ 63"
  shows "\<exists>d'. dict_calls v0 mh cs new_Dict = Some (fst (fmap_calls cs Map.empty), d') \<and>
    dict_map d' = snd (fmap_calls cs Map.empty)"
  using dict_calls_ok [of mh new_Dict cs v0] new_Dict_inv(1) [of mh] assms by (auto simp: new_Dict_inv(2))

theorem dict_refines_map_witness:
  "\<exists>d'. dict_calls (0 :: nat) (\<lambda>k. 5 * k) [DAdd (3 :: nat) 30, DAdd 7 70, DGet 3, DDelete 7, DGet 7] new_Dict =
      Some ([Flag True, Flag True, Val (Some 30), Flag True, Val None], d')"
  using dict_refines_map [of "[DAdd (3 :: nat) 30, DAdd 7 70, DGet 3, DDelete 7, DGet 7]" "0 :: nat" "\<lambda>k. 5 * k"]
  by auto

text \<open>
  C16. The invariant of the hash table: every operation, started in a state in which both tables
  have a power-of-two size, count their entries, hold every entry in the bucket of its hash and
  no key twice, and in which the buckets below the rehash index are empty, ends in such a state.
\<close>

theorem dict_invariant:
  assumes "dict_inv mh d" "card (dom (dict_map d)) < 2 ^ 63"
  shows "\<exists>a d'. dict_call v0 mh c d = Some (a, d') \<and> dict_inv mh d'"
  using dict_call_ok [OF assms] by blast

definition seven :: "(nat, nat) dict" where
  "seven = snd (the (dict_calls 0 (\<lambda>k. 5 * k) (map (\<lambda>k. DAdd k (10 * k)) [1, 2, 3, 4, 5, 6, 7]) new_Dict))"

lemma seven_inv: "dict_inv (\<lambda>k. 5 * k) seven" "card (dom (dict_map seven)) = 7"
proof -
  show i: "dict_inv (\<lambda>k. 5 * k) seven" by code_simp
  show "card (dom (dict_map seven)) = 7"
    unfolding length_entries [OF i, symmetric] by code_simp
qed

theorem dict_invariant_witness:
  "\<exists>a d'. dict_call 0 (\<lambda>k. 5 * k) (DAdd 8 80) seven = Some (a, d') \<and> dict_inv (\<lambda>k. 5 * k) d'"
  by (rule dict_invariant [OF seven_inv(1)]) (simp add: seven_inv(2))

fun rehash_steps :: "('k \<Rightarrow> nat) \<Rightarrow> nat \<Rightarrow> ('k, 'v) dict \<Rightarrow> ('k, 'v) dict option" where
  "rehash_steps hash 0 d = Some d"
| "rehash_steps hash (Suc n) d = do { d \<leftarrow> rehash_step hash d; rehash_steps hash n d }"

lemma rehash_steps_ok:
  assumes "dict_inv hash d" "IsRehashing d \<longrightarrow> 0 < n \<and> int (length (ht_table (ht0 d))) - rehash_idx d \<le> int n"
  shows "\<exists>d'. rehash_steps hash n d = Some d' \<and> dict_inv hash d' \<and> \<not> IsRehashing d' \<and> dict_map d' = dict_map d"
  using assms
proof (induction n arbitrary: d)
  case 0
  then show ?case by simp
next
  case (Suc n)
  from rehash_step_ok [OF Suc.prems(1)] obtain d1 where
    1: "rehash_step hash d = Some d1" "dict_inv hash d1" "mset (entries d1) = mset (entries d)"
      "IsRehashing d1 \<longrightarrow> IsRehashing d \<and> rehash_idx d < rehash_idx d1 \<and>
         length (ht_table (ht0 d1)) = length (ht_table (ht0 d)) \<and> ht_used (ht0 d1) \<noteq> 0" by blast
  then have "IsRehashing d1 \<longrightarrow> 0 < n \<and> int (length (ht_table (ht0 d1))) - rehash_idx d1 \<le> int n"
    using Suc.prems(2) rehash_idx_less [OF 1(2)] by auto
  from Suc.IH [OF 1(2) this] 1(1) dict_map_mset [OF Suc.prems(1) 1(3)] show ?case by simp
qed

text \<open>
  C17. Rehashing comes to an end: as many rehashing steps as the old table has buckets leave the
  dictionary with a single hash table, whose entries are those of the two before.
\<close>

theorem rehashing_completes:
  assumes "dict_inv hash d"
  shows "\<exists>d'. rehash_steps hash (length (ht_table (ht0 d))) d = Some d' \<and> \<not> IsRehashing d' \<and>
    ht_table (ht1 d') = [] \<and> dict_map d' = dict_map d"
proof -
  have "IsRehashing d \<longrightarrow> 0 < length (ht_table (ht0 d)) \<and>
      int (length (ht_table (ht0 d))) - rehash_idx d \<le> int (length (ht_table (ht0 d)))"
    using assms by (auto simp: dict_inv_def IsRehashing_def)
  from rehash_steps_ok [OF assms this] show ?thesis
    by (auto simp: dict_inv_def IsRehashing_def ResetHt_def)
qed

definition growing :: "(nat, nat) dict" where
  "growing = snd (the (dict_calls 0 (\<lambda>k. 5 * k) (map (\<lambda>k. DAdd k (10 * k)) [1, 2, 3, 4, 5]) new_Dict))"

theorem rehashing_completes_witness:
  "IsRehashing growing \<and> (\<exists>d'. rehash_steps (\<lambda>k. 5 * k) (length (ht_table (ht0 growing))) growing = Some d' \<and>
     \<not> IsRehashing d' \<and> dict_map d' = dict_map growing)"
proof
  show "IsRehashing growing" by code_simp
  have "dict_inv (\<lambda>k. 5 * k) growing" by code_simp
  from rehashing_completes [OF this] show "\<exists>d'. rehash_steps (\<lambda>k. 5 * k) (length (ht_table (ht0 growing))) growing = Some d' \<and>
     \<not> IsRehashing d' \<and> dict_map d' = dict_map growing" by blast
qed

text \<open>
  C18. The destructor frees every entry of the table exactly once, although its loop over the
  buckets stops as soon as the counter of the table reaches 0.
\<close>

theorem dict_destructor_frees:
  assumes "dict_inv hash d"
  shows "destroy_Dict d = entries d"
  using assms ht_ok_used [of hash "ht0 d"] ht_ok_used [of hash "ht1 d"]
  by (simp add: dict_inv_def destroy_Dict_def ClearHt_def entries_def clear_loop_all)

theorem dict_destructor_frees_witness:
  "length (destroy_Dict seven) = 7"
  unfolding dict_destructor_frees [OF seven_inv(1)] length_entries [OF seven_inv(1)] by (rule seven_inv(2))

end
