(* ===== verification/Splay_Tree.thy ===== *)
theory Splay_Tree
  imports AVL_Tree
begin

text \<open>
  The splay tree of \<open>src/cpp/gsat/ds/splay_tree/splay_tree.h\<close> (class \<open>SplayTree\<close>) in the shared
  store of trees with parent pointers; its nodes have no extra field. Splaying works on the
  nodes only, and \<open>root_\<close> is assigned afterwards. The statistics under \<open>KEY_DEPTH_STAT\<close> are not
  compiled in the benchmark. A failed \<open>Check\<close> throws, which is the result \<open>None\<close>.
\<close>

type_synonym splay_mem = "unit mem"

definition SplayNode :: "key \<Rightarrow> val \<Rightarrow> unit pnode" where
  "SplayNode k v = \<lparr>nkey = k, nval = v, nleft = NULL, nright = NULL, nparent = NULL, ntag = ()\<rparr>"

definition SplayTree :: "splay_mem \<Rightarrow> addr \<times> splay_mem" where
  "SplayTree s = new_tree s"

section \<open>Accessors that accept null\<close>

definition GetLeft :: "splay_mem \<Rightarrow> addr \<Rightarrow> addr option" where
  "GetLeft s node = (if node \<noteq> NULL then get_left s node else Some NULL)"

definition GetRight :: "splay_mem \<Rightarrow> addr \<Rightarrow> addr option" where
  "GetRight s node = (if node \<noteq> NULL then get_right s node else Some NULL)"

definition GetParent :: "splay_mem \<Rightarrow> addr \<Rightarrow> addr option" where
  "GetParent s node = (if node \<noteq> NULL then get_parent s node else Some NULL)"

definition SetParent :: "splay_mem \<Rightarrow> addr \<Rightarrow> addr \<Rightarrow> splay_mem option" where
  "SetParent s node parent = (if node \<noteq> NULL then set_parent s node parent else Some s)"

definition SetLeft :: "splay_mem \<Rightarrow> addr \<Rightarrow> addr \<Rightarrow> splay_mem option" where
  "SetLeft s node left = do {
     s \<leftarrow> (if node \<noteq> NULL then set_left s node left else Some s);
     SetParent s left node
   }"

definition SetRight :: "splay_mem \<Rightarrow> addr \<Rightarrow> addr \<Rightarrow> splay_mem option" where
  "SetRight s node right = do {
     s \<leftarrow> (if node \<noteq> NULL then set_right s node right else Some s);
     SetParent s right node
   }"

section \<open>Splaying\<close>

definition UpdateParents :: "splay_mem \<Rightarrow> addr \<Rightarrow> addr \<Rightarrow> splay_mem option" where
  "UpdateParents s parent node = do {
     grand_parent \<leftarrow> GetParent s parent;
     r \<leftarrow> GetRight s grand_parent;
     s \<leftarrow> (if r = parent then SetRight s grand_parent node else SetLeft s grand_parent node);
     SetParent s parent node
   }"

definition RotateRight :: "splay_mem \<Rightarrow> addr \<Rightarrow> splay_mem option" where
  "RotateRight s node = do {
     _ \<leftarrow> assert_that (node \<noteq> NULL);
     parent \<leftarrow> get_parent s node;
     s \<leftarrow> UpdateParents s parent node;
     r \<leftarrow> get_right s node;
     s \<leftarrow> SetLeft s parent r;
     SetRight s node parent
   }"

definition RotateLeft :: "splay_mem \<Rightarrow> addr \<Rightarrow> splay_mem option" where
  "RotateLeft s node = do {
     _ \<leftarrow> assert_that (node \<noteq> NULL);
     parent \<leftarrow> get_parent s node;
     s \<leftarrow> UpdateParents s parent node;
     l \<leftarrow> get_left s node;
     s \<leftarrow> SetRight s parent l;
     SetLeft s node parent
   }"

text \<open>The body of the loop of \<open>Splay\<close> for a node that has a parent.\<close>

definition splay_step :: "splay_mem \<Rightarrow> addr \<Rightarrow> addr \<Rightarrow> splay_mem option" where
  "splay_step s node parent = do {
     grand_parent \<leftarrow> GetParent s parent;
     pr \<leftarrow> get_right s parent;
     if grand_parent \<noteq> NULL then
       (if pr = node then do {
          gr \<leftarrow> get_right s grand_parent;
          if gr = parent then do {
            s \<leftarrow> RotateLeft s parent;
            RotateLeft s node
          }
          else do {
            s \<leftarrow> RotateLeft s node;
            RotateRight s node
          }
        }
        else do {
          gl \<leftarrow> get_left s grand_parent;
          if gl = parent then do {
            s \<leftarrow> RotateRight s parent;
            RotateRight s node
          }
          else do {
            s \<leftarrow> RotateRight s node;
            RotateLeft s node
          }
        })
     else if pr = node then RotateLeft s node
     else RotateRight s node
   }"

partial_function (option) Splay :: "splay_mem \<Rightarrow> addr \<Rightarrow> splay_mem option" where
  "Splay s node = do {
     parent \<leftarrow> GetParent s node;
     if parent \<noteq> NULL then do {
       s \<leftarrow> splay_step s node parent;
       Splay s node
     }
     else Some s
   }"

definition SplayAssign :: "splay_mem \<Rightarrow> addr \<Rightarrow> addr \<Rightarrow> splay_mem option" where
  "SplayAssign s this node = do {
     s \<leftarrow> Splay s node;
     set_root s this node
   }"

section \<open>Dictionary operations\<close>

text \<open>The node with the key (or null) and the last node passed.\<close>

partial_function (option) splay_search :: "splay_mem \<Rightarrow> key \<Rightarrow> addr \<Rightarrow> addr \<Rightarrow> (addr \<times> addr) option" where
  "splay_search s key parent node =
     (if node = NULL then Some (node, parent)
      else do {
        k \<leftarrow> get_key s node;
        if k \<noteq> key then do {
          next \<leftarrow> (if key < k then get_left s node else get_right s node);
          splay_search s key node next
        }
        else Some (node, parent)
      })"

definition FindNodeAndParent :: "splay_mem \<Rightarrow> addr \<Rightarrow> key \<Rightarrow> (addr \<times> addr) option" where
  "FindNodeAndParent s this key = do {
     root \<leftarrow> get_root s this;
     splay_search s key NULL root
   }"

definition splay_Find :: "splay_mem \<Rightarrow> addr \<Rightarrow> key \<Rightarrow> (val \<times> splay_mem) option" where
  "splay_Find s this key = do {
     (node, parent) \<leftarrow> FindNodeAndParent s this key;
     if node \<noteq> NULL then do {
       s \<leftarrow> SplayAssign s this node;
       v \<leftarrow> get_val s node;
       Some (v, s)
     }
     else do {
       s \<leftarrow> SplayAssign s this parent;
       Some (NO_VALUE, s)
     }
   }"

definition splay_Contains :: "splay_mem \<Rightarrow> addr \<Rightarrow> key \<Rightarrow> (bool \<times> splay_mem) option" where
  "splay_Contains s this key = do {
     (v, s) \<leftarrow> splay_Find s this key;
     Some (v \<noteq> NO_VALUE, s)
   }"

definition AddNode :: "splay_mem \<Rightarrow> addr \<Rightarrow> addr \<Rightarrow> addr \<Rightarrow> splay_mem option" where
  "AddNode s this parent node =
     (if parent \<noteq> NULL then do {
        k \<leftarrow> get_key s node;
        pk \<leftarrow> get_key s parent;
        if k < pk then SetLeft s parent node else SetRight s parent node
      }
      else set_root s this node)"

definition splay_Insert :: "splay_mem \<Rightarrow> addr \<Rightarrow> key \<Rightarrow> val \<Rightarrow> (val \<times> splay_mem) option" where
  "splay_Insert s this key val = do {
     (node, parent) \<leftarrow> FindNodeAndParent s this key;
     (result, node, s) \<leftarrow> (if node \<noteq> NULL then do {
         v \<leftarrow> get_val s node;
         Some (v, node, s)
       }
       else do {
         let (node, s) = new_node s (SplayNode key val);
         s \<leftarrow> AddNode s this parent node;
         Some (NO_VALUE, node, s)
       });
     s \<leftarrow> SplayAssign s this node;
     Some (result, s)
   }"

definition splay_Min :: "splay_mem \<Rightarrow> addr \<Rightarrow> addr option" where
  "splay_Min s node = do {
     _ \<leftarrow> assert_that (node \<noteq> NULL);
     leftmost s node
   }"

definition splay_Max :: "splay_mem \<Rightarrow> addr \<Rightarrow> addr option" where
  "splay_Max s node = do {
     _ \<leftarrow> assert_that (node \<noteq> NULL);
     rightmost s node
   }"

text \<open>The two subtrees of a removed node become one tree; its root.\<close>

definition delete_merge :: "splay_mem \<Rightarrow> addr \<Rightarrow> addr \<Rightarrow> (addr \<times> splay_mem) option" where
  "delete_merge s left right =
     (if left \<noteq> NULL then do {
        s \<leftarrow> set_parent s left NULL;
        new_root \<leftarrow> splay_Max s left;
        s \<leftarrow> Splay s new_root;
        s \<leftarrow> SetRight s new_root right;
        Some (new_root, s)
      }
      else if right \<noteq> NULL then do {
        s \<leftarrow> set_parent s right NULL;
        new_root \<leftarrow> splay_Min s right;
        s \<leftarrow> Splay s new_root;
        s \<leftarrow> SetLeft s new_root left;
        Some (new_root, s)
      }
      else Some (NULL, s))"

definition splay_Delete :: "splay_mem \<Rightarrow> addr \<Rightarrow> key \<Rightarrow> (val \<times> splay_mem) option" where
  "splay_Delete s this key = do {
     (node, parent) \<leftarrow> FindNodeAndParent s this key;
     if node = NULL then do {
       s \<leftarrow> SplayAssign s this parent;
       Some (NO_VALUE, s)
     }
     else do {
       s \<leftarrow> Splay s node;
       result \<leftarrow> get_val s node;
       left \<leftarrow> get_left s node;
       right \<leftarrow> get_right s node;
       s \<leftarrow> delete_node s node;
       (new_root, s) \<leftarrow> delete_merge s left right;
       s \<leftarrow> set_root s this new_root;
       Some (result, s)
     }
   }"

section \<open>Remaining members\<close>

partial_function (option) splay_Validate_node ::
    "splay_mem \<Rightarrow> addr \<Rightarrow> key option \<Rightarrow> key option \<Rightarrow> unit option" where
  "splay_Validate_node s node left right =
     (if node = NULL then Some ()
      else do {
        k \<leftarrow> get_key s node;
        _ \<leftarrow> assert_that (case left of None \<Rightarrow> True | Some a \<Rightarrow> a < k);
        _ \<leftarrow> assert_that (case right of None \<Rightarrow> True | Some b \<Rightarrow> k < b);
        v \<leftarrow> get_val s node;
        _ \<leftarrow> assert_that (v \<noteq> NO_VALUE);
        l \<leftarrow> get_left s node;
        _ \<leftarrow> splay_Validate_node s l left (Some k);
        r \<leftarrow> get_right s node;
        splay_Validate_node s r (Some k) right
      })"

definition splay_Validate :: "splay_mem \<Rightarrow> addr \<Rightarrow> unit option" where
  "splay_Validate s this = do {
     root \<leftarrow> get_root s this;
     splay_Validate_node s root None None
   }"

partial_function (option) splay_Free :: "splay_mem \<Rightarrow> addr \<Rightarrow> splay_mem option" where
  "splay_Free s node =
     (if node = NULL then Some s
      else do {
        l \<leftarrow> get_left s node;
        s \<leftarrow> splay_Free s l;
        r \<leftarrow> get_right s node;
        s \<leftarrow> splay_Free s r;
        delete_node s node
      })"

definition destroy_SplayTree :: "splay_mem \<Rightarrow> addr \<Rightarrow> splay_mem option" where
  "destroy_SplayTree s this = do {
     root \<leftarrow> get_root s this;
     s \<leftarrow> splay_Free s root;
     Some (s\<lparr>roots := (roots s)(this := None)\<rparr>)
   }"

declare Splay.simps [code] splay_search.simps [code] splay_Validate_node.simps [code]
  splay_Free.simps [code]

end
