(* ===== verification/Splay_Proof.thy ===== *)
theory Splay_Proof
  imports Splay_Tree AVL_Join
begin

text \<open>
  The correctness of splaying: the rotations along parent pointers compute a function on trees,
  \<open>splay_up\<close>, that takes the node and its context apart two frames at a time.
\<close>

section \<open>A tree whose root pointer may be out of date\<close>

text \<open>\<open>zipper\<close> without the root pointers, which \<open>Splay\<close> does not touch.\<close>

definition loose :: "('b, 'z) mem_scheme \<Rightarrow> (addr \<Rightarrow> 'b pnode option) \<Rightarrow> 'b ctx \<Rightarrow> 'b ptree \<Rightarrow> bool" where
  "loose s F c t \<longleftrightarrow> tree (hp s) (cpar c) t \<and> ctree (hp s) (ptr t) c \<and> distinct (addrs t @ caddrs c) \<and>
     owns (hp s) (brk s) F (set (addrs t @ caddrs c))"

lemma zipper_loose: "zipper s this F R c t \<longleftrightarrow> loose s F c t \<and> roots s = R(this \<mapsto> croot (ptr t) c) \<and> objs_below R this (brk s)"
  unfolding zipper_def loose_def by blast

lemma loose_FL: "loose s F (FL a k v b r # c) t = loose s F c (Nd t a k v b r)"
  unfolding loose_def by (auto simp: Un_ac insert_commute)

lemma loose_FR: "loose s F (FR l a k v b # c) t = loose s F c (Nd l a k v b t)"
  unfolding loose_def by (auto simp: Un_ac insert_commute)

lemma loose_fill: "loose s F (f # c) t = loose s F c (fill f t)"
  by (cases f) (simp_all add: loose_FL loose_FR)

lemma loose_get:
  assumes "loose s F c (Nd l a k v b r)"
  shows "get_key s a = Some k" "get_val s a = Some v" "get_left s a = Some (ptr l)"
    "get_right s a = Some (ptr r)" "get_parent s a = Some (cpar c)" "a \<noteq> NULL"
  using assms by (simp_all add: loose_def heap_defs)

lemma loose_cpar_NULL: "loose s F c t \<Longrightarrow> cpar c = NULL \<longleftrightarrow> c = []"
  by (cases c rule: ctx_cases) (auto simp: loose_def)

lemma loose_plug: "loose s F c t \<longleftrightarrow> loose s F [] (plug c t)"
  by (induction c arbitrary: t) (simp_all add: loose_fill)

lemmas splay_defs = UpdateParents_def SetLeft_def SetRight_def SetParent_def GetParent_def GetRight_def GetLeft_def
  heap_defs loose_def

text \<open>Nothing but nodes changes.\<close>

definition same_roots :: "('b, 'z) mem_scheme \<Rightarrow> ('b, 'z) mem_scheme \<Rightarrow> bool" where
  "same_roots s s' \<longleftrightarrow> roots s' = roots s \<and> brk s' = brk s"

lemma RotateRight_ok:
  assumes "loose s F (FL p kp vp bp C # c) (Nd A a k v b B)"
  shows "\<exists>s'. RotateRight s a = Some s' \<and> loose s' F c (Nd A a k v b (Nd B p kp vp bp C)) \<and> same_roots s s'"
  using assms unfolding loose_FL
  by (cases B; cases c rule: ctx_cases; clarsimp simp: loose_def; simp add: RotateRight_def splay_defs same_roots_def)

lemma RotateLeft_ok:
  assumes "loose s F (FR A p kp vp bp # c) (Nd B a k v b C)"
  shows "\<exists>s'. RotateLeft s a = Some s' \<and> loose s' F c (Nd (Nd A p kp vp bp B) a k v b C) \<and> same_roots s s'"
  using assms unfolding loose_FR
  by (cases B; cases c rule: ctx_cases; clarsimp simp: loose_def; simp add: RotateLeft_def splay_defs same_roots_def)

section \<open>Splaying\<close>

text \<open>Splaying on trees: the node goes up past two frames at a time, and past one at the end.\<close>

fun splay_up :: "'b ctx \<Rightarrow> 'b ptree \<Rightarrow> 'b ptree" where
  "splay_up (FL p kp vp bp C # FL g kg vg bg D # c) (Nd A a k v b B) =
     splay_up c (Nd A a k v b (Nd B p kp vp bp (Nd C g kg vg bg D)))"
| "splay_up (FR L p kp vp bp # FR G g kg vg bg # c) (Nd A a k v b B) =
     splay_up c (Nd (Nd (Nd G g kg vg bg L) p kp vp bp A) a k v b B)"
| "splay_up (FR L p kp vp bp # FL g kg vg bg D # c) (Nd A a k v b B) =
     splay_up c (Nd (Nd L p kp vp bp A) a k v b (Nd B g kg vg bg D))"
| "splay_up (FL p kp vp bp C # FR G g kg vg bg # c) (Nd A a k v b B) =
     splay_up c (Nd (Nd G g kg vg bg A) a k v b (Nd B p kp vp bp C))"
| "splay_up [FL p kp vp bp C] (Nd A a k v b B) = Nd A a k v b (Nd B p kp vp bp C)"
| "splay_up [FR L p kp vp bp] (Nd A a k v b B) = Nd (Nd L p kp vp bp A) a k v b B"
| "splay_up c t = plug c t"

lemma kvs_splay_up [simp]: "kvs (splay_up c t) = kvs (plug c t)"
  by (induction c t rule: splay_up.induct) simp_all

lemma splay_up_root: "\<exists>l r. splay_up c (Nd A a k v b B) = Nd l a k v b r"
  by (induction c "Nd A a k v b B" arbitrary: A B rule: splay_up.induct) auto

lemma set_addrs_splay_up: "set (addrs (splay_up c t)) = set (addrs (plug c t))"
  by (induction c t rule: splay_up.induct) (simp_all add: set_addrs_plug Un_ac insert_commute)

lemma Splay_top: "GetParent s a = Some NULL \<Longrightarrow> Splay s a = Some s"
  by (subst Splay.simps) simp

lemma Splay_next:
  "GetParent s a = Some p \<Longrightarrow> p \<noteq> NULL \<Longrightarrow> splay_step s a p = Some s' \<Longrightarrow> Splay s a = Splay s' a"
  by (subst Splay.simps) simp

lemma same_roots_trans: "same_roots s s1 \<Longrightarrow> same_roots s1 s2 \<Longrightarrow> same_roots s s2"
  by (simp add: same_roots_def)

lemma step_right_right:
  assumes "loose s F (FL p kp vp bp C # FL g kg vg bg D # c) (Nd A a k v b B)"
  shows "\<exists>s'. splay_step s a p = Some s' \<and> same_roots s s' \<and> loose s' F c (Nd A a k v b (Nd B p kp vp bp (Nd C g kg vg bg D)))"
proof -
  from assms have 1: "loose s F (FL g kg vg bg D # c) (Nd (Nd A a k v b B) p kp vp bp C)" by (simp add: loose_FL)
  then have 0: "loose s F c (Nd (Nd (Nd A a k v b B) p kp vp bp C) g kg vg bg D)" by (simp add: loose_FL)
  from RotateRight_ok [OF 1] obtain s1 where
    s1: "RotateRight s p = Some s1" "loose s1 F (FL p kp vp bp (Nd C g kg vg bg D) # c) (Nd A a k v b B)" "same_roots s s1"
    by (auto simp: loose_FL)
  from RotateRight_ok [OF s1(2)] obtain s2 where "RotateRight s1 a = Some s2"
    "loose s2 F c (Nd A a k v b (Nd B p kp vp bp (Nd C g kg vg bg D)))" "same_roots s1 s2" by blast
  moreover have "ptr C \<noteq> a" using assms by (cases C) (auto simp: loose_def)
  ultimately show ?thesis using s1 loose_get [OF 1] loose_get [OF 0] same_roots_trans
    by (auto simp: splay_step_def GetParent_def)
qed

lemma step_left_left:
  assumes "loose s F (FR L p kp vp bp # FR G g kg vg bg # c) (Nd A a k v b B)"
  shows "\<exists>s'. splay_step s a p = Some s' \<and> same_roots s s' \<and> loose s' F c (Nd (Nd (Nd G g kg vg bg L) p kp vp bp A) a k v b B)"
proof -
  from assms have 1: "loose s F (FR G g kg vg bg # c) (Nd L p kp vp bp (Nd A a k v b B))" by (simp add: loose_FR)
  then have 0: "loose s F c (Nd G g kg vg bg (Nd L p kp vp bp (Nd A a k v b B)))" by (simp add: loose_FR)
  from RotateLeft_ok [OF 1] obtain s1 where
    s1: "RotateLeft s p = Some s1" "loose s1 F (FR (Nd G g kg vg bg L) p kp vp bp # c) (Nd A a k v b B)" "same_roots s s1"
    by (auto simp: loose_FR)
  from RotateLeft_ok [OF s1(2)] obtain s2 where "RotateLeft s1 a = Some s2"
    "loose s2 F c (Nd (Nd (Nd G g kg vg bg L) p kp vp bp A) a k v b B)" "same_roots s1 s2" by blast
  with s1 loose_get [OF 1] loose_get [OF 0] same_roots_trans show ?thesis
    by (auto simp: splay_step_def GetParent_def)
qed

lemma step_left_right:
  assumes "loose s F (FR L p kp vp bp # FL g kg vg bg D # c) (Nd A a k v b B)"
  shows "\<exists>s'. splay_step s a p = Some s' \<and> same_roots s s' \<and> loose s' F c (Nd (Nd L p kp vp bp A) a k v b (Nd B g kg vg bg D))"
proof -
  from assms have 1: "loose s F (FL g kg vg bg D # c) (Nd L p kp vp bp (Nd A a k v b B))" by (simp add: loose_FR)
  then have 0: "loose s F c (Nd (Nd L p kp vp bp (Nd A a k v b B)) g kg vg bg D)" by (simp add: loose_FL)
  from RotateLeft_ok [OF assms] obtain s1 where
    s1: "RotateLeft s a = Some s1" "loose s1 F (FL g kg vg bg D # c) (Nd (Nd L p kp vp bp A) a k v b B)" "same_roots s s1"
    by blast
  from RotateRight_ok [OF s1(2)] obtain s2 where "RotateRight s1 a = Some s2"
    "loose s2 F c (Nd (Nd L p kp vp bp A) a k v b (Nd B g kg vg bg D))" "same_roots s1 s2" by blast
  moreover have "ptr D \<noteq> p" using 0 by (cases D) (auto simp: loose_def)
  ultimately show ?thesis using s1 loose_get [OF 1] loose_get [OF 0] same_roots_trans
    by (auto simp: splay_step_def GetParent_def)
qed

lemma step_right_left:
  assumes "loose s F (FL p kp vp bp C # FR G g kg vg bg # c) (Nd A a k v b B)"
  shows "\<exists>s'. splay_step s a p = Some s' \<and> same_roots s s' \<and> loose s' F c (Nd (Nd G g kg vg bg A) a k v b (Nd B p kp vp bp C))"
proof -
  from assms have 1: "loose s F (FR G g kg vg bg # c) (Nd (Nd A a k v b B) p kp vp bp C)" by (simp add: loose_FL)
  then have 0: "loose s F c (Nd G g kg vg bg (Nd (Nd A a k v b B) p kp vp bp C))" by (simp add: loose_FR)
  from RotateRight_ok [OF assms] obtain s1 where
    s1: "RotateRight s a = Some s1" "loose s1 F (FR G g kg vg bg # c) (Nd A a k v b (Nd B p kp vp bp C))" "same_roots s s1"
    by blast
  from RotateLeft_ok [OF s1(2)] obtain s2 where "RotateLeft s1 a = Some s2"
    "loose s2 F c (Nd (Nd G g kg vg bg A) a k v b (Nd B p kp vp bp C))" "same_roots s1 s2" by blast
  moreover have "ptr C \<noteq> a" "ptr G \<noteq> p" using 0 by (cases C; cases G; auto simp: loose_def)+
  ultimately show ?thesis using s1 loose_get [OF 1] loose_get [OF 0] same_roots_trans
    by (auto simp: splay_step_def GetParent_def)
qed

lemma step_top:
  "loose s F [FL p kp vp bp C] (Nd A a k v b B) \<Longrightarrow>
     \<exists>s'. splay_step s a p = Some s' \<and> same_roots s s' \<and> loose s' F [] (Nd A a k v b (Nd B p kp vp bp C))"
  "loose s F [FR L p kp vp bp] (Nd A a k v b B) \<Longrightarrow>
     \<exists>s'. splay_step s a p = Some s' \<and> same_roots s s' \<and> loose s' F [] (Nd (Nd L p kp vp bp A) a k v b B)"
proof -
  assume l: "loose s F [FL p kp vp bp C] (Nd A a k v b B)"
  then have 1: "loose s F [] (Nd (Nd A a k v b B) p kp vp bp C)" by (simp add: loose_FL)
  then have "ptr C \<noteq> a" by (cases C) (auto simp: loose_def)
  with RotateRight_ok [OF l] loose_get [OF 1] show "\<exists>s'. splay_step s a p = Some s' \<and> same_roots s s' \<and> loose s' F [] (Nd A a k v b (Nd B p kp vp bp C))"
    by (auto simp: splay_step_def GetParent_def)
next
  assume l: "loose s F [FR L p kp vp bp] (Nd A a k v b B)"
  then have 1: "loose s F [] (Nd L p kp vp bp (Nd A a k v b B))" by (simp add: loose_FR)
  with RotateLeft_ok [OF l] loose_get [OF 1] show "\<exists>s'. splay_step s a p = Some s' \<and> same_roots s s' \<and> loose s' F [] (Nd (Nd L p kp vp bp A) a k v b B)"
    by (auto simp: splay_step_def GetParent_def)
qed

lemma loose_parent: "loose s F (f # c) (Nd A a k v b B) \<Longrightarrow> GetParent s a = Some (frame_addr f) \<and> frame_addr f \<noteq> NULL"
  using loose_get [of s F "f # c" A a k v b B] loose_cpar_NULL [of s F "f # c"] by (auto simp: GetParent_def)

lemma Splay_round:
  assumes "loose s F (f # c) (Nd A a k v b B)"
    and "\<exists>s'. splay_step s a (frame_addr f) = Some s' \<and> same_roots s s' \<and> loose s' F c' u"
    and "\<And>s'. loose s' F c' u \<Longrightarrow> \<exists>s2. Splay s' a = Some s2 \<and> same_roots s' s2 \<and> loose s2 F [] w"
  shows "\<exists>s2. Splay s a = Some s2 \<and> same_roots s s2 \<and> loose s2 F [] w"
  using assms loose_parent [OF assms(1)] Splay_next same_roots_trans by metis

lemma Splay_done: "loose s F [] (Nd A a k v b B) \<Longrightarrow> \<exists>s2. Splay s a = Some s2 \<and> same_roots s s2 \<and> loose s2 F [] (Nd A a k v b B)"
  using loose_get [of s F "[]" A a k v b B] by (auto simp: Splay_top GetParent_def same_roots_def)

lemma Splay_ok:
  "loose s F c (Nd A a k v b B) \<Longrightarrow>
     \<exists>s'. Splay s a = Some s' \<and> same_roots s s' \<and> loose s' F [] (splay_up c (Nd A a k v b B))"
proof (induction c "Nd A a k v b B" arbitrary: s A B rule: splay_up.induct)
  case (1 p kp vp bp C g kg vg bg D c A B)
  from Splay_round [OF 1(2) _ 1(1)] step_right_right [OF 1(2)] show ?case by simp
next
  case (2 L p kp vp bp G g kg vg bg c A B)
  from Splay_round [OF 2(2) _ 2(1)] step_left_left [OF 2(2)] show ?case by simp
next
  case (3 L p kp vp bp g kg vg bg D c A B)
  from Splay_round [OF 3(2) _ 3(1)] step_left_right [OF 3(2)] show ?case by simp
next
  case (4 p kp vp bp C G g kg vg bg c A B)
  from Splay_round [OF 4(2) _ 4(1)] step_right_left [OF 4(2)] show ?case by simp
next
  case (5 p kp vp bp C A B)
  from Splay_round [OF 5 _ Splay_done] step_top(1) [OF 5] show ?case by simp
next
  case (6 L p kp vp bp A B)
  from Splay_round [OF 6 _ Splay_done] step_top(2) [OF 6] show ?case by simp
qed (auto dest: Splay_done)

section \<open>Find\<close>

lemma SplayAssign_ok:
  assumes "zipper s this F R c (Nd A a k v b B)"
  shows "\<exists>s'. SplayAssign s this a = Some s' \<and> holds s' this F R (splay_up c (Nd A a k v b B))"
proof -
  from assms have z: "loose s F c (Nd A a k v b B)" "roots s this \<noteq> None" "roots s = R(this \<mapsto> croot a c)" "objs_below R this (brk s)"
    by (auto simp: zipper_loose)
  from Splay_ok [OF z(1)] obtain s1 where
    s1: "Splay s a = Some s1" "same_roots s s1" "loose s1 F [] (splay_up c (Nd A a k v b B))" by blast
  obtain l r where u: "splay_up c (Nd A a k v b B) = Nd l a k v b r" using splay_up_root [of c A a k v b B] by blast
  let ?s = "s1\<lparr>roots := (roots s1)(this \<mapsto> a)\<rparr>"
  have "SplayAssign s this a = Some ?s" using s1 z(2) by (simp add: SplayAssign_def set_root_def same_roots_def)
  moreover have "holds ?s this F R (Nd l a k v b r)"
    using s1 z(3,4) u by (simp add: zipper_loose same_roots_def loose_def)
  ultimately show ?thesis using u by auto
qed

lemma splay_search_ok:
  "zipper s this F R c t \<Longrightarrow> locate x c t = (c', t') \<Longrightarrow> splay_search s x (cpar c) (ptr t) = Some (ptr t', cpar c')"
proof (induction x c t rule: locate.induct)
  case (1 x c)
  then show ?case by (subst splay_search.simps) auto
next
  case (2 x c l a k v b r)
  note g = zipper_get [OF 2(3)]
  from 2(3) have "zipper s this F R (FL a k v b r # c) l" "zipper s this F R (FR l a k v b # c) r"
    by (simp_all add: zipper_FL zipper_FR)
  with 2 g show ?case by (subst splay_search.simps) (auto split: if_splits)
qed

lemma FindNodeAndParent_ok:
  "holds s this F R t \<Longrightarrow> locate x [] t = (c, u) \<Longrightarrow> FindNodeAndParent s this x = Some (ptr u, cpar c)"
  using splay_search_ok [of s this F R "[]" t x c u] zipper_get_root [of s this F R "[]" t]
  by (simp add: FindNodeAndParent_def)

text \<open>The tree after an access to a key: the node with the key, or the last one passed, is at the root.\<close>

fun accessed :: "'b ctx \<times> 'b ptree \<Rightarrow> 'b ptree" where
  "accessed (c, Nd A a k v b B) = splay_up c (Nd A a k v b B)"
| "accessed ([], Lf) = Lf"
| "accessed (f # c, Lf) = splay_up c (fill f Lf)"

lemma kvs_accessed: "locate x [] t = (c, u) \<Longrightarrow> kvs (accessed (c, u)) = kvs t"
  using locate_plug [of x "[]" t c u] by (cases "(c, u)" rule: accessed.cases) (auto simp flip: kvs_plug)

lemma access_ok:
  assumes "holds s this F R t" "locate x [] t = (c, u)"
  shows "\<exists>s'. SplayAssign s this (if ptr u \<noteq> NULL then ptr u else cpar c) = Some s' \<and> holds s' this F R (accessed (c, u))"
proof -
  have z: "zipper s this F R c u" using locate_zipper [OF assms(2,1)] .
  show ?thesis
  proof (cases "(c, u)" rule: accessed.cases)
    case (1 c A a k v b B)
    with SplayAssign_ok [of s this F R c A a k v b B] z zipper_get [of s this F R c A a k v b B] show ?thesis by simp
  next
    case 2
    with z have "roots s = R(this \<mapsto> NULL)" by (simp add: zipper_def)
    then have "SplayAssign s this NULL = Some s"
      by (simp add: SplayAssign_def Splay_top GetParent_def set_root_def)
    with z 2 show ?thesis by simp
  next
    case (3 f c)
    with z have z': "zipper s this F R c (fill f Lf)" by (simp add: zipper_fill)
    obtain A a k v b B where f: "fill f Lf = Nd A a k v b B" "frame_addr f = a" by (cases f) auto
    with SplayAssign_ok [OF z' [unfolded f(1)]] 3 show ?thesis by simp
  qed
qed

lemma splay_Find_ok:
  assumes "holds s this F R t" "sorted_kvs (kvs t)" "locate x [] t = (c, u)"
  shows "\<exists>s'. splay_Find s this x = Some (lookup_kv (kvs t) x, s') \<and> holds s' this F R (accessed (c, u))"
proof -
  from access_ok [OF assms(1,3)] obtain s' where
    s': "SplayAssign s this (if ptr u \<noteq> NULL then ptr u else cpar c) = Some s'" "holds s' this F R (accessed (c, u))" by blast
  note lk = locate_lookup [OF assms(3,2)] and fn = FindNodeAndParent_ok [OF assms(1,3)]
  show ?thesis
  proof (cases u)
    case Lf
    with s' fn lk show ?thesis by (auto simp: splay_Find_def)
  next
    case (Nd A a k v b B)
    obtain l r where "splay_up c (Nd A a k v b B) = Nd l a k v b r" using splay_up_root [of c A a k v b B] by blast
    with s'(2) Nd have "get_val s' a = Some v" using zipper_get(2) by fastforce
    moreover have "a \<noteq> NULL" using zipper_get(7) [of s this F R c A a k v b B] locate_zipper [OF assms(3,1)] Nd by simp
    ultimately show ?thesis using s' fn lk Nd by (auto simp: splay_Find_def)
  qed
qed

section \<open>Insert\<close>

lemma AddNode_ok:
  assumes z: "zipper s this F R c Lf" and d: "all_less (cleft c) x" "all_greater x (cright c)"
    and n: "new_node s (SplayNode x v) = (a, s1)"
  shows "\<exists>s2. AddNode s1 this (cpar c) a = Some s2 \<and> zipper s2 this F R c (Nd Lf a x v () Lf)"
proof -
  have fresh: "a \<notin> set (caddrs c)" "a \<noteq> NULL" "F a = None" "a = brk s"
    using z n by (auto simp: zipper_defs heap_defs)
  have own: "owns ((hp s)(a := y)) (Suc a) F (insert a (set (caddrs c)))" for y
    using z fresh by (auto simp: zipper_defs)
  have obj: "objs_below R this (Suc a)" using z fresh by (auto simp: zipper_defs)
  show ?thesis using z d n fresh own obj
    by (cases c rule: ctx_cases; clarsimp simp: zipper_def AddNode_def SetLeft_def SetRight_def SetParent_def heap_defs SplayNode_def)
qed

lemma splay_Insert_ok:
  assumes "holds s this F R t" "sorted_kvs (kvs t)"
  shows "\<exists>s' t'. splay_Insert s this x v = Some (lookup_kv (kvs t) x, s') \<and> holds s' this F R t' \<and> kvs t' = ins_kv x v (kvs t)"
proof -
  obtain c u where l: "locate x [] t = (c, u)" by force
  note lk = locate_lookup [OF l assms(2)] and fn = FindNodeAndParent_ok [OF assms(1) l] and z = locate_zipper [OF l assms(1)]
  have b: "all_less (cleft c) x" "all_greater x (cright c)" using locate_bounds [OF l assms(2)] by simp_all
  have t: "kvs t = cleft c @ kvs u @ cright c" using locate_plug [OF l] by (simp flip: kvs_plug)
  show ?thesis
  proof (cases u)
    case Lf
    obtain a s1 where n: "new_node s (SplayNode x v) = (a, s1)" by force
    from AddNode_ok [OF z [unfolded Lf] b n] obtain s2 where
      s2: "AddNode s1 this (cpar c) a = Some s2" "zipper s2 this F R c (Nd Lf a x v () Lf)" by blast
    from SplayAssign_ok [OF s2(2)] obtain s3 where
      s3: "SplayAssign s2 this a = Some s3" "holds s3 this F R (splay_up c (Nd Lf a x v () Lf))" by blast
    have "splay_Insert s this x v = Some (lookup_kv (kvs t) x, s3)" using fn n s2(1) s3(1) lk Lf by (simp add: splay_Insert_def)
    moreover have "ins_kv x v (kvs t) = kvs (splay_up c (Nd Lf a x v () Lf))" using t b Lf ins_kv_absent [OF b] by simp
    ultimately show ?thesis using s3(2) by auto
  next
    case (Nd A a k w d B)
    then have k: "k = x" using locate_end [OF l] by simp
    note g = zipper_get [OF z [unfolded Nd]]
    from SplayAssign_ok [OF z [unfolded Nd]] obtain s3 where
      s3: "SplayAssign s this a = Some s3" "holds s3 this F R (splay_up c (Nd A a k w d B))" by blast
    have "splay_Insert s this x v = Some (lookup_kv (kvs t) x, s3)" using fn g s3(1) lk Nd by (simp add: splay_Insert_def)
    moreover have "all_less (cleft c @ kvs A) x" using assms(2) t b Nd k by auto
    then have "ins_kv x v (kvs t) = kvs t" using t Nd k ins_kv_present [of "cleft c @ kvs A" x v w "kvs B @ cright c"] by simp
    ultimately show ?thesis using s3(2) t Nd by (intro exI [of _ s3] exI [of _ "splay_up c (Nd A a k w d B)"]) simp
  qed
qed

section \<open>Delete\<close>

lemma splay_up_right_spine: "right_spine c \<Longrightarrow> \<exists>L. splay_up c (Nd A a k v b B) = Nd L a k v b B"
  by (induction c "Nd A a k v b B" arbitrary: A B rule: splay_up.induct) auto

lemma splay_up_left_spine: "left_spine c \<Longrightarrow> \<exists>L. splay_up c (Nd A a k v b B) = Nd A a k v b L"
  by (induction c "Nd A a k v b B" arbitrary: A B rule: splay_up.induct) auto

lemma left_spine_append [simp]: "left_spine (c @ d) \<longleftrightarrow> left_spine c \<and> left_spine d"
  by (induction c rule: left_spine.induct) auto

lemma rightmost_spine:
  assumes "tree (hp s) p t" "t \<noteq> Lf"
  shows "\<exists>c A a k v b. rightmost s (ptr t) = Some a \<and> right_spine c \<and> t = plug c (Nd A a k v b Lf)"
  using assms
proof (induction t arbitrary: p)
  case (Nd l a k v b r)
  show ?case
  proof (cases "r = Lf")
    case True
    with Nd(3) have "rightmost s a = Some a" by (subst rightmost.simps) (simp add: heap_defs)
    with True show ?thesis by (intro exI [of _ "[]"]) auto
  next
    case False
    from Nd(3) have tr: "tree (hp s) a r" by simp
    from Nd(2) [OF tr False] obtain c A m k' v' b' where
      c: "rightmost s (ptr r) = Some m" "right_spine c" "r = plug c (Nd A m k' v' b' Lf)" by blast
    have "rightmost s a = Some m" using Nd(3) c(1) False ptr_NULL_iff [OF tr] by (subst rightmost.simps) (simp add: heap_defs)
    with c show ?thesis
      by (intro exI [of _ "c @ [FR l a k v b]"] exI [of _ A] exI [of _ m] exI [of _ k'] exI [of _ v'] exI [of _ b']) (simp add: plug_append)
  qed
qed simp

lemma leftmost_spine:
  assumes "tree (hp s) p t" "t \<noteq> Lf"
  shows "\<exists>c A a k v b. leftmost s (ptr t) = Some a \<and> left_spine c \<and> t = plug c (Nd Lf a k v b A)"
  using assms
proof (induction t arbitrary: p)
  case (Nd l a k v b r)
  show ?case
  proof (cases "l = Lf")
    case True
    with Nd(3) have "leftmost s a = Some a" by (subst leftmost.simps) (simp add: heap_defs)
    with True show ?thesis by (intro exI [of _ "[]"]) auto
  next
    case False
    from Nd(3) have tr: "tree (hp s) a l" by simp
    from Nd(1) [OF tr False] obtain c A m k' v' b' where
      c: "leftmost s (ptr l) = Some m" "left_spine c" "l = plug c (Nd Lf m k' v' b' A)" by blast
    have "leftmost s a = Some m" using Nd(3) c(1) False ptr_NULL_iff [OF tr] by (subst leftmost.simps) (simp add: heap_defs)
    with c show ?thesis
      by (intro exI [of _ "c @ [FL a k v b r]"] exI [of _ A] exI [of _ m] exI [of _ k'] exI [of _ v'] exI [of _ b']) (simp add: plug_append)
  qed
qed simp

text \<open>Two trees without a common root; and one of them seen as the rest of the store.\<close>

definition pair_of :: "('b, 'z) mem_scheme \<Rightarrow> (addr \<Rightarrow> 'b pnode option) \<Rightarrow> addr \<Rightarrow> 'b ptree \<Rightarrow> addr \<Rightarrow> 'b ptree \<Rightarrow> bool" where
  "pair_of s F p l q r \<longleftrightarrow> tree (hp s) p l \<and> tree (hp s) q r \<and> distinct (addrs l @ addrs r) \<and>
     owns (hp s) (brk s) F (set (addrs l @ addrs r))"

lemma pair_of_delete:
  assumes "loose s F [] (Nd l a k v b r)"
  shows "delete_node s a = Some (s\<lparr>hp := (hp s)(a := None)\<rparr>)" "pair_of (s\<lparr>hp := (hp s)(a := None)\<rparr>) F a l a r"
  using assms by (auto simp: loose_def pair_of_def heap_defs intro!: owns_delete)

lemma pair_of_swap: "pair_of s F p l q r = pair_of s F q r p l"
  by (auto simp: pair_of_def Un_commute)

abbreviation rest :: "('b, 'z) mem_scheme \<Rightarrow> (addr \<Rightarrow> 'b pnode option) \<Rightarrow> 'b ptree \<Rightarrow> addr \<Rightarrow> 'b pnode option" where
  "rest s F r \<equiv> F ++ (hp s |` set (addrs r))"

lemma pair_of_loose:
  assumes p: "pair_of s F p l q r" and l: "l \<noteq> Lf"
  shows "\<exists>s'. set_parent s (ptr l) NULL = Some s' \<and> loose s' (rest s F r) [] l \<and> same_roots s s'"
proof -
  obtain A a k v b B where [simp]: "l = Nd A a k v b B" using l by (cases l) auto
  let ?h = "(hp s)(a \<mapsto> \<lparr>nkey = k, nval = v, nleft = ptr A, nright = ptr B, nparent = NULL, ntag = b\<rparr>)"
  from p have "set_parent s a NULL = Some (s\<lparr>hp := ?h\<rparr>)" by (simp add: pair_of_def heap_defs)
  moreover have "owns ?h (brk s) (rest s F r) (set (addrs l))"
    using p unfolding pair_of_def owns_def by (auto simp: map_add_def restrict_map_def split: option.splits if_splits)
  then have "loose (s\<lparr>hp := ?h\<rparr>) (rest s F r) [] l" using p by (simp add: loose_def pair_of_def) blast
  ultimately show ?thesis by (simp add: same_roots_def)
qed

lemma rest_at:
  assumes "tree h q r" "\<And>a. a \<in> set (addrs r) \<Longrightarrow> F a = None"
    and "loose s (F ++ (h |` set (addrs r))) [] t"
  shows "tree (hp s) q r" "set (addrs t) \<inter> set (addrs r) = {}" "owns (hp s) (brk s) F (set (addrs t) \<union> set (addrs r))"
proof -
  have i: "(F ++ (h |` set (addrs r))) a = h a \<and> h a \<noteq> None" if "a \<in> set (addrs r)" for a
    using tree_in_dom [OF assms(1) that] that by (auto simp: map_add_def restrict_map_def)
  have o: "owns (hp s) (brk s) (F ++ (h |` set (addrs r))) (set (addrs t))" using assms(3) by (simp add: loose_def)
  show d: "set (addrs t) \<inter> set (addrs r) = {}" using ownsD(2) [OF o] i by fastforce
  have "hp s a = h a" if "a \<in> set (addrs r)" for a using ownsD(1) [OF o, of a] d i that by auto
  with assms(1) show "tree (hp s) q r" using tree_cong [of r "hp s" h q] by simp
  have f: "(F ++ (h |` set (addrs r))) x = F x" if "x \<notin> set (addrs r)" for x
    using that by (simp add: map_add_def restrict_map_def)
  show "owns (hp s) (brk s) F (set (addrs t) \<union> set (addrs r))"
    unfolding owns_def
  proof (intro conjI allI ballI impI)
    show "hp s x = F x" if "x \<notin> set (addrs t) \<union> set (addrs r)" for x using ownsD(1) [OF o, of x] f that by simp
    show "F x = None" "x \<noteq> NULL" "x < brk s" if "x \<in> set (addrs t) \<union> set (addrs r)" for x
      using that ownsD(2) [OF o, of x] ownsD(3) [OF o, of x] i [of x] assms(2) [of x] by auto
    show "x \<noteq> NULL" "x < brk s" if "F x \<noteq> None" for x
      using ownsD(3) [OF o, of x] f [of x] i [of x] that by (cases "x \<in> set (addrs r)"; simp)+
  qed
qed

lemma attach_right:
  assumes "tree h q r" "distinct (addrs r)" "\<And>a. a \<in> set (addrs r) \<Longrightarrow> F a = None"
    and "loose s (F ++ (h |` set (addrs r))) [] (Nd l a k v b Lf)"
  shows "\<exists>s'. SetRight s a (ptr r) = Some s' \<and> loose s' F [] (Nd l a k v b r) \<and> same_roots s s'"
proof -
  note d = rest_at [OF assms(1,3,4)]
  show ?thesis using assms(2,4) d
    by (cases r; clarsimp simp: loose_def; simp add: splay_defs same_roots_def Un_ac insert_commute)
qed

lemma attach_left:
  assumes "loose s F [] (Nd Lf a k v b r)"
  shows "\<exists>s'. SetLeft s a NULL = Some s' \<and> loose s' F [] (Nd Lf a k v b r) \<and> same_roots s s'"
  using assms by (clarsimp simp: loose_def) (simp add: splay_defs same_roots_def fun_upd_idem)

lemma merge_left:
  assumes p: "pair_of s F p l q r" and l: "l \<noteq> Lf"
  shows "\<exists>s' t. delete_merge s (ptr l) (ptr r) = Some (ptr t, s') \<and> loose s' F [] t \<and> same_roots s s' \<and> kvs t = kvs l @ kvs r"
proof -
  from pair_of_loose [OF assms] obtain s1 where
    s1: "set_parent s (ptr l) NULL = Some s1" "loose s1 (rest s F r) [] l" "same_roots s s1" by blast
  from s1(2) have "tree (hp s1) NULL l" by (simp add: loose_def)
  from rightmost_spine [OF this l] obtain c A m k v b where
    m: "rightmost s1 (ptr l) = Some m" "right_spine c" "l = plug c (Nd A m k v b Lf)" by blast
  obtain L where L: "splay_up c (Nd A m k v b Lf) = Nd L m k v b Lf" using splay_up_right_spine [OF m(2)] by blast
  have "loose s1 (rest s F r) c (Nd A m k v b Lf)" using s1(2) m(3) loose_plug by metis
  from Splay_ok [OF this] L obtain s2 where
    s2: "Splay s1 m = Some s2" "same_roots s1 s2" "loose s2 (rest s F r) [] (Nd L m k v b Lf)" by auto
  from p have r: "tree (hp s) q r" "distinct (addrs r)" "\<And>a. a \<in> set (addrs r) \<Longrightarrow> F a = None"
    by (auto simp: pair_of_def owns_def)
  from attach_right [OF r s2(3)] obtain s3 where
    s3: "SetRight s2 m (ptr r) = Some s3" "loose s3 F [] (Nd L m k v b r)" "same_roots s2 s3" by blast
  have "ptr l \<noteq> NULL" using p l ptr_NULL_iff by (auto simp: pair_of_def)
  then have "delete_merge s (ptr l) (ptr r) = Some (ptr (Nd L m k v b r), s3)"
    using s1(1) m(1) s2(1) s3(1) by (simp add: delete_merge_def splay_Max_def)
  moreover have "kvs (Nd L m k v b r) = kvs l @ kvs r" using L m(3) kvs_splay_up [of c "Nd A m k v b Lf"] by simp
  ultimately show ?thesis using s1(3) s2(2) s3 same_roots_trans by blast
qed

lemma merge_right:
  assumes p: "pair_of s F p Lf q r" and r: "r \<noteq> Lf"
  shows "\<exists>s' t. delete_merge s NULL (ptr r) = Some (ptr t, s') \<and> loose s' F [] t \<and> same_roots s s' \<and> kvs t = kvs r"
proof -
  from pair_of_loose [OF p [unfolded pair_of_swap [of _ _ _ Lf]] r] obtain s1 where
    s1: "set_parent s (ptr r) NULL = Some s1" "loose s1 F [] r" "same_roots s s1" by auto
  from s1(2) have "tree (hp s1) NULL r" by (simp add: loose_def)
  from leftmost_spine [OF this r] obtain c A m k v b where
    m: "leftmost s1 (ptr r) = Some m" "left_spine c" "r = plug c (Nd Lf m k v b A)" by blast
  obtain L where L: "splay_up c (Nd Lf m k v b A) = Nd Lf m k v b L" using splay_up_left_spine [OF m(2)] by blast
  have "loose s1 F c (Nd Lf m k v b A)" using s1(2) m(3) loose_plug by metis
  from Splay_ok [OF this] L obtain s2 where
    s2: "Splay s1 m = Some s2" "same_roots s1 s2" "loose s2 F [] (Nd Lf m k v b L)" by auto
  from attach_left [OF s2(3)] obtain s3 where
    s3: "SetLeft s2 m NULL = Some s3" "loose s3 F [] (Nd Lf m k v b L)" "same_roots s2 s3" by blast
  have "ptr r \<noteq> NULL" using p r ptr_NULL_iff by (auto simp: pair_of_def)
  then have "delete_merge s NULL (ptr r) = Some (ptr (Nd Lf m k v b L), s3)"
    using s1(1) m(1) s2(1) s3(1) by (simp add: delete_merge_def splay_Min_def)
  moreover have "kvs (Nd Lf m k v b L) = kvs r" using L m(3) kvs_splay_up [of c "Nd Lf m k v b A"] by simp
  ultimately show ?thesis using s1(3) s2(2) s3 same_roots_trans by blast
qed

lemma delete_merge_ok:
  assumes p: "pair_of s F p l q r"
  shows "\<exists>s' t. delete_merge s (ptr l) (ptr r) = Some (ptr t, s') \<and> loose s' F [] t \<and> same_roots s s' \<and> kvs t = kvs l @ kvs r"
proof (cases "l = Lf")
  case l: True
  show ?thesis
  proof (cases "r = Lf")
    case True
    have "loose s F [] Lf" using p l True by (simp add: loose_def pair_of_def)
    with l True show ?thesis by (intro exI [of _ s] exI [of _ Lf]) (simp add: delete_merge_def same_roots_def)
  next
    case False
    with merge_right [OF _ False] p l show ?thesis by auto
  qed
next
  case False
  from merge_left [OF p False] show ?thesis .
qed

lemma splay_Delete_ok:
  assumes h: "holds s this F R t" "sorted_kvs (kvs t)"
  shows "\<exists>s' t'. splay_Delete s this x = Some (lookup_kv (kvs t) x, s') \<and> holds s' this F R t' \<and> kvs t' = del_kv x (kvs t)"
proof -
  obtain c u where l: "locate x [] t = (c, u)" by force
  note lk = locate_lookup [OF l h(2)] and fn = FindNodeAndParent_ok [OF h(1) l] and z = locate_zipper [OF l h(1)]
  have b: "all_less (cleft c) x" "all_greater x (cright c)" using locate_bounds [OF l h(2)] by simp_all
  have t: "kvs t = cleft c @ kvs u @ cright c" using locate_plug [OF l] by (simp flip: kvs_plug)
  show ?thesis
  proof (cases u)
    case Lf
    from access_ok [OF h(1) l] Lf obtain s' where "SplayAssign s this (cpar c) = Some s'" "holds s' this F R (accessed (c, Lf))" by auto
    moreover have "del_kv x (kvs t) = kvs t" using t b Lf by (simp add: kv_simps)
    ultimately show ?thesis using fn lk Lf kvs_accessed [OF l] by (auto simp: splay_Delete_def)
  next
    case (Nd A a k v d B)
    then have k: "k = x" using locate_end [OF l] by simp
    from z Nd have lo: "loose s F c (Nd A a k v d B)" "objs_below R this (brk s)" "roots s = R(this \<mapsto> croot a c)" by (auto simp: zipper_loose)
    obtain L Q where S: "splay_up c (Nd A a k v d B) = Nd L a k v d Q" using splay_up_root [of c A a k v d B] by blast
    from Splay_ok [OF lo(1)] S obtain s1 where
      s1: "Splay s a = Some s1" "same_roots s s1" "loose s1 F [] (Nd L a k v d Q)" by auto
    note g = loose_get [OF s1(3)] and de = pair_of_delete [OF s1(3)]
    from delete_merge_ok [OF de(2)] obtain s2 t' where
      s2: "delete_merge (s1\<lparr>hp := (hp s1)(a := None)\<rparr>) (ptr L) (ptr Q) = Some (ptr t', s2)" "loose s2 F [] t'"
        "same_roots (s1\<lparr>hp := (hp s1)(a := None)\<rparr>) s2" "kvs t' = kvs L @ kvs Q" by blast
    let ?s = "s2\<lparr>roots := (roots s2)(this \<mapsto> ptr t')\<rparr>"
    have "splay_Delete s this x = Some (lookup_kv (kvs t) x, ?s)"
      using fn Nd g de(1) s1 s2 lk lo(3) by (simp add: splay_Delete_def same_roots_def set_root_def)
    moreover have "holds ?s this F R t'" using s1(2) s2(2,3) lo by (simp add: zipper_loose same_roots_def loose_def)
    moreover have e: "kvs t = kvs L @ (x, v) # kvs Q" using t S Nd k kvs_splay_up [of c "Nd A a k v d B"] by simp
    then have "kvs t' = del_kv x (kvs t)" using h(2) s2(4) by (simp add: kv_simps)
    ultimately show ?thesis by blast
  qed
qed

end
