(* ===== verification/Splay_Cost.thy ===== *)
theory Splay_Cost
  imports Splay_Proof Complex_Main
begin

text \<open>
  The amortised cost of splaying. The program is run with a counter of the rotations it makes;
  the potential of a tree is the sum of the logarithms of the sizes of its subtrees.
\<close>

section \<open>Counting rotations\<close>

text \<open>\<open>Splay\<close> with a counter: a round makes two rotations if the node has a grandparent, else one.\<close>

partial_function (option) Splay_count :: "splay_mem \<Rightarrow> addr \<Rightarrow> (nat \<times> splay_mem) option" where
  "Splay_count s node = do {
     parent \<leftarrow> GetParent s node;
     if parent \<noteq> NULL then do {
       grand_parent \<leftarrow> GetParent s parent;
       s \<leftarrow> splay_step s node parent;
       (n, s) \<leftarrow> Splay_count s node;
       Some (n + (if grand_parent \<noteq> NULL then 2 else 1), s)
     }
     else Some (0, s)
   }"

definition Find_count :: "splay_mem \<Rightarrow> addr \<Rightarrow> key \<Rightarrow> (nat \<times> splay_mem) option" where
  "Find_count s this key = do {
     (node, parent) \<leftarrow> FindNodeAndParent s this key;
     (n, s) \<leftarrow> Splay_count s (if node \<noteq> NULL then node else parent);
     s \<leftarrow> set_root s this (if node \<noteq> NULL then node else parent);
     Some (n, s)
   }"

fun Finds_count :: "splay_mem \<Rightarrow> addr \<Rightarrow> key list \<Rightarrow> (nat \<times> splay_mem) option" where
  "Finds_count s this [] = Some (0, s)"
| "Finds_count s this (k # ks) = do {
     (n, s) \<leftarrow> Find_count s this k;
     (m, s) \<leftarrow> Finds_count s this ks;
     Some (n + m, s)
   }"

text \<open>The same accesses without the counter.\<close>

fun splay_Finds :: "splay_mem \<Rightarrow> addr \<Rightarrow> key list \<Rightarrow> (val list \<times> splay_mem) option" where
  "splay_Finds s this [] = Some ([], s)"
| "splay_Finds s this (k # ks) = do {
     (v, s) \<leftarrow> splay_Find s this k;
     (vs, s) \<leftarrow> splay_Finds s this ks;
     Some (v # vs, s)
   }"

lemma Splay_count_done: "loose s F [] (Nd A a k v b B) \<Longrightarrow> Splay_count s a = Some (0, s) \<and> Splay s a = Some s"
  using loose_get [of s F "[]" A a k v b B] by (subst Splay_count.simps) (simp add: Splay_top GetParent_def)

lemma Splay_count_round:
  assumes "loose s F (f # c) (Nd A a k v b B)" "n = (if c = [] then 1 else 2)"
    and "\<exists>s'. splay_step s a (frame_addr f) = Some s' \<and> same_roots s s' \<and> loose s' F d u"
    and "\<And>s'. loose s' F d u \<Longrightarrow> \<exists>s2. Splay_count s' a = Some (m, s2) \<and> Splay s' a = Some s2"
  shows "\<exists>s2. Splay_count s a = Some (m + n, s2) \<and> Splay s a = Some s2"
proof -
  note p = loose_parent [OF assms(1)]
  obtain l x y z t r where fl: "fill f (Nd A a k v b B) = Nd l (frame_addr f) x y z r" by (cases f) auto
  have "loose s F c (Nd l (frame_addr f) x y z r)" using assms(1) fl by (simp add: loose_fill)
  with loose_get [OF this] loose_cpar_NULL [OF this] p
  have gp: "\<exists>q. GetParent s (frame_addr f) = Some q \<and> (q = NULL \<longleftrightarrow> c = [])" by (auto simp: GetParent_def)
  from assms(3,4) obtain s1 s2 where
    s: "splay_step s a (frame_addr f) = Some s1" "Splay_count s1 a = Some (m, s2)" "Splay s1 a = Some s2" by blast
  have "Splay_count s a = Some (m + n, s2)"
    using p gp s assms(2) by (subst Splay_count.simps) auto
  with s p Splay_next show ?thesis by metis
qed

lemma Splay_count_ok:
  "loose s F c (Nd A a k v b B) \<Longrightarrow> \<exists>s'. Splay_count s a = Some (length c, s') \<and> Splay s a = Some s'"
proof (induction c "Nd A a k v b B" arbitrary: s A B rule: splay_up.induct)
  case (1 p kp vp bp C g kg vg bg D c A B)
  from Splay_count_round [OF 1(2) refl _ 1(1)] step_right_right [OF 1(2)] show ?case by simp
next
  case (2 L p kp vp bp G g kg vg bg c A B)
  from Splay_count_round [OF 2(2) refl _ 2(1)] step_left_left [OF 2(2)] show ?case by simp
next
  case (3 L p kp vp bp g kg vg bg D c A B)
  from Splay_count_round [OF 3(2) refl _ 3(1)] step_left_right [OF 3(2)] show ?case by simp
next
  case (4 p kp vp bp C G g kg vg bg c A B)
  from Splay_count_round [OF 4(2) refl _ 4(1)] step_right_left [OF 4(2)] show ?case by simp
next
  case (5 p kp vp bp C A B)
  have "\<exists>s2. Splay_count s a = Some (0 + 1, s2) \<and> Splay s a = Some s2"
    using Splay_count_round [OF 5, of 1 "[]" _ 0] step_top(1) [OF 5] Splay_count_done by fastforce
  then show ?case by simp
next
  case (6 L p kp vp bp A B)
  have "\<exists>s2. Splay_count s a = Some (0 + 1, s2) \<and> Splay s a = Some s2"
    using Splay_count_round [OF 6, of 1 "[]" _ 0] step_top(2) [OF 6] Splay_count_done by fastforce
  then show ?case by simp
qed (auto dest: Splay_count_done)

section \<open>The potential\<close>

fun size1 :: "'b ptree \<Rightarrow> real" where
  "size1 Lf = 1"
| "size1 (Nd l a k v b r) = size1 l + size1 r"

fun potential :: "'b ptree \<Rightarrow> real" where
  "potential Lf = 0"
| "potential (Nd l a k v b r) = potential l + potential r + log 2 (size1 (Nd l a k v b r))"

lemma size1_kvs: "size1 t = real (length (kvs t)) + 1"
  by (induction t) auto

lemma size1_ge_1 [simp]: "1 \<le> size1 t"
  by (simp add: size1_kvs)

lemma size1_pos [simp]: "0 < size1 t"
  by (simp add: size1_kvs)

text \<open>A subtree may be replaced by one of the same size: the potential changes by the difference.\<close>

lemma potential_plug:
  "size1 t = size1 u \<Longrightarrow> potential (plug c t) - potential t = potential (plug c u) - potential u \<and>
     size1 (plug c t) = size1 (plug c u)"
proof (induction c arbitrary: t u)
  case (Cons f c)
  have "size1 (fill f t) = size1 (fill f u)" "potential (fill f t) - potential t = potential (fill f u) - potential u"
    using Cons.prems by (cases f; simp)+
  with Cons.IH [of "fill f t" "fill f u"] show ?case by simp
qed simp

lemma log_sum: 
  assumes "0 < x" "0 < y"
  shows "log 2 x + log 2 y \<le> 2 * log 2 (x + y) - 2"
proof -
  have "0 \<le> (x - y) ^ 2" by simp
  then have "4 * (x * y) \<le> (x + y) ^ 2" by (simp add: power2_eq_square algebra_simps)
  then have "log 2 (4 * (x * y)) \<le> log 2 ((x + y) ^ 2)" using assms by (subst log_le_cancel_iff) auto
  moreover have "log 2 (4 * (x * y)) = 2 + log 2 x + log 2 y" using assms log_pow_cancel [of 2 2] by (simp add: log_mult)
  moreover have "log 2 ((x + y) ^ 2) = 2 * log 2 (x + y)" using assms by (simp add: log_nat_power)
  ultimately show ?thesis by simp
qed

lemma round_arith:
  fixes x g p p' T :: real
  shows "x + g \<le> 2 * T - 2 \<Longrightarrow> p' \<le> T \<Longrightarrow> x \<le> p \<Longrightarrow> 2 + p' + g - x - p \<le> 3 * (T - x)"
    "p' + g \<le> 2 * T - 2 \<Longrightarrow> x \<le> p \<Longrightarrow> x \<le> T \<Longrightarrow> 2 + p' + g - x - p \<le> 3 * (T - x)"
  by simp_all

text \<open>The two kinds of rounds, on the sizes of the subtrees involved.\<close>

lemma zig_zig_bound:
  fixes x y z w :: real
  assumes "0 < x" "0 < y" "0 < z" "0 < w"
  shows "2 + log 2 (y + (z + w)) + log 2 (z + w) - log 2 (x + y) - log 2 (x + y + z) \<le>
    3 * (log 2 (x + y + z + w) - log 2 (x + y))"
proof (rule round_arith(1))
  show "log 2 (x + y) + log 2 (z + w) \<le> 2 * log 2 (x + y + z + w) - 2" using log_sum [of "x + y" "z + w"] assms by (simp add: add.assoc)
  show "log 2 (y + (z + w)) \<le> log 2 (x + y + z + w)" "log 2 (x + y) \<le> log 2 (x + y + z)" using assms by simp_all
qed

lemma zig_zag_bound:
  fixes x y z w :: real
  assumes "0 < x" "0 < y" "0 < z" "0 < w"
  shows "2 + log 2 (z + x) + log 2 (y + w) - log 2 (x + y) - log 2 (z + (x + y)) \<le>
    3 * (log 2 (z + (x + y) + w) - log 2 (x + y))"
proof (rule round_arith(2))
  show "log 2 (z + x) + log 2 (y + w) \<le> 2 * log 2 (z + (x + y) + w) - 2" using log_sum [of "z + x" "y + w"] assms by (simp add: add_ac)
  show "log 2 (x + y) \<le> log 2 (z + (x + y))" "log 2 (x + y) \<le> log 2 (z + (x + y) + w)" using assms by simp_all
qed

lemma zig_bound:
  fixes x y z :: real
  assumes "0 < x" "0 < y" "0 < z"
  shows "log 2 (y + z) - log 2 (x + y) \<le> 3 * (log 2 (x + y + z) - log 2 (x + y))"
proof -
  have "log 2 (y + z) \<le> log 2 (x + y + z)" "log 2 (x + y) \<le> log 2 (x + y + z)" using assms by simp_all
  then show ?thesis by (simp only: right_diff_distrib)
qed

lemma splay_up_potential:
  "real (length c) + potential (splay_up c (Nd A a k v b B)) - potential (plug c (Nd A a k v b B)) \<le>
     3 * (log 2 (size1 (plug c (Nd A a k v b B))) - log 2 (size1 (Nd A a k v b B))) + 1"
proof (induction c "Nd A a k v b B" arbitrary: A B rule: splay_up.induct)
  case (1 p kp vp bp C g kg vg bg D c A B)
  let ?t = "Nd (Nd (Nd A a k v b B) p kp vp bp C) g kg vg bg D" and ?u = "Nd A a k v b (Nd B p kp vp bp (Nd C g kg vg bg D))"
  have "potential (plug c ?u) - potential ?u = potential (plug c ?t) - potential ?t" "size1 (plug c ?u) = size1 (plug c ?t)"
    using potential_plug [of ?u ?t c] by simp_all
  moreover have "2 + potential ?u - potential ?t \<le> 3 * (log 2 (size1 ?u) - log 2 (size1 (Nd A a k v b B)))"
    using zig_zig_bound [of "size1 A" "size1 B" "size1 C" "size1 D"] by (simp add: add.assoc)
  ultimately show ?case using 1 by simp
next
  case (2 L p kp vp bp G g kg vg bg c A B)
  let ?t = "Nd G g kg vg bg (Nd L p kp vp bp (Nd A a k v b B))" and ?u = "Nd (Nd (Nd G g kg vg bg L) p kp vp bp A) a k v b B"
  have "potential (plug c ?u) - potential ?u = potential (plug c ?t) - potential ?t" "size1 (plug c ?u) = size1 (plug c ?t)"
    using potential_plug [of ?u ?t c] by simp_all
  moreover have "2 + potential ?u - potential ?t \<le> 3 * (log 2 (size1 ?u) - log 2 (size1 (Nd A a k v b B)))"
    using zig_zig_bound [of "size1 B" "size1 A" "size1 L" "size1 G"] by (simp add: add_ac)
  ultimately show ?case using 2 by simp
next
  case (3 L p kp vp bp g kg vg bg D c A B)
  let ?t = "Nd (Nd L p kp vp bp (Nd A a k v b B)) g kg vg bg D" and ?u = "Nd (Nd L p kp vp bp A) a k v b (Nd B g kg vg bg D)"
  have "potential (plug c ?u) - potential ?u = potential (plug c ?t) - potential ?t" "size1 (plug c ?u) = size1 (plug c ?t)"
    using potential_plug [of ?u ?t c] by simp_all
  moreover have "2 + potential ?u - potential ?t \<le> 3 * (log 2 (size1 ?u) - log 2 (size1 (Nd A a k v b B)))"
    using zig_zag_bound [of "size1 A" "size1 B" "size1 L" "size1 D"] by (simp add: add_ac)
  ultimately show ?case using 3 by simp
next
  case (4 p kp vp bp C G g kg vg bg c A B)
  let ?t = "Nd G g kg vg bg (Nd (Nd A a k v b B) p kp vp bp C)" and ?u = "Nd (Nd G g kg vg bg A) a k v b (Nd B p kp vp bp C)"
  have "potential (plug c ?u) - potential ?u = potential (plug c ?t) - potential ?t" "size1 (plug c ?u) = size1 (plug c ?t)"
    using potential_plug [of ?u ?t c] by simp_all
  moreover have "2 + potential ?u - potential ?t \<le> 3 * (log 2 (size1 ?u) - log 2 (size1 (Nd A a k v b B)))"
    using zig_zag_bound [of "size1 B" "size1 A" "size1 C" "size1 G"] by (simp add: add_ac)
  ultimately show ?case using 4 by simp
next
  case (5 p kp vp bp C A B)
  show ?case using zig_bound [of "size1 A" "size1 B" "size1 C"] by (simp add: add_ac)
next
  case (6 L p kp vp bp A B)
  show ?case using zig_bound [of "size1 B" "size1 A" "size1 L"] by (simp add: add_ac)
qed simp_all

section \<open>Sequences of accesses\<close>

lemma potential_nonneg: "0 \<le> potential t"
proof (induction t)
  case (Nd l a k v b r)
  have "1 \<le> size1 l + size1 r" using size1_ge_1 [of l] size1_pos [of r] by linarith
  then have "0 \<le> log 2 (size1 l + size1 r)" by simp
  with Nd show ?case by simp
qed simp

lemma potential_bound: "potential t \<le> real (length (kvs t)) * log 2 (size1 t)"
proof (induction t)
  case (Nd l a k v b r)
  have "log 2 (size1 l) \<le> log 2 (size1 l + size1 r)" "log 2 (size1 r) \<le> log 2 (size1 l + size1 r)"
    using size1_pos [of l] size1_pos [of r] log_le_cancel_iff [of 2 "size1 l" "size1 l + size1 r"]
      log_le_cancel_iff [of 2 "size1 r" "size1 l + size1 r"] by linarith+
  then have "real (length (kvs l)) * log 2 (size1 l) \<le> real (length (kvs l)) * log 2 (size1 l + size1 r)"
    "real (length (kvs r)) * log 2 (size1 r) \<le> real (length (kvs r)) * log 2 (size1 l + size1 r)"
    by (simp_all add: mult_left_mono)
  with Nd show ?case by (simp add: algebra_simps)
qed simp

lemma accessed_potential:
  assumes "locate x [] t = (c, u)"
  obtains c' A a k v b B where "t = plug c' (Nd A a k v b B)" "accessed (c, u) = splay_up c' (Nd A a k v b B)"
    "(if u \<noteq> Lf then ptr u else cpar c) = a"
  | "t = Lf" "accessed (c, u) = Lf" "u = Lf" "c = []"
proof (cases "(c, u)" rule: accessed.cases)
  case (1 c A a k v b B)
  with locate_plug [OF assms] that(1) [of c A a k v b B] show thesis by auto
next
  case 2
  with locate_plug [OF assms] that(2) show thesis by auto
next
  case (3 f c)
  obtain A a k v b B where f: "fill f Lf = Nd A a k v b B" "frame_addr f = a" by (cases f) auto
  with 3 locate_plug [OF assms] that(1) [of c A a k v b B] show thesis by auto
qed

lemma Find_assign:
  assumes "holds s this F R t" "locate x [] t = (c, u)" "sorted_kvs (kvs t)"
    and "SplayAssign s this (if ptr u \<noteq> NULL then ptr u else cpar c) = Some s'"
  shows "splay_Find s this x = Some (lookup_kv (kvs t) x, s')"
proof -
  from splay_Find_ok [OF assms(1,3,2)] obtain s1 where "splay_Find s this x = Some (lookup_kv (kvs t) x, s1)" by blast
  with FindNodeAndParent_ok [OF assms(1,2)] assms(4) show ?thesis
    by (auto simp: splay_Find_def split: if_splits bind_splits)
qed

lemma Find_count_ok:
  assumes "holds s this F R t" "locate x [] t = (c, u)" "sorted_kvs (kvs t)"
  shows "\<exists>n s'. Find_count s this x = Some (n, s') \<and> splay_Find s this x = Some (lookup_kv (kvs t) x, s') \<and>
    holds s' this F R (accessed (c, u)) \<and>
    real n + potential (accessed (c, u)) - potential t \<le> 1 + 3 * log 2 (size1 t)"
proof (cases rule: accessed_potential [OF assms(2)])
  case (1 c' A a k v b B)
  have z: "zipper s this F R c' (Nd A a k v b B)" using assms(1) 1(1) zipper_plug by metis
  from SplayAssign_ok [OF z] 1(2) obtain s' where s': "SplayAssign s this a = Some s'" "holds s' this F R (accessed (c, u))" by auto
  from z have "loose s F c' (Nd A a k v b B)" by (simp add: zipper_loose)
  from Splay_count_ok [OF this] obtain s1 where s1: "Splay_count s a = Some (length c', s1)" "Splay s a = Some s1" by blast
  have "ptr u \<noteq> NULL \<longleftrightarrow> u \<noteq> Lf" using zipper_ptr_NULL [OF locate_zipper [OF assms(2,1)]] by simp
  then have "Find_count s this x = Some (length c', s')"
    using FindNodeAndParent_ok [OF assms(1,2)] s1 s'(1) 1(3) by (simp add: Find_count_def SplayAssign_def)
  moreover have "splay_Find s this x = Some (lookup_kv (kvs t) x, s')"
    using Find_assign [OF assms] s'(1) 1(3) \<open>ptr u \<noteq> NULL \<longleftrightarrow> u \<noteq> Lf\<close> by simp
  moreover have "0 \<le> log 2 (size1 (Nd A a k v b B))" using size1_ge_1 [of "Nd A a k v b B"] zero_le_log_cancel_iff [of 2 "size1 (Nd A a k v b B)"] by simp
  with splay_up_potential [of c' A a k v b B] 1(1,2)
  have "real (length c') + potential (accessed (c, u)) - potential t \<le> 1 + 3 * log 2 (size1 t)" by (simp only: right_diff_distrib)
  ultimately show ?thesis using s'(2) by blast
next
  case 2
  from access_ok [OF assms(1,2)] 2 obtain s' where s': "SplayAssign s this NULL = Some s'" "holds s' this F R Lf" by auto
  have "Splay_count s NULL = Some (0, s)" "Splay s NULL = Some s"
    by (subst Splay_count.simps, simp add: GetParent_def) (simp add: Splay_top GetParent_def)
  with FindNodeAndParent_ok [OF assms(1,2)] s'(1) 2 have "Find_count s this x = Some (0, s')"
    by (simp add: Find_count_def SplayAssign_def)
  with Find_assign [OF assms, of s'] s' 2 show ?thesis by (intro exI [of _ 0] exI [of _ s']) simp
qed

lemma Finds_count_ok:
  assumes "holds s this F R t" "sorted_kvs (kvs t)"
  shows "\<exists>n s' t'. Finds_count s this xs = Some (n, s') \<and> splay_Finds s this xs = Some (map (lookup_kv (kvs t)) xs, s') \<and>
    holds s' this F R t' \<and> kvs t' = kvs t \<and>
    real n + potential t' - potential t \<le> real (length xs) * (1 + 3 * log 2 (size1 t))"
  using assms
proof (induction xs arbitrary: s t)
  case Nil
  then show ?case by (intro exI [of _ 0] exI [of _ s] exI [of _ t]) simp
next
  case (Cons x xs)
  obtain c u where l: "locate x [] t = (c, u)" by force
  from Find_count_ok [OF Cons.prems(1) l Cons.prems(2)] obtain n s1 where
    1: "Find_count s this x = Some (n, s1)" "splay_Find s this x = Some (lookup_kv (kvs t) x, s1)" "holds s1 this F R (accessed (c, u))"
      "real n + potential (accessed (c, u)) - potential t \<le> 1 + 3 * log 2 (size1 t)" by blast
  have k: "kvs (accessed (c, u)) = kvs t" using kvs_accessed [OF l] .
  then have z: "size1 (accessed (c, u)) = size1 t" by (simp add: size1_kvs)
  from Cons.IH [OF 1(3)] Cons.prems(2) obtain m s2 t' where
    2: "Finds_count s1 this xs = Some (m, s2)" "splay_Finds s1 this xs = Some (map (lookup_kv (kvs t)) xs, s2)"
      "holds s2 this F R t'" "kvs t' = kvs t"
      "real m + potential t' - potential (accessed (c, u)) \<le> real (length xs) * (1 + 3 * log 2 (size1 t))"
    unfolding k z by blast
  have "real (n + m) + potential t' - potential t \<le> real (length (x # xs)) * (1 + 3 * log 2 (size1 t))"
    using 1(4) 2(5) by (simp add: algebra_simps)
  with 1(1,2) 2 show ?case by (intro exI [of _ "n + m"] exI [of _ s2] exI [of _ t']) simp
qed

end
