(* ===== verification/Splay_Properties.thy ===== *)
theory Splay_Properties
  imports Splay_Cost IOSet AVL_Members
begin

text \<open>
  The properties of the splay tree: splaying along parent pointers is the reference function on
  trees, the class is a finite map, a sequence of accesses makes logarithmically many rotations
  each on average, \<open>Validate\<close> accepts what it should, and the destructor frees every node.
\<close>

section \<open>Calls\<close>

fun splay_call :: "splay_mem \<Rightarrow> addr \<Rightarrow> set_op \<Rightarrow> (val \<times> splay_mem) option" where
  "splay_call s this (Find k) = splay_Find s this k"
| "splay_call s this (Insert k v) = splay_Insert s this k v"
| "splay_call s this (Erase k) = splay_Delete s this k"

fun splay_calls :: "splay_mem \<Rightarrow> addr \<Rightarrow> set_op list \<Rightarrow> (val list \<times> splay_mem) option" where
  "splay_calls s this [] = Some ([], s)"
| "splay_calls s this (c # cs) = do {
     (v, s) \<leftarrow> splay_call s this c;
     (vs, s) \<leftarrow> splay_calls s this cs;
     Some (v # vs, s)
   }"

definition splay_rep :: "splay_mem \<Rightarrow> addr \<Rightarrow> kv_list \<Rightarrow> bool" where
  "splay_rep s this xs \<longleftrightarrow> (\<exists>F R t. holds s this F R t \<and> kvs t = xs) \<and> sorted_kvs xs"

lemma splay_call_ok:
  assumes "splay_rep s this xs"
  shows "\<exists>s' ys. splay_call s this c = Some (fst (map_call (map_of xs) c), s') \<and>
    map_of ys = snd (map_call (map_of xs) c) \<and> splay_rep s' this ys"
proof -
  from assms obtain F R t where t: "holds s this F R t" "kvs t = xs" "sorted_kvs xs" unfolding splay_rep_def by blast
  show ?thesis
  proof (cases c)
    case (Find k)
    obtain d u where l: "locate k [] t = (d, u)" by force
    from splay_Find_ok [OF t(1) _ l] t obtain s' where
      "splay_Find s this k = Some (lookup_kv xs k, s')" "holds s' this F R (accessed (d, u))" by auto
    with Find t kvs_accessed [OF l] show ?thesis
      by (intro exI [of _ s'] exI [of _ xs]) (auto simp: lookup_kv_map splay_rep_def)
  next
    case (Insert k v)
    from splay_Insert_ok [OF t(1), of k v] t(2,3) obtain s' t' where
      "splay_Insert s this k v = Some (lookup_kv xs k, s')" "holds s' this F R t'" "kvs t' = ins_kv k v xs" by auto
    with Insert t(3) sorted_ins_kv [OF t(3)] map_of_ins_kv [OF t(3), of k v] show ?thesis
      by (intro exI [of _ s'] exI [of _ "ins_kv k v xs"]) (auto simp: lookup_kv_map splay_rep_def)
  next
    case (Erase k)
    from splay_Delete_ok [OF t(1), of k] t(2,3) obtain s' t' where
      "splay_Delete s this k = Some (lookup_kv xs k, s')" "holds s' this F R t'" "kvs t' = del_kv k xs" by auto
    with Erase t(3) sorted_del_kv [OF t(3)] map_of_del_kv [of k xs] show ?thesis
      by (intro exI [of _ s'] exI [of _ "del_kv k xs"]) (auto simp: lookup_kv_map splay_rep_def)
  qed
qed

lemma splay_calls_ok:
  "splay_rep s this xs \<Longrightarrow> \<exists>s' ys. splay_calls s this cs = Some (fst (map_calls (map_of xs) cs), s') \<and> splay_rep s' this ys"
proof (induction cs arbitrary: s xs)
  case Nil
  then show ?case by auto
next
  case (Cons c cs)
  from splay_call_ok [OF Cons.prems, of c] obtain s1 ys where
    1: "splay_call s this c = Some (fst (map_call (map_of xs) c), s1)" "map_of ys = snd (map_call (map_of xs) c)" "splay_rep s1 this ys" by blast
  from Cons.IH [OF 1(3)] obtain s2 zs where
    "splay_calls s1 this cs = Some (fst (map_calls (map_of ys) cs), s2)" "splay_rep s2 this zs" by blast
  with 1 show ?case by (intro exI [of _ s2] exI [of _ zs]) (simp add: split_beta Let_def)
qed

lemma SplayTree_rep: "splay_rep (snd (SplayTree empty_mem)) (fst (SplayTree empty_mem)) []"
proof -
  have "holds (snd (SplayTree empty_mem)) (fst (SplayTree empty_mem)) Map.empty Map.empty Lf"
    by (auto simp: SplayTree_def new_tree_def empty_mem_def zipper_defs NULL_def)
  then show ?thesis unfolding splay_rep_def by fastforce
qed

section \<open>Validation and destruction\<close>

lemma Validate_node_ok:
  "zipper s this F R c t \<Longrightarrow>
     splay_Validate_node s (ptr t) lo hi =
       (if (\<forall>x \<in> set (kvs t). snd x \<noteq> NO_VALUE \<and> (\<forall>a. lo = Some a \<longrightarrow> a < fst x) \<and> (\<forall>b. hi = Some b \<longrightarrow> fst x < b)) \<and> sorted_kvs (kvs t)
        then Some () else None)"
proof (induction t arbitrary: c lo hi)
  case Lf
  show ?case by (subst splay_Validate_node.simps) simp
next
  case (Nd l a k v b r)
  note g = zipper_get [OF Nd.prems]
  from Nd.prems have z: "zipper s this F R (FL a k v b r # c) l" "zipper s this F R (FR l a k v b # c) r" by (simp_all add: zipper_FL zipper_FR)
  note IH = Nd.IH(1) [OF z(1), of lo "Some k"] Nd.IH(2) [OF z(2), of "Some k" hi]
  show ?case
    by (subst splay_Validate_node.simps)
      (use g IH in \<open>fastforce simp: kv_before_def all_less_def all_greater_def assert_that_def split: option.splits\<close>)
qed

lemma splay_Free_ok:
  assumes "tree (hp s) p t" "distinct (addrs t)"
  shows "splay_Free s (ptr t) = Some (s\<lparr>hp := hp s |` (- set (addrs t))\<rparr>)"
  using assms
proof (induction t arbitrary: s p)
  case Lf
  show ?case by (subst splay_Free.simps) simp
next
  case (Nd l a k v b r)
  have a: "a \<noteq> NULL" "hp s a = Some \<lparr>nkey = k, nval = v, nleft = ptr l, nright = ptr r, nparent = p, ntag = b\<rparr>"
    and lr: "tree (hp s) a l" "tree (hp s) a r" "distinct (addrs l)" "distinct (addrs r)" using Nd.prems by auto
  let ?s1 = "s\<lparr>hp := hp s |` (- set (addrs l))\<rparr>"
  have "tree (hp s) a r = tree (hp ?s1) a r"
    by (rule tree_cong) (use Nd.prems in \<open>auto simp: restrict_map_def\<close>)
  with Nd.IH(2) [of ?s1 a] lr have s2: "splay_Free ?s1 (ptr r) = Some (?s1\<lparr>hp := hp ?s1 |` (- set (addrs r))\<rparr>)" by simp
  have "(hp s |` (- set (addrs l)) |` (- set (addrs r)))(a := None) = hp s |` (- set (addrs (Nd l a k v b r)))"
    by (auto simp: fun_eq_iff restrict_map_def)
  then show ?case using a s2 Nd.IH(1) [OF lr(1,3)] Nd.prems
    by (subst splay_Free.simps) (simp add: heap_defs restrict_map_def)
qed

section \<open>A memory\<close>

text \<open>A chain of three nodes, the smallest key deepest.\<close>

definition chain :: splay_mem where
  "chain = \<lparr>hp = [2 \<mapsto> \<lparr>nkey = 5, nval = 50, nleft = NULL, nright = NULL, nparent = 3, ntag = ()\<rparr>,
                 3 \<mapsto> \<lparr>nkey = 6, nval = 60, nleft = 2, nright = NULL, nparent = 4, ntag = ()\<rparr>,
                 4 \<mapsto> \<lparr>nkey = 7, nval = 70, nleft = 3, nright = NULL, nparent = NULL, ntag = ()\<rparr>],
           roots = [1 \<mapsto> 4], brk = 5\<rparr>"

lemma chain_zipper: "zipper chain 1 Map.empty Map.empty [FL 3 6 60 () Lf, FL 4 7 70 () Lf] (Nd Lf 2 5 50 () Lf)"
  by (auto simp: chain_def zipper_defs NULL_def)

lemma chain_holds: "holds chain 1 Map.empty Map.empty (Nd (Nd (Nd Lf 2 5 50 () Lf) 3 6 60 () Lf) 4 7 70 () Lf)"
  using chain_zipper by (simp add: zipper_FL)

text \<open>The same with keys that are not in order.\<close>

definition unordered :: splay_mem where
  "unordered = chain\<lparr>hp := (hp chain)(2 \<mapsto> \<lparr>nkey = 9, nval = 50, nleft = NULL, nright = NULL, nparent = 3, ntag = ()\<rparr>)\<rparr>"

lemma unordered_holds: "holds unordered 1 Map.empty Map.empty (Nd (Nd (Nd Lf 2 9 50 () Lf) 3 6 60 () Lf) 4 7 70 () Lf)"
  by (auto simp: unordered_def chain_def zipper_defs NULL_def)

section \<open>Properties\<close>

text \<open>
  C27. Splaying a node of a tree in memory by rotations along the parent pointers ends, and the
  tree it leaves is the one the functional definition \<open>splay_up\<close> computes: the node is at the root,
  and the pairs of the tree are in the same order as before.
\<close>

theorem splay_equivalence:
  assumes "zipper s this F R c (Nd A a k v b B)"
  shows "\<exists>s'. SplayAssign s this a = Some s' \<and> holds s' this F R (splay_up c (Nd A a k v b B)) \<and>
    (\<exists>l r. splay_up c (Nd A a k v b B) = Nd l a k v b r) \<and>
    kvs (splay_up c (Nd A a k v b B)) = kvs (plug c (Nd A a k v b B))"
  using SplayAssign_ok [OF assms] splay_up_root [of c A a k v b B] kvs_splay_up [of c "Nd A a k v b B"] by blast

theorem splay_equivalence_witness:
  "\<exists>s'. SplayAssign chain 1 2 = Some s' \<and>
     holds s' 1 Map.empty Map.empty (Nd Lf 2 5 50 () (Nd Lf 3 6 60 () (Nd Lf 4 7 70 () Lf)))"
  using splay_equivalence [OF chain_zipper] by auto

text \<open>
  C28. The splay tree is a finite map: any sequence of Find, Insert and Delete calls on a new tree
  returns, and returns what a finite map returns, although every call rearranges the tree.
\<close>

theorem splay_refines_map:
  "\<exists>s'. splay_calls (snd (SplayTree empty_mem)) (fst (SplayTree empty_mem)) cs = Some (fst (map_calls Map.empty cs), s')"
  using splay_calls_ok [OF SplayTree_rep, of cs] by auto

text \<open>
  C29. A sequence of Find calls on a tree of \<open>n\<close> keys, run with a counter of rotations, makes at most \<open>1 + 3 log (n + 1)\<close> rotations each,
  up to a total of \<open>n log (n + 1)\<close> that pays for the shape of the tree at the start.
\<close>

theorem splay_amortised:
  assumes "holds s this F R t" "sorted_kvs (kvs t)"
  shows "\<exists>m s'. Finds_count s this xs = Some (m, s') \<and> splay_Finds s this xs = Some (map (lookup_kv (kvs t)) xs, s') \<and>
    real m \<le> real (length xs) * (1 + 3 * log 2 (real (length (kvs t)) + 1)) +
      real (length (kvs t)) * log 2 (real (length (kvs t)) + 1)"
proof -
  from Finds_count_ok [OF assms, of xs] obtain m s' t' where
    "Finds_count s this xs = Some (m, s')" "splay_Finds s this xs = Some (map (lookup_kv (kvs t)) xs, s')"
    "real m + potential t' - potential t \<le> real (length xs) * (1 + 3 * log 2 (size1 t))"
    "holds s' this F R t'" by blast
  moreover from this(3) have "real m \<le> real (length xs) * (1 + 3 * log 2 (size1 t)) + real (length (kvs t)) * log 2 (size1 t)"
    using potential_nonneg [of t'] potential_bound [of t] by linarith
  ultimately show ?thesis unfolding size1_kvs by blast
qed

theorem splay_amortised_witness:
  "\<exists>m s'. Finds_count chain 1 [5, 6, 7, 8] = Some (m, s') \<and> m \<le> 34"
proof -
  have "log 2 (4 :: real) = 2" using log_pow_cancel [of "2 :: real" 2] by simp
  with splay_amortised [OF chain_holds, of "[5, 6, 7, 8]"] show ?thesis by auto
qed

text \<open>
  C30. \<open>Validate\<close> checks what it is meant to, on any tree in memory, in search order or not: it
  returns without a failed check exactly when the keys are strictly increasing from left to right
  and no value is \<open>NO_VALUE\<close>.
\<close>

theorem splay_validates:
  assumes "holds s this F R t"
  shows "splay_Validate s this = Some () \<longleftrightarrow> sorted_kvs (kvs t) \<and> (\<forall>(k, v) \<in> set (kvs t). v \<noteq> NO_VALUE)"
proof -
  have "splay_Validate s this = splay_Validate_node s (ptr t) None None"
    using zipper_get_root [OF assms] by (simp add: splay_Validate_def)
  with Validate_node_ok [OF assms, of None None] show ?thesis by auto
qed

text \<open>The chain passes; with the key 9 at its deepest node, left of larger nodes, it does not.\<close>

theorem splay_validates_witness:
  "splay_Validate chain 1 = Some () \<and> splay_Validate unordered 1 \<noteq> Some ()"
  using splay_validates [OF chain_holds] splay_validates [OF unordered_holds] by (simp add: sorted_kvs_def)

text \<open>
  C31. The destructor of a splay tree frees all of its nodes, no other node, and never touches a
  node it has freed.
\<close>

theorem splay_destructor_frees:
  assumes "holds s this F R t"
  shows "\<exists>s'. destroy_SplayTree s this = Some s' \<and> hp s' = F \<and> roots s' = R(this := None)"
proof -
  from assms have t: "tree (hp s) NULL t" "distinct (addrs t)" "owns (hp s) (brk s) F (set (addrs t))" "roots s = R(this \<mapsto> ptr t)"
    by (auto simp: zipper_def)
  have "hp s |` (- set (addrs t)) = F" using t(3) unfolding owns_def by (auto simp: fun_eq_iff restrict_map_def)
  with splay_Free_ok [OF t(1,2)] t(4) show ?thesis by (simp add: destroy_SplayTree_def get_root_def)
qed

theorem splay_destructor_frees_witness:
  "\<exists>s'. destroy_SplayTree chain 1 = Some s' \<and> hp s' = Map.empty"
  using splay_destructor_frees [OF chain_holds] by blast

end
