(* ===== verification/BST_Glock.thy ===== *)
theory BST_Glock
  imports Rec_Mgr
begin

text \<open>
  The external binary search tree under one global lock of
  \<open>src/cpp/ds/brown_ext_bst_glock/bst_glock_impl.h\<close> (class \<open>bst_glock\<close>) with the lock of
  \<open>src/cpp/common/locks_impl.h\<close>. The pairs are in the leaves; an inner node has the key of a leaf
  to steer the search, and \<open>NO_KEY\<close> stands for a key above all others. A thread that finds the
  lock taken waits; a call that would wait forever has no result. The node allocation is that
  of the record manager.
\<close>

section \<open>State\<close>

record gnode =
  g_value :: val
  g_key :: key
  g_left :: addr
  g_right :: addr

record 'r glock =
  g_nodes :: "addr \<Rightarrow> gnode option"
  g_root :: addr
  g_lock :: bool
  g_rm :: 'r
  g_NO_KEY :: key

definition g_deref :: "'r glock \<Rightarrow> addr \<Rightarrow> gnode option" where
  "g_deref s p = (if p = NULL then None else g_nodes s p)"

definition acquireLock :: "'r glock \<Rightarrow> 'r glock option" where
  "acquireLock s = (if g_lock s then None else Some (s\<lparr>g_lock := True\<rparr>))"

definition releaseLock :: "'r glock \<Rightarrow> 'r glock" where
  "releaseLock s = s\<lparr>g_lock := False\<rparr>"

definition createNode :: "'r recmgr_ops \<Rightarrow> 'r glock \<Rightarrow> key \<Rightarrow> val \<Rightarrow> addr \<Rightarrow> addr \<Rightarrow> addr \<times> 'r glock" where
  "createNode rm s key val left right = (case rm_allocate rm (g_rm s) of (a, r) \<Rightarrow>
     (a, s\<lparr>g_nodes := (g_nodes s)(a \<mapsto> \<lparr>g_value = val, g_key = key, g_left = left, g_right = right\<rparr>),
           g_rm := r\<rparr>))"

definition g_set_left :: "'r glock \<Rightarrow> addr \<Rightarrow> addr \<Rightarrow> 'r glock option" where
  "g_set_left s p q = do {
     n \<leftarrow> g_deref s p;
     Some (s\<lparr>g_nodes := (g_nodes s)(p \<mapsto> n\<lparr>g_left := q\<rparr>)\<rparr>)
   }"

definition g_set_right :: "'r glock \<Rightarrow> addr \<Rightarrow> addr \<Rightarrow> 'r glock option" where
  "g_set_right s p q = do {
     n \<leftarrow> g_deref s p;
     Some (s\<lparr>g_nodes := (g_nodes s)(p \<mapsto> n\<lparr>g_right := q\<rparr>)\<rparr>)
   }"

definition g_set_value :: "'r glock \<Rightarrow> addr \<Rightarrow> val \<Rightarrow> 'r glock option" where
  "g_set_value s p v = do {
     n \<leftarrow> g_deref s p;
     Some (s\<lparr>g_nodes := (g_nodes s)(p \<mapsto> n\<lparr>g_value := v\<rparr>)\<rparr>)
   }"

text \<open>The constructor: a root over one leaf, both with the key \<open>NO_KEY\<close>.\<close>

definition bst_glock :: "'r recmgr_ops \<Rightarrow> key \<Rightarrow> 'r \<Rightarrow> 'r glock" where
  "bst_glock rm no_key r =
     (let s = \<lparr>g_nodes = \<lambda>_. None, g_root = NULL, g_lock = False, g_rm = r, g_NO_KEY = no_key\<rparr>;
          (rootleft, s) = createNode rm s no_key NO_VALUE NULL NULL;
          (root, s) = createNode rm s no_key NO_VALUE rootleft NULL
      in s\<lparr>g_root := root\<rparr>)"

section \<open>Searching\<close>

text \<open>\<open>(p->key == NO_KEY || cmp(key, p->key)) ? p->left : p->right\<close>\<close>

definition g_child :: "'r glock \<Rightarrow> key \<Rightarrow> addr \<Rightarrow> addr option" where
  "g_child s key p = do {
     n \<leftarrow> g_deref s p;
     Some (if g_key n = g_NO_KEY s \<or> key < g_key n then g_left n else g_right n)
   }"

text \<open>The loop down to a leaf: its grandparent, its parent and the leaf.\<close>

partial_function (option) g_search :: "'r glock \<Rightarrow> key \<Rightarrow> addr \<Rightarrow> addr \<Rightarrow> addr \<Rightarrow> (addr \<times> addr \<times> addr) option" where
  "g_search s key gp p l = do {
     n \<leftarrow> g_deref s l;
     if g_left n \<noteq> NULL then do {
       c \<leftarrow> g_child s key l;
       g_search s key p l c
     }
     else Some (gp, p, l)
   }"

definition glock_find :: "'r glock \<Rightarrow> key \<Rightarrow> ((val \<times> bool) \<times> 'r glock) option" where
  "glock_find s key = do {
     s \<leftarrow> acquireLock s;
     nr \<leftarrow> g_deref s (g_root s);
     np \<leftarrow> g_deref s (g_left nr);
     if g_left np = NULL then Some ((NO_VALUE, False), releaseLock s)
     else do {
       (_, _, l) \<leftarrow> g_search s key (g_root s) (g_left nr) (g_left np);
       nl \<leftarrow> g_deref s l;
       Some (if key = g_key nl then (g_value nl, True) else (NO_VALUE, False), releaseLock s)
     }
   }"

definition glock_contains :: "'r glock \<Rightarrow> key \<Rightarrow> (bool \<times> 'r glock) option" where
  "glock_contains s key = map_option (\<lambda>(r, s). (snd r, s)) (glock_find s key)"

section \<open>Updates\<close>

definition doInsert :: "'r recmgr_ops \<Rightarrow> 'r glock \<Rightarrow> key \<Rightarrow> val \<Rightarrow> bool \<Rightarrow> (val \<times> 'r glock) option" where
  "doInsert rm s key val onlyIfAbsent = do {
     s \<leftarrow> acquireLock s;
     nr \<leftarrow> g_deref s (g_root s);
     (_, p, l) \<leftarrow> g_search s key NULL (g_root s) (g_left nr);
     nl \<leftarrow> g_deref s l;
     if key = g_key nl then do {
       s \<leftarrow> (if \<not> onlyIfAbsent then g_set_value s l val else Some s);
       Some (g_value nl, releaseLock s)
     }
     else do {
       let (newLeaf, s) = createNode rm s key val NULL NULL;
       let (newParent, s) = (if g_key nl = g_NO_KEY s \<or> key < g_key nl
         then createNode rm s (g_key nl) (g_value nl) newLeaf l
         else createNode rm s key val l newLeaf);
       np \<leftarrow> g_deref s p;
       s \<leftarrow> (if l = g_left np then g_set_left s p newParent else g_set_right s p newParent);
       Some (NO_VALUE, releaseLock s)
     }
   }"

definition glock_insert :: "'r recmgr_ops \<Rightarrow> 'r glock \<Rightarrow> key \<Rightarrow> val \<Rightarrow> (val \<times> 'r glock) option" where
  "glock_insert rm s key val = doInsert rm s key val False"

definition glock_insertIfAbsent :: "'r recmgr_ops \<Rightarrow> 'r glock \<Rightarrow> key \<Rightarrow> val \<Rightarrow> (val \<times> 'r glock) option" where
  "glock_insertIfAbsent rm s key val = doInsert rm s key val True"

definition glock_erase :: "'r recmgr_ops \<Rightarrow> 'r glock \<Rightarrow> key \<Rightarrow> ((val \<times> bool) \<times> 'r glock) option" where
  "glock_erase rm s key = do {
     s \<leftarrow> acquireLock s;
     nr \<leftarrow> g_deref s (g_root s);
     np \<leftarrow> g_deref s (g_left nr);
     if g_left np = NULL then Some ((NO_VALUE, False), releaseLock s)
     else do {
       (gp, p, l) \<leftarrow> g_search s key (g_root s) (g_left nr) (g_left np);
       nl \<leftarrow> g_deref s l;
       if key \<noteq> g_key nl then Some ((NO_VALUE, False), releaseLock s)
       else do {
         np \<leftarrow> g_deref s p;
         ng \<leftarrow> g_deref s gp;
         let sib = (if l = g_left np then g_right np else g_left np);
         s \<leftarrow> (if p = g_left ng then g_set_left s gp sib else g_set_right s gp sib);
         let s = s\<lparr>g_rm := rm_retire rm (rm_retire rm (g_rm s) p) l\<rparr>;
         Some ((g_value nl, True), releaseLock s)
       }
     }
   }"

section \<open>Destruction\<close>

partial_function (option) dfsDeallocateBottomUp :: "'r recmgr_ops \<Rightarrow> 'r glock \<Rightarrow> addr \<Rightarrow> 'r glock option" where
  "dfsDeallocateBottomUp rm s u =
     (if u = NULL then Some s
      else do {
        n \<leftarrow> g_deref s u;
        s \<leftarrow> (if g_left n \<noteq> NULL then do {
            s \<leftarrow> dfsDeallocateBottomUp rm s (g_left n);
            n \<leftarrow> g_deref s u;
            dfsDeallocateBottomUp rm s (g_right n)
          } else Some s);
        _ \<leftarrow> g_deref s u;
        Some (s\<lparr>g_nodes := (g_nodes s)(u := None), g_rm := rm_deallocate rm (g_rm s) u\<rparr>)
      })"

definition destroy_bst_glock :: "'r recmgr_ops \<Rightarrow> 'r glock \<Rightarrow> 'r glock option" where
  "destroy_bst_glock rm s = dfsDeallocateBottomUp rm s (g_root s)"

declare g_search.simps [code] dfsDeallocateBottomUp.simps [code]

end
