(* ===== verification/Glock_Proof.thy ===== *)
theory Glock_Proof
  imports BST_Glock
begin

text \<open>
  The correctness of the external tree under a global lock. The store is read as a tree whose
  nodes carry their addresses; a search goes down to a leaf and leaves a context behind, and an
  update replaces the subtree in the hole of that context.
\<close>

section \<open>Trees in the store\<close>

datatype gtree = GNil | GN (gaddr0: addr) key val gtree gtree

abbreviation GL :: "addr \<Rightarrow> key \<Rightarrow> val \<Rightarrow> gtree" where
  "GL a k v \<equiv> GN a k v GNil GNil"

fun gaddr :: "gtree \<Rightarrow> addr" where
  "gaddr GNil = NULL"
| "gaddr (GN a k v l r) = a"

type_synonym gheap = "addr \<Rightarrow> gnode option"

fun gt_at :: "gheap \<Rightarrow> gtree \<Rightarrow> bool" where
  "gt_at h GNil = True"
| "gt_at h (GN a k v l r) \<longleftrightarrow> a \<noteq> NULL \<and>
     h a = Some \<lparr>g_value = v, g_key = k, g_left = gaddr l, g_right = gaddr r\<rparr> \<and> gt_at h l \<and> gt_at h r"

fun gaddrs :: "gtree \<Rightarrow> addr list" where
  "gaddrs GNil = []"
| "gaddrs (GN a k v l r) = a # gaddrs l @ gaddrs r"

fun leaves :: "gtree \<Rightarrow> kv_list" where
  "leaves GNil = []"
| "leaves (GN a k v l r) = (if l = GNil then [(k, v)] else leaves l @ leaves r)"

text \<open>A frame: an inner node, whether the hole is its left child, and its other child.\<close>

type_synonym gframe = "addr \<times> key \<times> val \<times> bool \<times> gtree"

fun gfill :: "gframe \<Rightarrow> gtree \<Rightarrow> gtree" where
  "gfill (a, k, v, left, other) t = (if left then GN a k v t other else GN a k v other t)"

fun gplug :: "gframe list \<Rightarrow> gtree \<Rightarrow> gtree" where
  "gplug [] t = t"
| "gplug (f # F) t = gplug F (gfill f t)"

fun gctx_at :: "gheap \<Rightarrow> gframe list \<Rightarrow> addr \<Rightarrow> bool" where
  "gctx_at h [] p = True"
| "gctx_at h ((a, k, v, left, other) # F) p \<longleftrightarrow> a \<noteq> NULL \<and>
     h a = Some \<lparr>g_value = v, g_key = k, g_left = (if left then p else gaddr other),
                 g_right = (if left then gaddr other else p)\<rparr> \<and>
     gt_at h other \<and> gctx_at h F a"

fun cads :: "gframe list \<Rightarrow> addr list" where
  "cads [] = []"
| "cads ((a, k, v, left, other) # F) = a # gaddrs other @ cads F"

fun par :: "gframe list \<Rightarrow> addr" where
  "par [] = NULL"
| "par ((a, k, v, left, other) # F) = a"

lemma gplug_append: "gplug (F @ F') t = gplug F' (gplug F t)"
  by (induction F arbitrary: t) auto

lemma gt_at_gplug: "gt_at h (gplug F t) \<longleftrightarrow> gctx_at h F (gaddr t) \<and> gt_at h t"
proof (induction F arbitrary: t)
  case (Cons f F)
  obtain a k v l c where [simp]: "f = (a, k, v, l, c)" by (metis prod_cases5)
  show ?case by (auto simp: Cons.IH)
qed simp

lemma set_gaddrs_gplug: "set (gaddrs (gplug F t)) = set (cads F) \<union> set (gaddrs t)"
proof (induction F arbitrary: t)
  case (Cons f F)
  obtain a k v l c where [simp]: "f = (a, k, v, l, c)" by (metis prod_cases5)
  show ?case by (auto simp: Cons.IH)
qed simp

lemma distinct_gplug:
  "distinct (gaddrs (gplug F t)) \<longleftrightarrow>
     distinct (cads F) \<and> distinct (gaddrs t) \<and> set (cads F) \<inter> set (gaddrs t) = {}"
proof (induction F arbitrary: t)
  case (Cons f F)
  obtain a k v l c where [simp]: "f = (a, k, v, l, c)" by (metis prod_cases5)
  show ?case by (auto simp: Cons.IH)
qed simp

lemma gaddr_gplug: "gaddr (gplug (F @ [(a, k, v, left, other)]) t) = a"
  by (simp add: gplug_append)

lemma gaddr_in: "t \<noteq> GNil \<Longrightarrow> gaddr t \<in> set (gaddrs t)"
  by (cases t) auto

lemma gt_at_cong: "(\<And>a. a \<in> set (gaddrs t) \<Longrightarrow> h' a = h a) \<Longrightarrow> gt_at h' t = gt_at h t"
  by (induction t) auto

lemma gctx_at_cong: "(\<And>a. a \<in> set (cads F) \<Longrightarrow> h' a = h a) \<Longrightarrow> gctx_at h' F p = gctx_at h F p"
proof (induction F arbitrary: p)
  case (Cons f F)
  obtain a k v l c where [simp]: "f = (a, k, v, l, c)" by (metis prod_cases5)
  have "h' a = h a" using Cons.prems by simp
  moreover have "gt_at h' c = gt_at h c" by (rule gt_at_cong) (simp add: Cons.prems)
  moreover have "gctx_at h' F a = gctx_at h F a" by (rule Cons.IH) (simp add: Cons.prems)
  ultimately show ?case by simp
qed simp

lemma gt_at_upd [simp]: "a \<notin> set (gaddrs t) \<Longrightarrow> gt_at (h(a := x)) t = gt_at h t"
  by (rule gt_at_cong) auto

lemma gctx_at_upd [simp]: "a \<notin> set (cads F) \<Longrightarrow> gctx_at (h(a := x)) F p = gctx_at h F p"
  by (rule gctx_at_cong) auto

section \<open>Search trees\<close>

text \<open>
  A tree of pairs: every node has two children or none, no key is \<open>NO_KEY\<close>, and the key of an
  inner node is above the keys of its left subtree and not above those of its right one.
\<close>

definition all_ge :: "key \<Rightarrow> kv_list \<Rightarrow> bool" where
  "all_ge k xs \<longleftrightarrow> (\<forall>x \<in> set xs. k \<le> fst x)"

fun good :: "key \<Rightarrow> gtree \<Rightarrow> bool" where
  "good N GNil = False"
| "good N (GN a k v l r) \<longleftrightarrow> k \<noteq> N \<and> (l = GNil \<and> r = GNil \<or>
     good N l \<and> good N r \<and> all_less (leaves l) k \<and> all_ge k (leaves r))"

text \<open>What a context demands of the pairs of the tree in its hole.\<close>

fun gfit :: "key \<Rightarrow> gframe list \<Rightarrow> kv_list \<Rightarrow> bool" where
  "gfit N [] xs = True"
| "gfit N ((a, k, v, left, other) # F) xs \<longleftrightarrow> k \<noteq> N \<and> good N other \<and>
     (if left then all_less xs k \<and> all_ge k (leaves other) \<and> gfit N F (xs @ leaves other)
      else all_ge k xs \<and> all_less (leaves other) k \<and> gfit N F (leaves other @ xs))"

text \<open>The context is the one the search for a key leaves behind.\<close>

fun routed :: "key \<Rightarrow> gframe list \<Rightarrow> bool" where
  "routed x [] = True"
| "routed x ((a, k, v, left, other) # F) \<longleftrightarrow> (left \<longleftrightarrow> x < k) \<and> routed x F"

lemma good_not_GNil: "good N t \<Longrightarrow> t \<noteq> GNil"
  by auto

lemma good_gfill:
  "good N t \<Longrightarrow> good N (gfill (a, k, v, left, other) t) \<longleftrightarrow> k \<noteq> N \<and> good N other \<and>
     (if left then all_less (leaves t) k \<and> all_ge k (leaves other)
      else all_ge k (leaves t) \<and> all_less (leaves other) k)"
  by (auto dest: good_not_GNil)

lemma leaves_gfill:
  "good N t \<Longrightarrow> good N other \<Longrightarrow>
     leaves (gfill (a, k, v, left, other) t) = (if left then leaves t @ leaves other else leaves other @ leaves t)"
  by (auto dest: good_not_GNil)

lemma good_gplugD: "good N (gplug F t) \<Longrightarrow> t \<noteq> GNil \<Longrightarrow> good N t \<and> gfit N F (leaves t)"
proof (induction F arbitrary: t)
  case (Cons f F)
  obtain a k v l c where [simp]: "f = (a, k, v, l, c)" by (metis prod_cases5)
  from Cons.IH [of "gfill f t"] Cons.prems have IH: "good N (gfill f t)" "gfit N F (leaves (gfill f t))" by auto
  then have "good N t" using Cons.prems(2) by (auto split: if_splits)
  with IH show ?case by (auto simp: dest: good_not_GNil split: if_splits)
qed simp

lemma good_gplugI: "good N t \<Longrightarrow> gfit N F (leaves t) \<Longrightarrow> good N (gplug F t)"
proof (induction F arbitrary: t)
  case (Cons f F)
  obtain a k v l c where [simp]: "f = (a, k, v, l, c)" by (metis prod_cases5)
  from Cons.prems have "good N (gfill f t)" "gfit N F (leaves (gfill f t))"
    unfolding \<open>f = _\<close> by (subst good_gfill leaves_gfill; auto split: if_splits)+
  then show ?case using Cons.IH by simp
qed simp

lemma gfit_mono:
  "gfit N F xs \<Longrightarrow> routed x F \<Longrightarrow> fst ` set ys \<subseteq> insert x (fst ` set xs) \<Longrightarrow> gfit N F ys"
proof (induction N F xs arbitrary: ys rule: gfit.induct)
  case (2 N a k v left other F xs)
  have s: "fst y = x \<or> fst y \<in> fst ` set xs" if "y \<in> set ys" for y using 2(5) that by auto
  then have "all_less xs k \<Longrightarrow> x < k \<Longrightarrow> all_less ys k" "all_ge k xs \<Longrightarrow> \<not> x < k \<Longrightarrow> all_ge k ys"
    by (force simp: all_less_def all_ge_def)+
  moreover have "fst ` set (ys @ leaves other) \<subseteq> insert x (fst ` set (xs @ leaves other))"
    "fst ` set (leaves other @ ys) \<subseteq> insert x (fst ` set (leaves other @ xs))" using 2(5) by auto
  ultimately show ?case using 2(1,2) [of "ys @ leaves other"] 2(1,2) [of "leaves other @ ys"] 2(3,4)
    by (auto split: if_splits)
qed simp

text \<open>The pairs to the left and to the right of the hole.\<close>

fun gleft :: "gframe list \<Rightarrow> kv_list" where
  "gleft [] = []"
| "gleft ((a, k, v, left, other) # F) = gleft F @ (if left then [] else leaves other)"

fun gright :: "gframe list \<Rightarrow> kv_list" where
  "gright [] = []"
| "gright ((a, k, v, left, other) # F) = (if left then leaves other else []) @ gright F"

lemma leaves_gplug:
  "t \<noteq> GNil \<Longrightarrow> gfit N F xs \<Longrightarrow> leaves (gplug F t) = gleft F @ leaves t @ gright F"
proof (induction N F xs arbitrary: t rule: gfit.induct)
  case (2 N a k v left other F xs)
  from 2(4) have o: "other \<noteq> GNil" by auto
  show ?case
  proof (cases left)
    case True
    with 2(4) have "gfit N F (xs @ leaves other)" by simp
    with 2(1) [OF True, of "GN a k v t other"] True 2(3) show ?thesis by simp
  next
    case False
    with 2(4) have "gfit N F (leaves other @ xs)" by simp
    with 2(2) [OF False, of "GN a k v other t"] False o show ?thesis by simp
  qed
qed simp

section \<open>The search\<close>

fun gloc :: "key \<Rightarrow> key \<Rightarrow> gtree \<Rightarrow> gframe list \<Rightarrow> gframe list \<times> gtree" where
  "gloc N x GNil F = (F, GNil)"
| "gloc N x (GN a k v l r) F =
     (if l = GNil then (F, GN a k v l r)
      else if k = N \<or> x < k then gloc N x l ((a, k, v, True, r) # F)
      else gloc N x r ((a, k, v, False, l) # F))"

lemma gloc_plug: "gloc N x t F = (F', u) \<Longrightarrow> gplug F' u = gplug F t"
  by (induction N x t F rule: gloc.induct) (auto split: if_splits)

lemma gloc_append: "gloc N x t (F @ F') = (fst (gloc N x t F) @ F', snd (gloc N x t F))"
proof (induction N x t F rule: gloc.induct)
  case (2 N x a k v l r F)
  then show ?case by (auto simp flip: append_Cons)
qed simp

lemma gloc_good:
  "good N t \<Longrightarrow> gloc N x t F = (F', u) \<Longrightarrow> routed x F \<Longrightarrow>
     routed x F' \<and> (\<exists>a k v. u = GL a k v)"
proof (induction t arbitrary: F)
  case (GN a k v l r)
  show ?case
  proof (cases "l = GNil")
    case True
    with GN.prems show ?thesis by auto
  next
    case l: False
    with GN.prems(1) have g: "good N l" "good N r" "k \<noteq> N" by auto
    show ?thesis
    proof (cases "x < k")
      case True
      with GN.IH(1) [OF g(1), of "(a, k, v, True, r) # F"] GN.prems l show ?thesis by simp
    next
      case False
      with GN.IH(2) [OF g(2), of "(a, k, v, False, l) # F"] GN.prems l g show ?thesis by simp
    qed
  qed
qed simp

lemma gloc_bounds:
  "good N t \<Longrightarrow> gloc N x t F = (F', u) \<Longrightarrow> all_less (gleft F) x \<Longrightarrow> all_greater x (gright F) \<Longrightarrow>
     all_less (gleft F') x \<and> all_greater x (gright F')"
proof (induction t arbitrary: F)
  case (GN a k v l r)
  show ?case
  proof (cases "l = GNil")
    case True
    with GN.prems show ?thesis by simp
  next
    case l: False
    with GN.prems(1) have g: "good N l" "good N r" "k \<noteq> N" "all_less (leaves l) k" "all_ge k (leaves r)" by auto
    show ?thesis
    proof (cases "x < k")
      case True
      with g have "all_greater x (leaves r)" by (force simp: all_ge_def all_greater_def)
      with True GN.IH(1) [OF g(1), of "(a, k, v, True, r) # F"] GN.prems l show ?thesis by simp
    next
      case False
      with g have "all_less (leaves l) x" by (force simp: all_less_def)
      with False GN.IH(2) [OF g(2), of "(a, k, v, False, l) # F"] GN.prems l g show ?thesis by simp
    qed
  qed
qed simp

lemma gt_at_deref [simp]: "gt_at (g_nodes s) (GN a k v l r) \<Longrightarrow>
    g_deref s a = Some \<lparr>g_value = v, g_key = k, g_left = gaddr l, g_right = gaddr r\<rparr>"
  by (simp add: g_deref_def)

text \<open>Every node has two children or none.\<close>

fun full :: "gtree \<Rightarrow> bool" where
  "full GNil = False"
| "full (GN a k v l r) \<longleftrightarrow> l = GNil \<and> r = GNil \<or> full l \<and> full r"

lemma good_full: "good N t \<Longrightarrow> full t"
  by (induction N t rule: good.induct) auto

lemma gaddr_NULL: "gt_at h t \<Longrightarrow> gaddr t = NULL \<longleftrightarrow> t = GNil"
  by (cases t) auto

lemma g_search_ok:
  "gt_at (g_nodes s) t \<Longrightarrow> full t \<Longrightarrow> gloc (g_NO_KEY s) x t F = (F', u) \<Longrightarrow>
     g_search s x (par (tl F)) (par F) (gaddr t) = Some (par (tl F'), par F', gaddr u)"
proof (induction "g_NO_KEY s" x t F rule: gloc.induct)
  case (2 x a k v l r F)
  note d = gt_at_deref [OF 2(3)]
  from 2(3) have n: "gaddr l = NULL \<longleftrightarrow> l = GNil" by (meson gaddr_NULL gt_at.simps(2))
  show ?case
  proof (cases "l = GNil")
    case True
    with 2(5) d show ?thesis by (subst g_search.simps) (auto simp: NULL_def)
  next
    case False
    with 2 d n show ?thesis
      by (subst g_search.simps) (auto simp: g_child_def split: if_splits)
  qed
qed simp

section \<open>The invariant\<close>

text \<open>
  The memory holds the tree \<open>W\<close>: the nodes are there, they are distinct, and the record manager
  will not hand them out.
\<close>

definition whole :: "('r \<Rightarrow> addr set) \<Rightarrow> 'r glock \<Rightarrow> gtree \<Rightarrow> bool" where
  "whole live s W \<longleftrightarrow> gt_at (g_nodes s) W \<and> distinct (gaddrs W) \<and> set (gaddrs W) \<subseteq> live (g_rm s) \<and>
     g_root s = gaddr W"

text \<open>The nodes with the key \<open>NO_KEY\<close>: a root, below it a leaf, and between them one more if there are pairs.\<close>

fun gtop :: "key \<Rightarrow> addr \<times> val \<times> addr \<times> val \<times> addr \<times> val \<Rightarrow> gtree \<Rightarrow> gtree" where
  "gtop N (R, v0, b, v1, c, v2) t =
     (if t = GNil then GN R N v0 (GL b N v1) GNil
      else gplug [(c, N, v2, True, GL b N v1), (R, N, v0, True, GNil)] t)"

definition glock_rep :: "('r \<Rightarrow> addr set) \<Rightarrow> 'r glock \<Rightarrow> gtree \<Rightarrow> bool" where
  "glock_rep live s t \<longleftrightarrow> \<not> g_lock s \<and> (t = GNil \<or> good (g_NO_KEY s) t) \<and>
     (\<exists>X. whole live s (gtop (g_NO_KEY s) X t))"

lemma createNode_ok:
  assumes "recmgr_ok rm live" "createNode rm s k v p q = (a, s')"
  shows "a \<noteq> NULL" "a \<notin> live (g_rm s)" "live (g_rm s') = insert a (live (g_rm s))"
    "g_nodes s' = (g_nodes s)(a \<mapsto> \<lparr>g_value = v, g_key = k, g_left = p, g_right = q\<rparr>)"
    "s' = s\<lparr>g_nodes := g_nodes s', g_rm := g_rm s'\<rparr>"
proof -
  obtain b r where r: "rm_allocate rm (g_rm s) = (b, r)" by force
  with assms(2) have s': "b = a" "s' = s\<lparr>g_nodes := (g_nodes s)(a \<mapsto> \<lparr>g_value = v, g_key = k, g_left = p, g_right = q\<rparr>),
      g_rm := r\<rparr>" by (auto simp: createNode_def)
  with recmgr_okD(1) [OF assms(1) r] show "a \<noteq> NULL" "a \<notin> live (g_rm s)" "live (g_rm s') = insert a (live (g_rm s))"
    "g_nodes s' = (g_nodes s)(a \<mapsto> \<lparr>g_value = v, g_key = k, g_left = p, g_right = q\<rparr>)"
    "s' = s\<lparr>g_nodes := g_nodes s', g_rm := g_rm s'\<rparr>" by simp_all
qed

lemma link_ok:
  assumes z: "gt_at (g_nodes s) (gplug (f # F) t)" "distinct (gaddrs (gplug (f # F) t))" "t \<noteq> GNil"
    and f: "f = (a, k, v, left, other)" "left \<or> other \<noteq> GNil"
    and u: "gt_at (g_nodes s) u" "distinct (gaddrs u)" "set (gaddrs u) \<inter> set (cads (f # F)) = {}"
  obtains h where
    "(do {
        np \<leftarrow> g_deref s a;
        if gaddr t = g_left np then g_set_left s a (gaddr u) else g_set_right s a (gaddr u)
      }) = Some (s\<lparr>g_nodes := h\<rparr>)"
    "gt_at h (gplug (f # F) u)" "distinct (gaddrs (gplug (f # F) u))"
proof -
  let ?n = "\<lparr>g_value = v, g_key = k, g_left = (if left then gaddr t else gaddr other),
    g_right = (if left then gaddr other else gaddr t)\<rparr>"
  let ?h = "(g_nodes s)(a \<mapsto> \<lparr>g_value = v, g_key = k, g_left = (if left then gaddr u else gaddr other),
    g_right = (if left then gaddr other else gaddr u)\<rparr>)"
  from z(1) f have c: "a \<noteq> NULL" "g_nodes s a = Some ?n" "gt_at (g_nodes s) other" "gctx_at (g_nodes s) F a"
    using gt_at_gplug [of "g_nodes s" "f # F" t] by auto
  from z(2) f have d: "distinct (cads (f # F))" "distinct (gaddrs t)" "set (cads (f # F)) \<inter> set (gaddrs t) = {}"
    using distinct_gplug [of "f # F" t] by auto
  have "\<not> left \<Longrightarrow> gaddr t \<noteq> gaddr other"
    using d(3) f gaddr_in [OF z(3)] gaddr_in [of other] by auto
  then have "(do {
        np \<leftarrow> g_deref s a;
        if gaddr t = g_left np then g_set_left s a (gaddr u) else g_set_right s a (gaddr u)
      }) = Some (s\<lparr>g_nodes := ?h\<rparr>)"
    using c by (auto simp: g_deref_def g_set_left_def g_set_right_def)
  moreover have "gctx_at ?h (f # F) (gaddr u)" using c f d(1) by simp
  then have "gt_at ?h (gplug (f # F) u)" unfolding gt_at_gplug using u f by simp
  moreover have "distinct (gaddrs (gplug (f # F) u))" unfolding distinct_gplug using d(1) u by blast
  ultimately show thesis by (rule that)
qed

section \<open>The operations\<close>

lemma glock_repE:
  assumes "glock_rep live s t" "t \<noteq> GNil"
  obtains R v0 b v1 c v2 where "\<not> g_lock s" "good (g_NO_KEY s) t" "g_root s = R"
    "whole live s (gplug [(c, g_NO_KEY s, v2, True, GL b (g_NO_KEY s) v1), (R, g_NO_KEY s, v0, True, GNil)] t)"
proof -
  from assms obtain X where X: "\<not> g_lock s" "good (g_NO_KEY s) t" "whole live s (gtop (g_NO_KEY s) X t)"
    unfolding glock_rep_def by auto
  obtain R v0 b v1 c v2 where "X = (R, v0, b, v1, c, v2)" by (cases X)
  with X(3) assms(2) have "whole live s (gplug [(c, g_NO_KEY s, v2, True, GL b (g_NO_KEY s) v1), (R, g_NO_KEY s, v0, True, GNil)] t)"
    by simp
  moreover from this have "g_root s = R" by (simp add: whole_def)
  ultimately show thesis using X(1,2) that by blast
qed

lemma glock_repI:
  assumes "\<not> g_lock s" "good (g_NO_KEY s) t" "t \<noteq> GNil"
    "whole live s (gplug [(c, g_NO_KEY s, v2, True, GL b (g_NO_KEY s) v1), (R, g_NO_KEY s, v0, True, GNil)] t)"
  shows "glock_rep live s t"
proof -
  from assms(3,4) have "whole live s (gtop (g_NO_KEY s) (R, v0, b, v1, c, v2) t)" by simp
  with assms(1,2) show ?thesis unfolding glock_rep_def by blast
qed

lemma located:
  assumes "good N t" "gloc N x t [] = (F, u)"
  obtains l k v where "u = GL l k v" "t = gplug F u" "k \<noteq> N" "leaves t = gleft F @ (k, v) # gright F"
    "all_less (gleft F) x" "all_greater x (gright F)" "routed x F" "gfit N F [(k, v)]"
proof -
  from gloc_good [OF assms] obtain l k v where u: "u = GL l k v" "routed x F" by auto
  from gloc_plug [OF assms(2)] have p: "t = gplug F u" by simp
  from good_gplugD [of N F u] assms(1) p u have g: "good N u" "gfit N F (leaves u)" by auto
  with leaves_gplug [of u N F "leaves u"] u p have "leaves t = gleft F @ (k, v) # gright F" by simp
  with gloc_bounds [OF assms] g p u that show thesis by auto
qed

lemma sorted_leaves: "good N t \<Longrightarrow> sorted_kvs (leaves t)"
proof (induction N t rule: good.induct)
  case (2 N a k v l r)
  then show ?case by (force simp: kv_before_def all_less_def all_ge_def)
qed simp

lemma whole_lock [simp]: "whole live (s\<lparr>g_lock := b\<rparr>) W = whole live s W"
  by (simp add: whole_def)

lemma glock_rep_lock: "glock_rep live s t \<Longrightarrow> acquireLock s = Some (s\<lparr>g_lock := True\<rparr>) \<and> releaseLock (s\<lparr>g_lock := True\<rparr>) = s"
  by (auto simp: glock_rep_def acquireLock_def releaseLock_def)

text \<open>What the searches of the operations find in a tree that has pairs.\<close>

definition gbase :: "'r glock \<Rightarrow> addr \<times> val \<times> addr \<times> val \<times> val \<Rightarrow> gframe list" where
  "gbase s X = (case X of (b, v1, c, v2, v0) \<Rightarrow>
     [(c, g_NO_KEY s, v2, True, GL b (g_NO_KEY s) v1), (g_root s, g_NO_KEY s, v0, True, GNil)])"

lemma gbase_simps [simp]:
  "par (gbase s (b, v1, c, v2, v0)) = c" "par (tl (gbase s X)) = g_root s" "gbase s X \<noteq> []"
  "gbase (s\<lparr>g_lock := lk\<rparr>) X = gbase s X" "gbase (s\<lparr>g_nodes := h\<rparr>) X = gbase s X"
  "gbase (s\<lparr>g_rm := rm\<rparr>) X = gbase s X"
  by (auto simp: gbase_def split: prod.splits)

lemma gaddr_gbase: "gaddr (gplug (gbase s X) t) = g_root s"
  by (auto simp: gbase_def split: prod.splits)

lemma glock_search:
  assumes r: "glock_rep live s t" and t: "t \<noteq> GNil"
  obtains b v1 c v2 v0 F l k v where
    "good (g_NO_KEY s) t" "whole live s (gplug (gbase s (b, v1, c, v2, v0)) t)" "t = gplug F (GL l k v)"
    "k \<noteq> g_NO_KEY s" "leaves t = gleft F @ (k, v) # gright F" "all_less (gleft F) x" "all_greater x (gright F)"
    "routed x F" "gfit (g_NO_KEY s) F [(k, v)]"
    "g_deref s (g_root s) = Some \<lparr>g_value = v0, g_key = g_NO_KEY s, g_left = c, g_right = NULL\<rparr>"
    "g_deref s c = Some \<lparr>g_value = v2, g_key = g_NO_KEY s, g_left = gaddr t, g_right = b\<rparr>"
    "gaddr t \<noteq> NULL"
    "g_search (s\<lparr>g_lock := True\<rparr>) x (g_root s) c (gaddr t) = Some (par (tl (F @ gbase s (b, v1, c, v2, v0))), par (F @ gbase s (b, v1, c, v2, v0)), l)"
    "g_search (s\<lparr>g_lock := True\<rparr>) x NULL (g_root s) c = Some (par (tl (F @ gbase s (b, v1, c, v2, v0))), par (F @ gbase s (b, v1, c, v2, v0)), l)"
    "g_deref s l = Some \<lparr>g_value = v, g_key = k, g_left = NULL, g_right = NULL\<rparr>"
proof -
  let ?N = "g_NO_KEY s"
  from r t obtain R v0 b v1 c v2 where g: "good ?N t" "g_root s = R"
    "whole live s (gplug [(c, ?N, v2, True, GL b ?N v1), (R, ?N, v0, True, GNil)] t)" by (rule glock_repE)
  define B where "B = gbase s (b, v1, c, v2, v0)"
  have B: "B = [(c, ?N, v2, True, GL b ?N v1), (R, ?N, v0, True, GNil)]" using g(2) by (simp add: B_def gbase_def)
  let ?T = "GN c ?N v2 t (GL b ?N v1)"
  obtain F u where F: "gloc ?N x t [] = (F, u)" by force
  from located [OF g(1) F] obtain l k v where
    u: "u = GL l k v" "t = gplug F u" "k \<noteq> ?N" "leaves t = gleft F @ (k, v) # gright F" "all_less (gleft F) x"
      "all_greater x (gright F)" "routed x F" "gfit ?N F [(k, v)]" by blast
  from g(3) have h: "gt_at (g_nodes s) t" "gt_at (g_nodes s) ?T"
    "g_deref s R = Some \<lparr>g_value = v0, g_key = ?N, g_left = c, g_right = NULL\<rparr>"
    "g_deref s c = Some \<lparr>g_value = v2, g_key = ?N, g_left = gaddr t, g_right = b\<rparr>" "gaddr t \<noteq> NULL"
    using gaddr_NULL [of "g_nodes s" t] t by (auto simp: whole_def g_deref_def)
  have 1: "gloc ?N x t B = (F @ B, u)" using gloc_append [of ?N x t "[]" B] F by simp
  then have 2: "gloc ?N x ?T (tl B) = (F @ B, u)" using t B by simp
  have f: "full t" using good_full [OF g(1)] .
  let ?s = "s\<lparr>g_lock := True\<rparr>"
  from g_search_ok [of ?s t x B "F @ B" u] g_search_ok [of ?s ?T x "tl B" "F @ B" u] f 1 2 h(1,2)
  have "g_search ?s x R c (gaddr t) = Some (par (tl (F @ B)), par (F @ B), l)"
    "g_search ?s x NULL R c = Some (par (tl (F @ B)), par (F @ B), l)" using u(1) B by simp_all
  moreover have "gt_at (g_nodes s) u" using h(1) u(2) gt_at_gplug by blast
  then have "g_deref s l = Some \<lparr>g_value = v, g_key = k, g_left = NULL, g_right = NULL\<rparr>"
    using u(1) by (simp add: g_deref_def)
  ultimately show thesis using that [of b v1 c v2 v0 F l k v] g u h B unfolding B_def by simp
qed

lemma map_of_between:
  "all_less L x \<Longrightarrow> all_greater x G \<Longrightarrow> map_of (L @ (k, v) # G) x = (if x = k then Some v else None)"
  by (auto simp: map_add_def map_of_all_less map_of_all_greater)

lemma g_deref_lock [simp]: "g_deref (s\<lparr>g_lock := b\<rparr>) p = g_deref s p"
  by (simp add: g_deref_def)

lemma glock_find_ok:
  assumes r: "glock_rep live s t" and k: "key \<noteq> g_NO_KEY s"
  shows "glock_find s key = Some (case map_of (leaves t) key of None \<Rightarrow> (NO_VALUE, False) | Some v \<Rightarrow> (v, True), s)"
proof (cases "t = GNil")
  case True
  with r obtain R v0 b v1 where "whole live s (GN R (g_NO_KEY s) v0 (GL b (g_NO_KEY s) v1) GNil)"
    unfolding glock_rep_def by auto
  with True glock_rep_lock [OF r] show ?thesis by (auto simp: glock_find_def whole_def g_deref_def)
next
  case False
  from glock_search [OF r False, of key] obtain b v1 c v2 v0 F l k' v where
    "leaves t = gleft F @ (k', v) # gright F" "all_less (gleft F) key" "all_greater key (gright F)"
    "g_deref s (g_root s) = Some \<lparr>g_value = v0, g_key = g_NO_KEY s, g_left = c, g_right = NULL\<rparr>"
    "g_deref s c = Some \<lparr>g_value = v2, g_key = g_NO_KEY s, g_left = gaddr t, g_right = b\<rparr>"
    "gaddr t \<noteq> NULL"
    "g_search (s\<lparr>g_lock := True\<rparr>) key (g_root s) c (gaddr t) = Some (par (tl (F @ gbase s (b, v1, c, v2, v0))), par (F @ gbase s (b, v1, c, v2, v0)), l)"
    "g_deref s l = Some \<lparr>g_value = v, g_key = k', g_left = NULL, g_right = NULL\<rparr>" by metis
  then show ?thesis using glock_rep_lock [OF r] map_of_between [of "gleft F" key "gright F" k' v]
    by (simp add: glock_find_def)
qed

lemma bind_then: "Option.bind x f = Some y \<Longrightarrow> Option.bind x (\<lambda>a. Option.bind (f a) g) = g y"
  by (cases x) auto

lemma relink:
  assumes g: "gfit N F xs" "gt_at (g_nodes s) (gplug (F @ gbase s X) u)" "distinct (gaddrs (gplug (F @ gbase s X) u))"
    and u: "u \<noteq> GNil" "set (cads (F @ gbase s X)) \<subseteq> live (g_rm s)" "N = g_NO_KEY s"
    and U: "gt_at (g_nodes s) U" "distinct (gaddrs U)" "set (gaddrs U) \<inter> set (cads (F @ gbase s X)) = {}"
      "set (gaddrs U) \<subseteq> live (g_rm s)" "good N (gplug F U)"
  obtains h where
    "(do {
        np \<leftarrow> g_deref s (par (F @ gbase s X));
        if gaddr u = g_left np then g_set_left s (par (F @ gbase s X)) (gaddr U) else g_set_right s (par (F @ gbase s X)) (gaddr U)
      }) = Some (s\<lparr>g_nodes := h\<rparr>)"
    "glock_rep live (s\<lparr>g_nodes := h, g_lock := False\<rparr>) (gplug F U)"
proof -
  obtain b v1 c v2 v0 where X: "X = (b, v1, c, v2, v0)" by (cases X)
  obtain f F' where f: "F @ gbase s X = f # F'" by (cases "F @ gbase s X") auto
  obtain a k v left other where a: "f = (a, k, v, left, other)" by (cases f)
  have "left \<or> other \<noteq> GNil"
  proof (cases F)
    case Nil
    with f a show ?thesis by (auto simp: gbase_def X)
  next
    case (Cons f' F'')
    with f a g(1) show ?thesis by auto
  qed
  with link_ok [of s f F' u a k v left other U] g u U f a obtain h where
    h: "(do {
        np \<leftarrow> g_deref s a;
        if gaddr u = g_left np then g_set_left s a (gaddr U) else g_set_right s a (gaddr U)
      }) = Some (s\<lparr>g_nodes := h\<rparr>)"
    "gt_at h (gplug (F @ gbase s X) U)" "distinct (gaddrs (gplug (F @ gbase s X) U))" by metis
  have "whole live (s\<lparr>g_nodes := h\<rparr>) (gplug (gbase s X) (gplug F U))"
    using h(2,3) u(2) U(4) set_gaddrs_gplug [of "F @ gbase s X" U] gaddr_gbase [of s X "gplug F U"]
    unfolding whole_def gplug_append by simp
  moreover have "gplug F U \<noteq> GNil" using U(5) by auto
  ultimately have "glock_rep live (s\<lparr>g_nodes := h, g_lock := False\<rparr>) (gplug F U)"
    using U(5) u(3) by (intro glock_repI [where R = "g_root s"]) (auto simp: gbase_def X whole_def)
  moreover have "par (F @ gbase s X) = a" using f a by simp
  ultimately show thesis using h(1) that [of h] by presburger
qed

lemma doInsert_present:
  assumes r: "glock_rep live s t" "t \<noteq> GNil" "map_of (leaves t) key = Some w"
  shows "\<exists>s' t'. doInsert rm s key val oia = Some (w, s') \<and> glock_rep live s' t' \<and> g_NO_KEY s' = g_NO_KEY s \<and>
    map_of (leaves t') = (if oia then map_of (leaves t) else (map_of (leaves t))(key \<mapsto> val))"
proof -
  from glock_search [OF r(1,2), of key] obtain b v1 c v2 v0 F l k v where z: "good (g_NO_KEY s) t"
    "whole live s (gplug (gbase s (b, v1, c, v2, v0)) t)" "t = gplug F (GL l k v)" "k \<noteq> g_NO_KEY s"
    "leaves t = gleft F @ (k, v) # gright F" "all_less (gleft F) key" "all_greater key (gright F)"
    "routed key F" "gfit (g_NO_KEY s) F [(k, v)]"
    and d: "g_deref s (g_root s) = Some \<lparr>g_value = v0, g_key = g_NO_KEY s, g_left = c, g_right = NULL\<rparr>"
    "g_search (s\<lparr>g_lock := True\<rparr>) key NULL (g_root s) c = Some (par (tl (F @ gbase s (b, v1, c, v2, v0))), par (F @ gbase s (b, v1, c, v2, v0)), l)"
    "g_deref s l = Some \<lparr>g_value = v, g_key = k, g_left = NULL, g_right = NULL\<rparr>" by metis
  define B where "B = gbase s (b, v1, c, v2, v0)"
  have [simp]: "k = key" "v = w" using map_of_between [OF z(6,7), of k v] r(3) z(5) by (auto split: if_splits)
  show ?thesis
  proof (cases oia)
    case True
    with d glock_rep_lock [OF r(1)] r(1) show ?thesis by (auto simp: doInsert_def)
  next
    case False
    let ?h = "(g_nodes s)(l \<mapsto> \<lparr>g_value = val, g_key = key, g_left = NULL, g_right = NULL\<rparr>)"
    let ?t = "gplug F (GL l key val)"
    have "doInsert rm s key val oia = Some (w, s\<lparr>g_nodes := ?h\<rparr>)"
      using False d glock_rep_lock [OF r(1)] r(1)
      by (auto simp: doInsert_def g_set_value_def releaseLock_def glock_rep_def)
    moreover have fit: "gfit (g_NO_KEY s) F [(key, val)]" by (rule gfit_mono [OF z(9,8)]) simp
    then have "good (g_NO_KEY s) ?t" using z(4) by (intro good_gplugI) simp_all
    moreover have w: "gt_at (g_nodes s) (gplug (F @ B) (GL l key w))" "distinct (gaddrs (gplug (F @ B) (GL l key w)))"
      "set (gaddrs (gplug (F @ B) (GL l key w))) \<subseteq> live (g_rm s)"
      using z(2,3) unfolding whole_def gplug_append B_def by simp_all
    then have "gt_at ?h (gplug (F @ B) (GL l key val))" "distinct (gaddrs (gplug (F @ B) (GL l key val)))"
      "set (gaddrs (gplug (F @ B) (GL l key val))) \<subseteq> live (g_rm s)"
      unfolding gt_at_gplug distinct_gplug set_gaddrs_gplug by auto
    then have "whole live (s\<lparr>g_nodes := ?h\<rparr>) (gplug B ?t)"
      unfolding whole_def gplug_append B_def using gaddr_gbase [of s "(b, v1, c, v2, v0)" ?t] by simp
    ultimately have "glock_rep live (s\<lparr>g_nodes := ?h\<rparr>) ?t"
      using r(1) by (intro glock_repI [where R = "g_root s"]) (auto simp: gbase_def B_def glock_rep_def)
    moreover have "leaves ?t = gleft F @ (key, val) # gright F" using leaves_gplug [OF _ fit] by simp
    then have "map_of (leaves ?t) = (map_of (leaves t))(key \<mapsto> val)"
      using z(5-7) by (auto simp: fun_eq_iff map_add_def map_of_all_less map_of_all_greater split: option.splits)
    ultimately show ?thesis using False \<open>doInsert _ _ _ _ _ = _\<close> by auto
  qed
qed

text \<open>A new leaf and a new parent for it and the leaf found.\<close>

fun beside :: "bool \<Rightarrow> addr \<Rightarrow> addr \<Rightarrow> key \<times> val \<Rightarrow> addr \<Rightarrow> key \<times> val \<Rightarrow> gtree" where
  "beside lt a2 a1 (x, w) l (k, v) =
     (if lt then GN a2 k v (GL a1 x w) (GL l k v) else GN a2 x w (GL l k v) (GL a1 x w))"

lemma leaves_beside: "leaves (beside lt a2 a1 (x, w) l (k, v)) = (if lt then [(x, w), (k, v)] else [(k, v), (x, w)])"
  by simp

lemma new_pair:
  assumes rm: "recmgr_ok rm live" and c1: "createNode rm s x w NULL NULL = (a1, s1)"
    and c2: "(if lt then createNode rm s1 k v a1 l else createNode rm s1 x w l a1) = (a2, s2)"
    and W: "gt_at (g_nodes s) (gplug F (GL l k v))" "set (gaddrs (gplug F (GL l k v))) \<subseteq> live (g_rm s)"
      "distinct (gaddrs (gplug F (GL l k v)))"
  shows "gt_at (g_nodes s2) (gplug F (GL l k v))" "gt_at (g_nodes s2) (beside lt a2 a1 (x, w) l (k, v))"
    "distinct (gaddrs (beside lt a2 a1 (x, w) l (k, v)))"
    "set (gaddrs (beside lt a2 a1 (x, w) l (k, v))) \<inter> set (cads F) = {}"
    "set (gaddrs (beside lt a2 a1 (x, w) l (k, v))) \<subseteq> live (g_rm s2)" "set (cads F) \<subseteq> live (g_rm s2)"
    "s2 = s\<lparr>g_nodes := g_nodes s2, g_rm := g_rm s2\<rparr>"
proof -
  note c = createNode_ok [OF rm c1]
  from c2 have "createNode rm s1 (if lt then k else x) (if lt then v else w) (if lt then a1 else l) (if lt then l else a1) = (a2, s2)"
    by (simp split: if_splits)
  note d = createNode_ok [OF rm this]
  from W(2) have i: "set (cads F) \<subseteq> live (g_rm s)" "l \<in> live (g_rm s)" unfolding set_gaddrs_gplug by simp_all
  from c(2,3) d(2,3) i have n: "a1 \<noteq> a2" "a1 \<noteq> l" "a2 \<noteq> l" "a1 \<notin> set (cads F)" "a2 \<notin> set (cads F)" by auto
  have W': "gctx_at (g_nodes s) F l" "gt_at (g_nodes s) (GL l k v)" "l \<notin> set (cads F)"
    using W(1,3) unfolding gt_at_gplug distinct_gplug by simp_all
  show "gt_at (g_nodes s2) (gplug F (GL l k v))" unfolding gt_at_gplug using W' c(4) d(4) n by simp
  show "gt_at (g_nodes s2) (beside lt a2 a1 (x, w) l (k, v))" using W' c(1,4) d(1,4) n by simp
  show "distinct (gaddrs (beside lt a2 a1 (x, w) l (k, v)))" using n by auto
  show "set (gaddrs (beside lt a2 a1 (x, w) l (k, v))) \<inter> set (cads F) = {}" using n W'(3) by simp
  show "set (gaddrs (beside lt a2 a1 (x, w) l (k, v))) \<subseteq> live (g_rm s2)" using c(3) d(3) i by simp
  show "set (cads F) \<subseteq> live (g_rm s2)" using c(3) d(3) i by auto
  show "s2 = s\<lparr>g_nodes := g_nodes s2, g_rm := g_rm s2\<rparr>" by (subst d(5), subst c(5)) simp
qed

lemma good_beside:
  "k \<noteq> N \<Longrightarrow> x \<noteq> N \<Longrightarrow> x \<noteq> k \<Longrightarrow> lt = (x < k) \<Longrightarrow> good N (beside lt a2 a1 (x, w) l (k, v))"
  by (auto simp: all_ge_def)

lemma map_of_beside:
  "all_less L x \<Longrightarrow> all_greater x G \<Longrightarrow> x \<noteq> k \<Longrightarrow>
     map_of (L @ (if lt then [(x, w), (k, v)] else [(k, v), (x, w)]) @ G) = (map_of (L @ (k, v) # G))(x \<mapsto> w)"
  by (auto simp: fun_eq_iff map_add_def map_of_all_less map_of_all_greater split: option.splits)

lemma doInsert_absent:
  assumes rm: "recmgr_ok rm live" and r: "glock_rep live s t" "t \<noteq> GNil" "map_of (leaves t) x = None" "x \<noteq> g_NO_KEY s"
  shows "\<exists>s' t'. doInsert rm s x w oia = Some (NO_VALUE, s') \<and> glock_rep live s' t' \<and> g_NO_KEY s' = g_NO_KEY s \<and>
    map_of (leaves t') = (map_of (leaves t))(x \<mapsto> w)"
proof -
  let ?N = "g_NO_KEY s"
  from glock_search [OF r(1,2), of x] obtain b v1 c v2 v0 F l k v where z: "good ?N t"
    "whole live s (gplug (gbase s (b, v1, c, v2, v0)) t)" "t = gplug F (GL l k v)" "k \<noteq> ?N"
    "leaves t = gleft F @ (k, v) # gright F" "all_less (gleft F) x" "all_greater x (gright F)"
    "routed x F" "gfit ?N F [(k, v)]"
    and d: "g_deref s (g_root s) = Some \<lparr>g_value = v0, g_key = ?N, g_left = c, g_right = NULL\<rparr>"
    "g_search (s\<lparr>g_lock := True\<rparr>) x NULL (g_root s) c = Some (par (tl (F @ gbase s (b, v1, c, v2, v0))), par (F @ gbase s (b, v1, c, v2, v0)), l)"
    "g_deref s l = Some \<lparr>g_value = v, g_key = k, g_left = NULL, g_right = NULL\<rparr>" by metis
  let ?X = "(b, v1, c, v2, v0)"
  have k: "x \<noteq> k" using map_of_between [OF z(6,7), of k v] r(3) z(5) by auto
  obtain a1 s1 where c1: "createNode rm (s\<lparr>g_lock := True\<rparr>) x w NULL NULL = (a1, s1)" by force
  obtain a2 s2 where c2: "(if x < k then createNode rm s1 k v a1 l else createNode rm s1 x w l a1) = (a2, s2)" by force
  have W: "gt_at (g_nodes s) (gplug (F @ gbase s ?X) (GL l k v))" "set (gaddrs (gplug (F @ gbase s ?X) (GL l k v))) \<subseteq> live (g_rm s)"
      "distinct (gaddrs (gplug (F @ gbase s ?X) (GL l k v)))"
    using z(2,3) unfolding whole_def gplug_append by simp_all
  let ?U = "beside (x < k) a2 a1 (x, w) l (k, v)"
  have n: "gt_at (g_nodes s2) (gplug (F @ gbase s ?X) (GL l k v))" "gt_at (g_nodes s2) ?U" "distinct (gaddrs ?U)"
    "set (gaddrs ?U) \<inter> set (cads (F @ gbase s ?X)) = {}" "set (gaddrs ?U) \<subseteq> live (g_rm s2)"
    "set (cads (F @ gbase s ?X)) \<subseteq> live (g_rm s2)" "s2 = s\<lparr>g_lock := True, g_nodes := g_nodes s2, g_rm := g_rm s2\<rparr>"
    using new_pair [OF rm c1 c2, of "F @ gbase s ?X"] W by simp_all
  from n(7) obtain h2 r2 where s2: "s2 = s\<lparr>g_lock := True, g_nodes := h2, g_rm := r2\<rparr>" by blast
  from createNode_ok(5) [OF rm c1] obtain h1 r1 where s1: "s1 = s\<lparr>g_lock := True, g_nodes := h1, g_rm := r1\<rparr>" by blast
  have B: "gbase s2 ?X = gbase s ?X" "g_NO_KEY s2 = ?N" "g_NO_KEY s1 = ?N" by (simp_all add: s1 s2)
  have fit: "gfit ?N F (leaves ?U)" by (rule gfit_mono [OF z(9,8)]) (auto simp: leaves_beside)
  then have "good ?N (gplug F ?U)" using z(4) r(4) k good_beside by (intro good_gplugI) simp_all
  with relink [OF z(9), of s2 ?X "GL l k v" live ?U, unfolded B(1)] n W(3) B obtain h where
    h: "(do {
        np \<leftarrow> g_deref s2 (par (F @ gbase s ?X));
        if gaddr (GL l k v) = g_left np then g_set_left s2 (par (F @ gbase s ?X)) (gaddr ?U) else g_set_right s2 (par (F @ gbase s ?X)) (gaddr ?U)
      }) = Some (s2\<lparr>g_nodes := h\<rparr>)"
    "glock_rep live (s2\<lparr>g_nodes := h, g_lock := False\<rparr>) (gplug F ?U)" by (auto simp del: beside.simps)
  have U: "gaddr ?U = a2" by simp
  have "doInsert rm s x w oia = Some (NO_VALUE, s2\<lparr>g_nodes := h, g_lock := False\<rparr>)"
    using bind_then [OF h(1), unfolded U] d c1 c2 k z(4) B(3) glock_rep_lock [OF r(1)]
    by (cases "x < k") (simp_all add: doInsert_def releaseLock_def)
  moreover have "leaves (gplug F ?U) = gleft F @ leaves ?U @ gright F" using leaves_gplug [OF _ fit] by simp
  then have "map_of (leaves (gplug F ?U)) = (map_of (leaves t))(x \<mapsto> w)"
    unfolding leaves_beside using map_of_beside [OF z(6,7) k] z(5) by simp
  ultimately show ?thesis using h(2) B(2) by auto
qed

lemma doInsert_empty:
  assumes rm: "recmgr_ok rm live" and r: "glock_rep live s GNil" "x \<noteq> g_NO_KEY s"
  shows "\<exists>s' t'. doInsert rm s x w oia = Some (NO_VALUE, s') \<and> glock_rep live s' t' \<and> g_NO_KEY s' = g_NO_KEY s \<and>
    map_of (leaves t') = [x \<mapsto> w]"
proof -
  let ?N = "g_NO_KEY s" and ?s = "s\<lparr>g_lock := True\<rparr>"
  from r(1) obtain R v0 b v1 where "whole live s (GN R ?N v0 (GL b ?N v1) GNil)"
    unfolding glock_rep_def by auto
  then have W: "gt_at (g_nodes s) (gplug [(R, ?N, v0, True, GNil)] (GL b ?N v1))"
    "distinct (gaddrs (gplug [(R, ?N, v0, True, GNil)] (GL b ?N v1)))"
    "set (gaddrs (gplug [(R, ?N, v0, True, GNil)] (GL b ?N v1))) \<subseteq> live (g_rm s)" "g_root s = R"
    by (simp_all add: whole_def)
  then have d: "g_deref s R = Some \<lparr>g_value = v0, g_key = ?N, g_left = b, g_right = NULL\<rparr>"
    "g_deref s b = Some \<lparr>g_value = v1, g_key = ?N, g_left = NULL, g_right = NULL\<rparr>" by (simp_all add: g_deref_def)
  have g: "g_search ?s x NULL R b = Some (NULL, R, b)"
    using g_search_ok [of ?s "GL b ?N v1" x "[(R, ?N, v0, True, GNil)]"] W(1) by simp
  obtain a1 s1 where c1: "createNode rm ?s x w NULL NULL = (a1, s1)" by force
  obtain a2 s2 where c2: "(if True then createNode rm s1 ?N v1 a1 b else createNode rm s1 x w b a1) = (a2, s2)" by force
  let ?U = "beside True a2 a1 (x, w) b (?N, v1)"
  have n: "gt_at (g_nodes s2) (gplug [(R, ?N, v0, True, GNil)] (GL b ?N v1))" "gt_at (g_nodes s2) ?U" "distinct (gaddrs ?U)"
    "set (gaddrs ?U) \<inter> set (cads [(R, ?N, v0, True, GNil)]) = {}" "set (gaddrs ?U) \<subseteq> live (g_rm s2)"
    "set (cads [(R, ?N, v0, True, GNil)]) \<subseteq> live (g_rm s2)" "s2 = ?s\<lparr>g_nodes := g_nodes s2, g_rm := g_rm s2\<rparr>"
    using new_pair [OF rm c1 c2, of "[(R, ?N, v0, True, GNil)]"] W by simp_all
  from n(7) obtain h2 r2 where s2: "s2 = s\<lparr>g_lock := True, g_nodes := h2, g_rm := r2\<rparr>" by blast
  from createNode_ok(5) [OF rm c1] obtain h1 r1 where s1: "s1 = s\<lparr>g_lock := True, g_nodes := h1, g_rm := r1\<rparr>" by blast
  from link_ok [OF n(1) W(2) _ refl _ n(2-4)] obtain h where
    h: "(do {
        np \<leftarrow> g_deref s2 R;
        if gaddr (GL b ?N v1) = g_left np then g_set_left s2 R (gaddr ?U) else g_set_right s2 R (gaddr ?U)
      }) = Some (s2\<lparr>g_nodes := h\<rparr>)"
    "gt_at h (gplug [(R, ?N, v0, True, GNil)] ?U)" "distinct (gaddrs (gplug [(R, ?N, v0, True, GNil)] ?U))" by auto
  have U: "gaddr ?U = a2" by simp
  have "doInsert rm s x w oia = Some (NO_VALUE, s2\<lparr>g_nodes := h, g_lock := False\<rparr>)"
    using bind_then [OF h(1), unfolded U] d g c1 c2 r(2) W(4) glock_rep_lock [OF r(1)] s1 by (simp add: doInsert_def releaseLock_def)
  moreover have "glock_rep live (s2\<lparr>g_nodes := h, g_lock := False\<rparr>) (GL a1 x w)"
    by (rule glock_repI [of _ _ live a2 v1 b v1 R v0])
      (use h n r(2) s2 W(4) in \<open>auto simp: whole_def\<close>)
  ultimately show ?thesis using s2 by (auto intro!: exI [of _ "GL a1 x w"])
qed

lemma retire_two:
  assumes "recmgr_ok rm live" "A \<subseteq> live r" "p \<notin> A" "l \<notin> A"
  shows "A \<subseteq> live (rm_retire rm (rm_retire rm r p) l)"
  using recmgr_okD(2) [OF assms(1), of r p] recmgr_okD(2) [OF assms(1), of "rm_retire rm r p" l] assms(2-4) by blast

lemma link_retired:
  assumes "(do {
      np \<leftarrow> g_deref (s\<lparr>g_rm := r\<rparr>) a;
      if x = g_left np then g_set_left (s\<lparr>g_rm := r\<rparr>) a y else g_set_right (s\<lparr>g_rm := r\<rparr>) a y
    }) = Some (s\<lparr>g_rm := r, g_nodes := h\<rparr>)"
  shows "(do {
      np \<leftarrow> g_deref s a;
      if x = g_left np then g_set_left s a y else g_set_right s a y
    }) = Some (s\<lparr>g_nodes := h\<rparr>)"
proof -
  from assms obtain n where n: "g_deref s a = Some n" by (auto simp: g_deref_def split: if_splits bind_splits)
  with assms show ?thesis by (cases s) (auto simp: g_set_left_def g_set_right_def g_deref_def split: if_splits)
qed

lemma glock_erase_inner:
  assumes rm: "recmgr_ok rm live"
    and z: "good (g_NO_KEY s) t" "whole live s (gplug (gbase s X) t)" "t = gplug ((p, kp, vp, left, sib) # F) (GL l k v)"
      "routed x ((p, kp, vp, left, sib) # F)"
  shows "\<exists>h. (do {
      np \<leftarrow> g_deref s (par (F @ gbase s X));
      if p = g_left np then g_set_left s (par (F @ gbase s X)) (gaddr sib) else g_set_right s (par (F @ gbase s X)) (gaddr sib)
    }) = Some (s\<lparr>g_nodes := h\<rparr>) \<and>
    glock_rep live (s\<lparr>g_rm := rm_retire rm (rm_retire rm (g_rm s) p) l, g_nodes := h, g_lock := False\<rparr>) (gplug F sib) \<and>
    leaves (gplug F sib) = gleft ((p, kp, vp, left, sib) # F) @ gright ((p, kp, vp, left, sib) # F)"
proof -
  let ?N = "g_NO_KEY s" and ?u = "gfill (p, kp, vp, left, sib) (GL l k v)"
  let ?r = "rm_retire rm (rm_retire rm (g_rm s) p) l"
  let ?s = "s\<lparr>g_rm := ?r\<rparr>"
  have t: "t = gplug F ?u" using z(3) by simp
  from good_gplugD [of ?N F ?u] z(1) t have g: "good ?N ?u" "gfit ?N F (leaves ?u)" by auto
  then have o: "good ?N sib" by (auto split: if_splits)
  have fit: "gfit ?N F (leaves sib)"
    by (rule gfit_mono [OF g(2), of x]) (use z(4) good_not_GNil [OF o] in auto)
  have W: "gt_at (g_nodes s) (gplug (F @ gbase s X) ?u)" "distinct (gaddrs (gplug (F @ gbase s X) ?u))"
    "set (gaddrs (gplug (F @ gbase s X) ?u)) \<subseteq> live (g_rm s)"
    using z(2) unfolding whole_def t gplug_append by blast+
  then have c: "gt_at (g_nodes s) ?u" "distinct (gaddrs ?u)" "set (gaddrs ?u) \<inter> set (cads (F @ gbase s X)) = {}"
    "set (cads (F @ gbase s X)) \<subseteq> live (g_rm s)" "set (gaddrs ?u) \<subseteq> live (g_rm s)"
    unfolding gt_at_gplug distinct_gplug set_gaddrs_gplug by blast+
  have S: "set (gaddrs sib) \<subseteq> live ?r" "set (cads (F @ gbase s X)) \<subseteq> live ?r"
    by (rule retire_two [OF rm]; use c in \<open>auto split: if_splits\<close>)+
  have "good ?N (gplug F sib)" using o fit by (rule good_gplugI)
  then obtain h where
    h: "(do {
      np \<leftarrow> g_deref ?s (par (F @ gbase ?s X));
      if gaddr ?u = g_left np then g_set_left ?s (par (F @ gbase ?s X)) (gaddr sib) else g_set_right ?s (par (F @ gbase ?s X)) (gaddr sib)
    }) = Some (?s\<lparr>g_nodes := h\<rparr>)" "glock_rep live (?s\<lparr>g_nodes := h, g_lock := False\<rparr>) (gplug F sib)"
    using W c S g(2) by (rule_tac relink [of ?N F "leaves ?u" ?s X ?u live sib]) (auto split: if_splits)
  have p: "gaddr ?u = p" by simp
  from link_retired [OF h(1) [unfolded gbase_simps p]] h(2) leaves_gplug [OF good_not_GNil [OF o] fit]
  show ?thesis by (intro exI [of _ h]) simp
qed

lemma glock_erase_present:
  assumes rm: "recmgr_ok rm live" and r: "glock_rep live s t" "t \<noteq> GNil" "map_of (leaves t) x = Some w"
  shows "\<exists>s' t'. glock_erase rm s x = Some ((w, True), s') \<and> glock_rep live s' t' \<and> g_NO_KEY s' = g_NO_KEY s \<and>
    map_of (leaves t') = (map_of (leaves t))(x := None)"
proof -
  let ?N = "g_NO_KEY s" and ?s = "s\<lparr>g_lock := True\<rparr>"
  from glock_search [OF r(1,2), of x] obtain b v1 c v2 v0 F l k v where z: "good ?N t"
    "whole live s (gplug (gbase s (b, v1, c, v2, v0)) t)" "t = gplug F (GL l k v)"
    "leaves t = gleft F @ (k, v) # gright F" "all_less (gleft F) x" "all_greater x (gright F)" "routed x F"
    and d: "g_deref s (g_root s) = Some \<lparr>g_value = v0, g_key = ?N, g_left = c, g_right = NULL\<rparr>"
    "g_deref s c = Some \<lparr>g_value = v2, g_key = ?N, g_left = gaddr t, g_right = b\<rparr>" "gaddr t \<noteq> NULL"
    "g_search ?s x (g_root s) c (gaddr t) = Some (par (tl (F @ gbase s (b, v1, c, v2, v0))), par (F @ gbase s (b, v1, c, v2, v0)), l)"
    "g_deref s l = Some \<lparr>g_value = v, g_key = k, g_left = NULL, g_right = NULL\<rparr>" by metis
  have [simp]: "k = x" "v = w" using map_of_between [OF z(5,6), of k v] r(3) z(4) by (auto split: if_splits)
  have m: "map_of (gleft F @ gright F) = (map_of (leaves t))(x := None)"
    using z(4-6) by (auto simp: fun_eq_iff map_add_def map_of_all_less map_of_all_greater split: option.splits)
  let ?X = "(b, v1, c, v2, v0)"
  show ?thesis
  proof (cases F)
    case Nil
    then have t: "t = GL l x w" using z(3) by simp
    let ?R = "g_root s" and ?r = "rm_retire rm (rm_retire rm (g_rm s) c) l"
    let ?h = "(g_nodes s)(?R \<mapsto> \<lparr>g_value = v0, g_key = ?N, g_left = b, g_right = NULL\<rparr>)"
    have e: "glock_erase rm s x = Some ((w, True), s\<lparr>g_nodes := ?h, g_rm := ?r\<rparr>)"
      using d t Nil glock_rep_lock [OF r(1)] r(1)
      by (auto simp: glock_erase_def releaseLock_def g_set_left_def gbase_def glock_rep_def)
    from z(2) t have w: "gt_at (g_nodes s) (GL b ?N v1)" "distinct [?R, c, l, b]" "{?R, b} \<subseteq> live (g_rm s)" "?R \<noteq> NULL"
      by (auto simp: whole_def gbase_def)
    have "{?R, b} \<subseteq> live ?r" by (rule retire_two [OF rm]) (use w in auto)
    with w have "whole live (s\<lparr>g_nodes := ?h, g_rm := ?r\<rparr>) (gtop ?N (?R, v0, b, v1, c, v2) GNil)"
      by (simp add: whole_def)
    moreover have "\<not> g_lock s" using r(1) by (simp add: glock_rep_def)
    ultimately have "glock_rep live (s\<lparr>g_nodes := ?h, g_rm := ?r\<rparr>) GNil"
      unfolding glock_rep_def by (intro conjI exI [of _ "(?R, v0, b, v1, c, v2)"]) simp_all
    with e t show ?thesis by (intro exI [of _ "s\<lparr>g_nodes := ?h, g_rm := ?r\<rparr>"] exI [of _ GNil]) simp
  next
    case (Cons f F')
    then obtain p kp vp left sib where F: "F = (p, kp, vp, left, sib) # F'" by (cases f) auto
    have pre: "good (g_NO_KEY ?s) t" "whole live ?s (gplug (gbase ?s ?X) t)" using z(1,2) by simp_all
    from glock_erase_inner [OF rm pre z(3) [unfolded F] z(7) [unfolded F]] obtain h where
      h: "(do {
        np \<leftarrow> g_deref ?s (par (F' @ gbase s ?X));
        if p = g_left np then g_set_left ?s (par (F' @ gbase s ?X)) (gaddr sib) else g_set_right ?s (par (F' @ gbase s ?X)) (gaddr sib)
      }) = Some (?s\<lparr>g_nodes := h\<rparr>)"
      "glock_rep live (?s\<lparr>g_rm := rm_retire rm (rm_retire rm (g_rm ?s) p) l, g_nodes := h, g_lock := False\<rparr>) (gplug F' sib)"
      "leaves (gplug F' sib) = gleft F @ gright F" unfolding gbase_simps F by blast
    have "gt_at (g_nodes s) t" "distinct (gaddrs t)" using z(2) unfolding whole_def gt_at_gplug distinct_gplug by blast+
    then have u: "gt_at (g_nodes s) (gfill (p, kp, vp, left, sib) (GL l k v))" "distinct (gaddrs (gfill (p, kp, vp, left, sib) (GL l k v)))"
      unfolding z(3) F gplug.simps gt_at_gplug distinct_gplug by blast+
    then have "g_deref s p = Some \<lparr>g_value = vp, g_key = kp, g_left = (if left then l else gaddr sib),
        g_right = (if left then gaddr sib else l)\<rparr>" by (auto simp: g_deref_def split: if_splits)
    moreover have "sib \<noteq> GNil" using good_gplugD [of ?N F "GL l k v"] z(1,3) F by auto
    then have "\<not> left \<Longrightarrow> l \<noteq> gaddr sib" using u(2) gaddr_in [of sib] by auto
    ultimately have "glock_erase rm s x = Some ((w, True), ?s\<lparr>g_rm := rm_retire rm (rm_retire rm (g_rm ?s) p) l, g_nodes := h, g_lock := False\<rparr>)"
      (is "_ = Some (_, ?s')")
      using bind_then [OF h(1), of "\<lambda>s. Some ((w, True), releaseLock (s\<lparr>g_rm := rm_retire rm (rm_retire rm (g_rm s) p) l\<rparr>))"]
        d glock_rep_lock [OF r(1)] F
      by (cases left) (simp_all add: glock_erase_def releaseLock_def Let_def cong: if_cong)
    with h(2,3) m show ?thesis by (intro exI [of _ ?s'] exI [of _ "gplug F' sib"]) simp
  qed
qed

end
