(* ===== verification/Glock_Properties.thy ===== *)
theory Glock_Properties
  imports Glock_Proof
begin

text \<open>
  The properties of the tree under a global lock: it is a finite map, the lock is free after every
  call, and the destructor gives every node back.
\<close>

section \<open>The remaining members\<close>

lemma glock_erase_absent:
  assumes r: "glock_rep live s t" "map_of (leaves t) x = None"
  shows "glock_erase rm s x = Some ((NO_VALUE, False), s)"
proof (cases "t = GNil")
  case True
  with r obtain R v0 b v1 where "whole live s (GN R (g_NO_KEY s) v0 (GL b (g_NO_KEY s) v1) GNil)"
    unfolding glock_rep_def by auto
  with True glock_rep_lock [OF r(1)] show ?thesis by (auto simp: glock_erase_def whole_def g_deref_def)
next
  case False
  from glock_search [OF r(1) False, of x] obtain b v1 c v2 v0 F l k v where
    z: "leaves t = gleft F @ (k, v) # gright F" "all_less (gleft F) x" "all_greater x (gright F)"
    and d: "g_deref s (g_root s) = Some \<lparr>g_value = v0, g_key = g_NO_KEY s, g_left = c, g_right = NULL\<rparr>"
    "g_deref s c = Some \<lparr>g_value = v2, g_key = g_NO_KEY s, g_left = gaddr t, g_right = b\<rparr>"
    "gaddr t \<noteq> NULL"
    "g_search (s\<lparr>g_lock := True\<rparr>) x (g_root s) c (gaddr t) = Some (par (tl (F @ gbase s (b, v1, c, v2, v0))), par (F @ gbase s (b, v1, c, v2, v0)), l)"
    "g_deref s l = Some \<lparr>g_value = v, g_key = k, g_left = NULL, g_right = NULL\<rparr>" by metis
  have "x \<noteq> k" using map_of_between [OF z(2,3), of k v] r(2) z(1) by auto
  with d glock_rep_lock [OF r(1)] show ?thesis by (simp add: glock_erase_def)
qed

text \<open>The dictionary a memory holds.\<close>

definition glock_holds :: "('r \<Rightarrow> addr set) \<Rightarrow> 'r glock \<Rightarrow> (key \<Rightarrow> val option) \<Rightarrow> bool" where
  "glock_holds live s m \<longleftrightarrow> (\<exists>t. glock_rep live s t \<and> map_of (leaves t) = m)"

lemma doInsert_ok:
  assumes rm: "recmgr_ok rm live" and r: "glock_holds live s m" "x \<noteq> g_NO_KEY s"
  shows "\<exists>s'. doInsert rm s x w oia = Some (case m x of None \<Rightarrow> NO_VALUE | Some v \<Rightarrow> v, s') \<and>
    glock_holds live s' (if oia \<and> m x \<noteq> None then m else m(x \<mapsto> w)) \<and> g_NO_KEY s' = g_NO_KEY s"
proof -
  from r(1) obtain t where t: "glock_rep live s t" "map_of (leaves t) = m" unfolding glock_holds_def by blast
  show ?thesis
  proof (cases "m x")
    case None
    have "\<exists>s' t'. doInsert rm s x w oia = Some (NO_VALUE, s') \<and> glock_rep live s' t' \<and> g_NO_KEY s' = g_NO_KEY s \<and>
      map_of (leaves t') = m(x \<mapsto> w)"
    proof (cases "t = GNil")
      case True
      with doInsert_empty [OF rm _ r(2)] t show ?thesis by auto
    next
      case False
      with doInsert_absent [OF rm t(1) False _ r(2)] t(2) None show ?thesis by auto
    qed
    with None show ?thesis unfolding glock_holds_def by auto
  next
    case (Some v)
    then have "t \<noteq> GNil" using t(2) by auto
    with doInsert_present [OF t(1), of x v rm w oia] t(2) Some obtain s' t' where
      "doInsert rm s x w oia = Some (v, s')" "glock_rep live s' t'" "g_NO_KEY s' = g_NO_KEY s"
      "map_of (leaves t') = (if oia then m else m(x \<mapsto> w))" by blast
    with Some show ?thesis unfolding glock_holds_def by auto
  qed
qed

lemma glock_erase_ok:
  assumes rm: "recmgr_ok rm live" and r: "glock_holds live s m"
  shows "\<exists>s'. glock_erase rm s x = Some (case m x of None \<Rightarrow> (NO_VALUE, False) | Some v \<Rightarrow> (v, True), s') \<and>
    glock_holds live s' (m(x := None)) \<and> g_NO_KEY s' = g_NO_KEY s"
proof -
  from r obtain t where t: "glock_rep live s t" "map_of (leaves t) = m" unfolding glock_holds_def by blast
  show ?thesis
  proof (cases "m x")
    case None
    then have "m(x := None) = m" by auto
    with None glock_erase_absent [OF t(1), of x rm] t(2) r show ?thesis by auto
  next
    case (Some v)
    then have "t \<noteq> GNil" using t(2) by auto
    with glock_erase_present [OF rm t(1), of x v] t(2) Some obtain s' t' where
      "glock_erase rm s x = Some ((v, True), s')" "glock_rep live s' t'" "g_NO_KEY s' = g_NO_KEY s"
      "map_of (leaves t') = m(x := None)" by blast
    with Some show ?thesis unfolding glock_holds_def by auto
  qed
qed

lemma bst_glock_ok:
  assumes "recmgr_ok rm live"
  shows "glock_holds live (bst_glock rm N r) Map.empty" "g_NO_KEY (bst_glock rm N r) = N"
proof -
  let ?s = "\<lparr>g_nodes = \<lambda>_. None, g_root = NULL, g_lock = False, g_rm = r, g_NO_KEY = N\<rparr>"
  obtain b s1 where 1: "createNode rm ?s N NO_VALUE NULL NULL = (b, s1)" by force
  obtain R s2 where 2: "createNode rm s1 N NO_VALUE b NULL = (R, s2)" by force
  note c = createNode_ok [OF assms 1] and d = createNode_ok [OF assms 2]
  from c(5) obtain h1 r1 where s1: "s1 = ?s\<lparr>g_nodes := h1, g_rm := r1\<rparr>" by blast
  from d(5) obtain h2 r2 where s2: "s2 = s1\<lparr>g_nodes := h2, g_rm := r2\<rparr>" by blast
  have e: "bst_glock rm N r = s2\<lparr>g_root := R\<rparr>" using 1 2 by (simp add: bst_glock_def)
  have n: "R \<noteq> b" using c(3) d(2) by auto
  have "whole live (s2\<lparr>g_root := R\<rparr>) (gtop N (R, NO_VALUE, b, NO_VALUE, b, NO_VALUE) GNil)"
    using c(1,3,4) d(1,3,4) n by (simp add: whole_def)
  then have "glock_rep live (s2\<lparr>g_root := R\<rparr>) GNil"
    unfolding glock_rep_def by (intro conjI exI [of _ "(R, NO_VALUE, b, NO_VALUE, b, NO_VALUE)"]) (simp_all add: s1 s2)
  then show "glock_holds live (bst_glock rm N r) Map.empty" unfolding e glock_holds_def by force
  show "g_NO_KEY (bst_glock rm N r) = N" by (simp add: e s1 s2)
qed

section \<open>Calls\<close>

datatype glock_op = GFind key | GContains key | GInsert key val | GInsertIfAbsent key val | GErase key

datatype glock_res = RValue val | RPair "val \<times> bool" | RBool bool

fun op_key :: "glock_op \<Rightarrow> key" where
  "op_key (GFind k) = k"
| "op_key (GContains k) = k"
| "op_key (GInsert k v) = k"
| "op_key (GInsertIfAbsent k v) = k"
| "op_key (GErase k) = k"

fun glock_call :: "'r recmgr_ops \<Rightarrow> 'r glock \<Rightarrow> glock_op \<Rightarrow> (glock_res \<times> 'r glock) option" where
  "glock_call rm s (GFind k) = map_option (\<lambda>(r, s). (RPair r, s)) (glock_find s k)"
| "glock_call rm s (GContains k) = map_option (\<lambda>(r, s). (RBool r, s)) (glock_contains s k)"
| "glock_call rm s (GInsert k v) = map_option (\<lambda>(r, s). (RValue r, s)) (glock_insert rm s k v)"
| "glock_call rm s (GInsertIfAbsent k v) = map_option (\<lambda>(r, s). (RValue r, s)) (glock_insertIfAbsent rm s k v)"
| "glock_call rm s (GErase k) = map_option (\<lambda>(r, s). (RPair r, s)) (glock_erase rm s k)"

fun glock_calls :: "'r recmgr_ops \<Rightarrow> 'r glock \<Rightarrow> glock_op list \<Rightarrow> (glock_res list \<times> 'r glock) option" where
  "glock_calls rm s [] = Some ([], s)"
| "glock_calls rm s (c # cs) = do {
     (r, s) \<leftarrow> glock_call rm s c;
     (rs, s) \<leftarrow> glock_calls rm s cs;
     Some (r # rs, s)
   }"

text \<open>The same calls on a finite map.\<close>

definition found :: "val option \<Rightarrow> val \<times> bool" where
  "found x = (case x of None \<Rightarrow> (NO_VALUE, False) | Some v \<Rightarrow> (v, True))"

fun map_gcall :: "(key \<Rightarrow> val option) \<Rightarrow> glock_op \<Rightarrow> glock_res \<times> (key \<Rightarrow> val option)" where
  "map_gcall m (GFind k) = (RPair (found (m k)), m)"
| "map_gcall m (GContains k) = (RBool (m k \<noteq> None), m)"
| "map_gcall m (GInsert k v) = (RValue (fst (found (m k))), m(k \<mapsto> v))"
| "map_gcall m (GInsertIfAbsent k v) = (RValue (fst (found (m k))), if m k = None then m(k \<mapsto> v) else m)"
| "map_gcall m (GErase k) = (RPair (found (m k)), m(k := None))"

fun map_gcalls :: "(key \<Rightarrow> val option) \<Rightarrow> glock_op list \<Rightarrow> glock_res list" where
  "map_gcalls m [] = []"
| "map_gcalls m (c # cs) = fst (map_gcall m c) # map_gcalls (snd (map_gcall m c)) cs"

lemma glock_call_ok:
  assumes rm: "recmgr_ok rm live" and r: "glock_holds live s m" "op_key c \<noteq> g_NO_KEY s"
  shows "\<exists>s'. glock_call rm s c = Some (fst (map_gcall m c), s') \<and> glock_holds live s' (snd (map_gcall m c)) \<and>
    g_NO_KEY s' = g_NO_KEY s"
proof -
  have f: "glock_find s k = Some (found (m k), s)" if "k \<noteq> g_NO_KEY s" for k
    using r(1) that glock_find_ok unfolding glock_holds_def found_def by blast
  show ?thesis
  proof (cases c)
    case (GInsert k v)
    with doInsert_ok [OF rm r(1), of k v False] r(2) obtain s' where
      "doInsert rm s k v False = Some (fst (found (m k)), s')" "glock_holds live s' (m(k \<mapsto> v))" "g_NO_KEY s' = g_NO_KEY s"
      by (auto simp: found_def split: option.splits)
    with GInsert show ?thesis by (simp add: glock_insert_def)
  next
    case (GInsertIfAbsent k v)
    with doInsert_ok [OF rm r(1), of k v True] r(2) obtain s' where
      "doInsert rm s k v True = Some (fst (found (m k)), s')" "g_NO_KEY s' = g_NO_KEY s"
      "glock_holds live s' (if m k = None then m(k \<mapsto> v) else m)"
      by (auto simp: found_def split: option.splits)
    with GInsertIfAbsent show ?thesis by (simp add: glock_insertIfAbsent_def)
  next
    case (GErase k)
    from glock_erase_ok [OF rm r(1), of k] obtain s' where
      "glock_erase rm s k = Some (found (m k), s')" "glock_holds live s' (m(k := None))" "g_NO_KEY s' = g_NO_KEY s"
      unfolding found_def by blast
    with GErase show ?thesis by simp
  qed (use f r in \<open>auto simp: glock_contains_def found_def split: option.splits\<close>)
qed

lemma glock_calls_ok:
  assumes "recmgr_ok rm live"
  shows "glock_holds live s m \<Longrightarrow> g_NO_KEY s \<notin> op_key ` set cs \<Longrightarrow>
    \<exists>s'. glock_calls rm s cs = Some (map_gcalls m cs, s') \<and> \<not> g_lock s'"
proof (induction cs arbitrary: s m)
  case Nil
  then show ?case by (auto simp: glock_holds_def glock_rep_def)
next
  case (Cons c cs)
  with glock_call_ok [OF assms, of s m c] obtain s1 where
    1: "glock_call rm s c = Some (fst (map_gcall m c), s1)" "glock_holds live s1 (snd (map_gcall m c))"
    "g_NO_KEY s1 = g_NO_KEY s" by auto
  with Cons.IH [OF 1(2)] Cons.prems(2) show ?case by auto
qed

section \<open>Deallocation\<close>

text \<open>A node without a left child has no right child either.\<close>

fun left_first :: "gtree \<Rightarrow> bool" where
  "left_first GNil = True"
| "left_first (GN a k v l r) \<longleftrightarrow> left_first l \<and> left_first r \<and> (l = GNil \<longrightarrow> r = GNil)"

lemma good_left_first: "good N t \<Longrightarrow> left_first t"
  by (induction N t rule: good.induct) auto

lemma dfs_ok:
  assumes rm: "recmgr_ok rm live"
  shows "gt_at (g_nodes s) t \<Longrightarrow> distinct (gaddrs t) \<Longrightarrow> left_first t \<Longrightarrow>
    \<exists>r. dfsDeallocateBottomUp rm s (gaddr t) =
      Some (s\<lparr>g_nodes := g_nodes s |` (- set (gaddrs t)), g_rm := r\<rparr>) \<and> live r = live (g_rm s) - set (gaddrs t)"
proof (induction t arbitrary: s)
  case GNil
  show ?case by (subst dfsDeallocateBottomUp.simps) (auto simp: restrict_map_def intro!: exI [of _ "g_rm s"])
next
  case (GN a k v l r)
  note d = gt_at_deref [OF GN.prems(1)]
  show ?case
  proof (cases "l = GNil")
    case True
    have "(g_nodes s)(a := None) = g_nodes s |` (- {a})" by (auto simp: restrict_map_def fun_eq_iff)
    with True GN.prems d recmgr_okD(3) [OF rm, of "g_rm s" a] show ?thesis
      by (subst dfsDeallocateBottomUp.simps) (auto intro!: exI [of _ "rm_deallocate rm (g_rm s) a"])
  next
    case False
    from GN.prems have l: "gaddr l \<noteq> NULL" "gt_at (g_nodes s) l" "gt_at (g_nodes s) r" "distinct (gaddrs l)" "distinct (gaddrs r)"
      "left_first l" "left_first r" "set (gaddrs l) \<inter> set (gaddrs r) = {}" "a \<noteq> NULL" "a \<notin> set (gaddrs l)" "a \<notin> set (gaddrs r)"
      using False gaddr_NULL [of "g_nodes s" l] by auto
    from GN.IH(1) [OF l(2,4,6)] obtain r1 where
      1: "dfsDeallocateBottomUp rm s (gaddr l) = Some (s\<lparr>g_nodes := g_nodes s |` (- set (gaddrs l)), g_rm := r1\<rparr>)"
        "live r1 = live (g_rm s) - set (gaddrs l)" by blast
    let ?s1 = "s\<lparr>g_nodes := g_nodes s |` (- set (gaddrs l)), g_rm := r1\<rparr>"
    have "gt_at (g_nodes ?s1) r = gt_at (g_nodes s) r" by (rule gt_at_cong) (use l(8) in \<open>auto simp: restrict_map_def\<close>)
    with GN.IH(2) [of ?s1] l(3,5,7) obtain r2 where
      2: "dfsDeallocateBottomUp rm ?s1 (gaddr r) =
          Some (s\<lparr>g_nodes := g_nodes s |` (- set (gaddrs l)) |` (- set (gaddrs r)), g_rm := r2\<rparr>)"
        "live r2 = live r1 - set (gaddrs r)" by auto
    let ?s2 = "s\<lparr>g_nodes := g_nodes s |` (- set (gaddrs l)) |` (- set (gaddrs r)), g_rm := r2\<rparr>"
    have n: "g_deref ?s1 a = g_deref s a" "g_deref ?s2 a = g_deref s a" using l by (auto simp: g_deref_def)
    have h: "(g_nodes s |` (- set (gaddrs l)) |` (- set (gaddrs r)))(a := None) = g_nodes s |` (- set (gaddrs (GN a k v l r)))"
      by (auto simp: restrict_map_def fun_eq_iff)
    have "dfsDeallocateBottomUp rm s a = Some (?s2\<lparr>g_nodes := (g_nodes ?s2)(a := None), g_rm := rm_deallocate rm r2 a\<rparr>)"
      using d l(1,9) 1(1) 2(1) n by (subst dfsDeallocateBottomUp.simps) simp
    with h 1(2) 2(2) recmgr_okD(3) [OF rm, of r2 a] show ?thesis by (auto intro!: exI [of _ "rm_deallocate rm r2 a"])
  qed
qed

lemma length_gaddrs: "good N t \<Longrightarrow> length (gaddrs t) + 1 = 2 * length (leaves t)"
proof (induction N t rule: good.induct)
  case (2 N a k v l r)
  then show ?case by (cases "l = GNil") auto
qed simp

lemma card_dom_leaves: "good N t \<Longrightarrow> card (dom (map_of (leaves t))) = length (leaves t)"
proof -
  assume "good N t"
  then have "distinct (map fst (leaves t))" using sorted_leaves unfolding sorted_kvs_def strict_sorted_iff by blast
  then show ?thesis by (simp add: dom_map_of_conv_image_fst distinct_card flip: set_map)
qed

section \<open>Properties\<close>

text \<open>
  C24. The tree under a global lock is a finite map: on a new tree any sequence of find, contains,
  insert, insertIfAbsent and erase calls, with keys other than \<open>NO_KEY\<close>, returns what a finite map
  returns, and leaves the lock free. The record manager may hand out retired nodes again.
\<close>

theorem glock_refines_map:
  assumes "recmgr_ok rm live" "no_key \<notin> op_key ` set cs"
  shows "\<exists>s'. glock_calls rm (bst_glock rm no_key r) cs = Some (map_gcalls Map.empty cs, s') \<and> \<not> g_lock s'"
  using glock_calls_ok [OF assms(1) bst_glock_ok(1) [OF assms(1)]] assms bst_glock_ok(2) [OF assms(1)] by metis

theorem glock_refines_map_witness:
  "\<exists>s'. glock_calls bump_ops (bst_glock bump_ops (-1) (0, {}))
      [GInsert 5 50, GInsertIfAbsent 5 51, GInsert 3 30, GErase 5, GFind 3, GContains 5] =
    Some ([RValue 0, RValue 50, RValue 0, RPair (50, True), RPair (30, True), RBool False], s') \<and> \<not> g_lock s'"
  using glock_refines_map [OF bump_ok, of "-1" "[GInsert 5 50, GInsertIfAbsent 5 51, GInsert 3 30, GErase 5, GFind 3, GContains 5]" "(0, {})"]
  by (simp add: found_def)

text \<open>
  C25. The lock discipline, in any memory: a call returns only when it found the lock free, and
  on every path to a return it has released the lock.
\<close>

theorem glock_released:
  assumes "glock_call rm s c = Some (r, s')"
  shows "\<not> g_lock s \<and> \<not> g_lock s'"
proof (cases c)
  case (GInsert k v)
  with assms show ?thesis
    by (auto simp: glock_insert_def doInsert_def acquireLock_def releaseLock_def Let_def split: if_splits prod.splits bind_splits)
next
  case (GInsertIfAbsent k v)
  with assms show ?thesis
    by (auto simp: glock_insertIfAbsent_def doInsert_def acquireLock_def releaseLock_def Let_def split: if_splits prod.splits bind_splits)
next
  case (GErase k)
  with assms show ?thesis
    by (auto simp: glock_erase_def acquireLock_def releaseLock_def Let_def split: if_splits prod.splits bind_splits)
qed (use assms in \<open>auto simp: glock_contains_def glock_find_def acquireLock_def releaseLock_def split: if_splits prod.splits bind_splits\<close>)

theorem glock_released_witness:
  "\<exists>r s'. glock_call bump_ops (bst_glock bump_ops (-1) (0, {})) (GInsert 5 50) = Some (r, s') \<and> \<not> g_lock s'"
proof -
  have "op_key (GInsert 5 50) \<noteq> g_NO_KEY (bst_glock bump_ops (-1) (0, {}))" using bst_glock_ok(2) [OF bump_ok] by simp
  from glock_call_ok [OF bump_ok bst_glock_ok(1) [OF bump_ok] this] obtain r s' where
    "glock_call bump_ops (bst_glock bump_ops (-1) (0, {})) (GInsert 5 50) = Some (r, s')" by blast
  with glock_released [OF this] show ?thesis by blast
qed

text \<open>
  C26. The destructor deallocates every node of the tree once, no other node, and reads no node it
  has deallocated. A tree of \<open>n\<close> pairs has \<open>2 n + 2\<close> nodes.
\<close>

theorem glock_destructor:
  assumes "recmgr_ok rm live" "glock_holds live s m"
  shows "\<exists>s' A. destroy_bst_glock rm s = Some s' \<and> g_nodes s' = g_nodes s |` (- A) \<and> A \<subseteq> dom (g_nodes s) \<and>
    live (g_rm s') = live (g_rm s) - A \<and> finite A \<and> card A = 2 * card (dom m) + 2"
proof -
  from assms(2) obtain t X where t: "t = GNil \<or> good (g_NO_KEY s) t" "whole live s (gtop (g_NO_KEY s) X t)" "map_of (leaves t) = m"
    unfolding glock_holds_def glock_rep_def by blast
  let ?W = "gtop (g_NO_KEY s) X t"
  have l: "left_first ?W" using t(1) good_left_first by (cases X) auto
  from t(2) dfs_ok [OF assms(1), of s ?W] l obtain r where
    r: "destroy_bst_glock rm s = Some (s\<lparr>g_nodes := g_nodes s |` (- set (gaddrs ?W)), g_rm := r\<rparr>)"
      "live r = live (g_rm s) - set (gaddrs ?W)" unfolding whole_def destroy_bst_glock_def by auto
  have "card (set (gaddrs ?W)) = length (gaddrs ?W)" using t(2) distinct_card unfolding whole_def by blast
  moreover have "length (gaddrs ?W) = 2 * card (dom m) + 2"
    using t(1,3) length_gaddrs [of "g_NO_KEY s" t] card_dom_leaves [of "g_NO_KEY s" t] by (cases X) auto
  moreover have "set (gaddrs u) \<subseteq> dom (g_nodes s)" if "gt_at (g_nodes s) u" for u
    using that by (induction u) auto
  then have "set (gaddrs ?W) \<subseteq> dom (g_nodes s)" using t(2) unfolding whole_def by blast
  ultimately show ?thesis using r
    by (intro exI [of _ "s\<lparr>g_nodes := g_nodes s |` (- set (gaddrs ?W)), g_rm := r\<rparr>"] exI [of _ "set (gaddrs ?W)"]) simp
qed

theorem glock_destructor_witness:
  "\<exists>s' A. destroy_bst_glock bump_ops (bst_glock bump_ops (-1) (0, {})) = Some s' \<and> card A = 2 \<and>
    A \<subseteq> dom (g_nodes (bst_glock bump_ops (-1) (0, {})))"
proof -
  from glock_destructor [OF bump_ok bst_glock_ok(1) [OF bump_ok, of "-1" "(0, {})"]] obtain s' A where
    "destroy_bst_glock bump_ops (bst_glock bump_ops (-1) (0, {})) = Some s'" "card A = 2 * card (dom (\<lambda>_::key. None :: val option)) + 2"
    "A \<subseteq> dom (g_nodes (bst_glock bump_ops (-1) (0, {})))" by blast
  then show ?thesis by (intro exI [of _ s'] exI [of _ A]) simp
qed

end
