(* ===== verification/Spec2Isabelle.thy ===== *)
theory Spec2Isabelle
  imports AVL_Properties List_Properties CA_Tree RB_Tree Dict_Properties Splay_Properties Glock_Properties
begin

text \<open>
  A verification library for the data structures of the Concurrent-AVL benchmark (C++ sources
  under \<open>src/cpp\<close>).

  \<^bold>\<open>The program.\<close> The repository is a benchmark for concurrent dictionaries. Its data structures
  are under \<open>src/cpp/ds\<close>, the sequential ones of the self-adjusting family under
  \<open>src/cpp/gsat/ds\<close>, the generators of the workloads under \<open>src/cpp/microbench/workloads\<close>. The
  contention-adapting tree (\<open>winblad_catree\<close>) composes them: it routes a key through a tree of
  route nodes to a base node, whose set implements the interface \<open>IOrderedSet\<close> (\<open>AVLTree\<close>,
  \<open>LinkedList\<close> or \<open>RedBlackTree\<close>), and splits and joins base nodes as the contention on their locks
  changes. The hash table (\<open>common/dict.h\<close>) is an index the other structures use; the global-lock
  tree (\<open>brown_ext_bst_glock\<close>) is the baseline the concurrent trees are compared with.

  \<^bold>\<open>Style of the model.\<close> \<open>Prelude\<close>: keys are integers, values and addresses natural numbers, and a
  statement that has no result (null or dangling dereference, failed \<open>assert\<close>, endless loop) is
  \<open>None\<close>. \<open>Ptr_Tree\<close>: the store of tree nodes, accessors for their fields, trees annotated with
  addresses, contexts, and the predicate \<open>zipper\<close> that a tree object holds a tree and nothing else
  changes. \<open>Tree_Objects\<close>: several tree objects in one memory. The state is passed explicitly;
  loops are partial functions into the option type, so a theorem that says \<open>Some\<close> also says that
  the loop ends. Assertions are on in the model, so such a theorem also says that none fires. Fuel
  occurs only in \<open>alone\<close>, which runs the at most six statements of a member of a base node. Counters
  of C++ types are reduced by \<open>to_int32\<close> and \<open>to_size_t\<close> where the code stores them.

  \<^bold>\<open>Components.\<close>

  \<^item> \<open>IOSet\<close> is \<open>winblad_catree/interfaces.h\<close>: the method table \<open>ioset_ops\<close> and what its methods
    promise, as three locales, \<open>dictionary_set\<close> (find, insert, erase), \<open>joinable_set\<close> (and join) and
    \<open>ordered_set\<close> (and split and the sums). The lemmas on sequences of calls are proved there once.
  \<^item> \<open>AVL_Tree\<close> is \<open>winblad_catree/avl_tree.h\<close>, member by member. \<open>AVL_Balance\<close> has the invariant and
    the rotations, \<open>AVL_Insert\<close>, \<open>AVL_Erase\<close>, \<open>AVL_Join\<close>, \<open>AVL_Split\<close> and \<open>AVL_Members\<close> the members,
    \<open>AVL_Set\<close> shows that the class is an \<open>ordered_set\<close>, and \<open>AVL_Properties\<close> states the results.
  \<^item> \<open>Linked_List\<close> is \<open>winblad_catree/linkedlist.h\<close>. \<open>List_Proof\<close> has its representation and one
    lemma per member; \<open>List_Properties\<close> shows that the class is a \<open>joinable_set\<close> and where its
    32-bit variables keep it from being an \<open>ordered_set\<close>.
  \<^item> \<open>RB_Tree\<close> is \<open>winblad_catree/redblack_tree.h\<close>, every member that is compiled.
  \<^item> \<open>CA_Nodes\<close> is \<open>base_node.h\<close> and \<open>route_node.h\<close>. The members are functions on a node, and those of a
    base node also lists of statements (\<open>lock_code\<close>, \<open>unlock_code\<close>, ...), which a step relation
    interleaves for any number of threads on one base node. The threads follow the calling protocol
    of the tree (\<open>may_call\<close>); mutual exclusion and the assertions are proved by rule induction. \<open>CA_Tree\<close> is
    \<open>ca_tree.h\<close>: the operations of one thread, in a memory where other threads may hold locks, over
    any \<open>ioset_ops\<close> and over the record manager of \<open>Rec_Mgr\<close>.
  \<^item> \<open>Dict\<close> is \<open>common/dict.h\<close>. \<open>Dict_Proof\<close> has the invariant of the two tables and one lemma per
    operation, \<open>Dict_Properties\<close> the results: refinement of a finite map while rehashing goes on,
    and the end of rehashing.
  \<^item> \<open>Splay_Tree\<close> is \<open>gsat/ds/splay_tree\<close> on the store of \<open>Ptr_Tree\<close>. \<open>Splay_Proof\<close> shows that the rotations
    compute the function \<open>splay_up\<close> on trees and what the operations do, \<open>Splay_Cost\<close> bounds the number
    of rotations by a potential, and \<open>Splay_Properties\<close> states the results.
  \<^item> \<open>BST_Glock\<close> is \<open>brown_ext_bst_glock\<close> with the lock of \<open>common/locks_impl.h\<close>. \<open>Glock_Proof\<close> reads the
    store as an external search tree and follows the operations through contexts;
    \<open>Glock_Properties\<close> has the refinement of a finite map, the lock discipline and the destructor.

  \<^bold>\<open>Not modelled.\<close> The lock-free structures under \<open>src/cpp/ds\<close> (their correctness is that of
  interleaved compare-and-swap steps on a weak memory), the reclamation service \<open>recordmgr\<close> (not in
  the sources; where a structure needs it, it is the parameter \<open>recmgr_ops\<close> with the laws \<open>recmgr_ok\<close>),
  processor-specific code, statistics, and the drivers that start threads and print. The
  functions that print are modelled by the numbers they print; \<open>printf_d\<close> is the conversion \<open>%d\<close> of a
  64-bit key.
\<close>

end
